(* ===== verification/Prelude.thy ===== *)
theory Prelude
  imports Main "HOL-Library.Multiset" "HOL-Library.Monad_Syntax"
begin

text \<open>
  Shared vocabulary of the development.

  \<^item> Errors: every Python exception of the modelled code is a value of \<open>py_error\<close>, and a
    fallible operation returns \<open>py_error + 'a\<close> (\<open>Inl\<close> the exception). \<open>rbind\<close> sequences two
    fallible steps: the first exception leaves the function, as it does in Python.
  \<^item> Collections of facts: \<open>res_simps\<close> (evaluation of results), \<open>seq_simps\<close> (sums, slices and
    counting on lists), which the component theories hand to \<open>simp\<close> and \<open>auto\<close>.
  \<^item> Lemmas on list sums, slices and disjoint pieces that several components use.
\<close>

named_theorems res_simps \<open>evaluation of fallible computations\<close>
named_theorems seq_simps \<open>sums and slices of lists\<close>

datatype py_error =
    ValueError | AssertionError | IndexError | KeyError | RuntimeError | ZeroDivisionError
  | NotImplementedError

type_synonym 'a res = "py_error + 'a"

definition rbind :: "('e + 'a) \<Rightarrow> ('a \<Rightarrow> 'e + 'b) \<Rightarrow> 'e + 'b" where
  "rbind m f = (case m of Inl e \<Rightarrow> Inl e | Inr x \<Rightarrow> f x)"

definition guard_err :: "bool \<Rightarrow> 'e \<Rightarrow> 'e + unit" where
  "guard_err b e = (if b then Inr () else Inl e)"

lemma rbind_simps [simp, res_simps]:
  "rbind (Inl e) f = Inl e"
  "rbind (Inr x) f = f x"
  by (simp_all add: rbind_def)

lemma rbind_Inr_iff [res_simps]:
  "rbind m f = Inr y \<longleftrightarrow> (\<exists>x. m = Inr x \<and> f x = Inr y)"
  by (cases m) auto

lemma rbind_Inl_iff:
  "rbind m f = Inl e \<longleftrightarrow> m = Inl e \<or> (\<exists>x. m = Inr x \<and> f x = Inl e)"
  by (cases m) auto

lemma guard_err_simps [simp, res_simps]:
  "guard_err True e = Inr ()"
  "guard_err False e = Inl e"
  by (simp_all add: guard_err_def)

lemma guard_err_Inr_iff [simp]: "guard_err b e = Inr u \<longleftrightarrow> b"
  by (simp add: guard_err_def)

text \<open>Left-to-right evaluation of a list of fallible computations: a comprehension whose
  body may raise.\<close>

fun rmap :: "('a \<Rightarrow> 'e + 'b) \<Rightarrow> 'a list \<Rightarrow> 'e + 'b list" where
  "rmap f [] = Inr []"
| "rmap f (x # xs) = rbind (f x) (\<lambda>y. rbind (rmap f xs) (\<lambda>ys. Inr (y # ys)))"

lemma rmap_ok: "(\<And>x. x \<in> set xs \<Longrightarrow> f x = Inr (g x)) \<Longrightarrow> rmap f xs = Inr (map g xs)"
  by (induction xs) auto

lemma rmap_map: "rmap f (map g xs) = rmap (\<lambda>x. f (g x)) xs"
  by (induction xs) auto

lemma rmap_exists:
  assumes "\<And>x. x \<in> set xs \<Longrightarrow> \<exists>y. f x = Inr y \<and> P x y"
  shows "\<exists>ys. rmap f xs = Inr ys \<and> list_all2 P xs ys"
  using assms
proof (induction xs)
  case (Cons x xs)
  then obtain y ys where "f x = Inr y" "P x y" "rmap f xs = Inr ys" "list_all2 P xs ys" by (metis list.set_intros)
  then show ?case by auto
qed simp

lemma rmap_length: "rmap f xs = Inr ys \<Longrightarrow> length ys = length xs"
  by (induction xs arbitrary: ys) (auto simp: rbind_Inr_iff)

lemma rmap_nth: "rmap f xs = Inr ys \<Longrightarrow> i < length xs \<Longrightarrow> f (xs ! i) = Inr (ys ! i)"
proof (induction xs arbitrary: ys i)
  case Nil
  then show ?case by simp
next
  case (Cons x xs)
  then show ?case by (cases i) (auto simp: rbind_Inr_iff)
qed

section \<open>Sums and slices\<close>

text \<open>The half-open slice \<open>xs[a:b]\<close> of Python for \<open>0 \<le> a\<close>.\<close>

definition slice :: "nat \<Rightarrow> nat \<Rightarrow> 'a list \<Rightarrow> 'a list" where
  "slice a b xs = take (b - a) (drop a xs)"

lemma length_slice [simp, seq_simps]: "length (slice a b xs) = min (b - a) (length xs - a)"
  by (auto simp: slice_def)

lemma slice_0 [simp, seq_simps]: "slice 0 b xs = take b xs"
  by (simp add: slice_def)

lemma nth_slice [seq_simps]: "i < b - a \<Longrightarrow> a + i < length xs \<Longrightarrow> slice a b xs ! i = xs ! (a + i)"
  by (simp add: slice_def)

lemma slice_empty [simp, seq_simps]: "b \<le> a \<Longrightarrow> slice a b xs = []"
  by (simp add: slice_def)

lemma take_drop_slice: "a \<le> b \<Longrightarrow> xs = take a xs @ slice a b xs @ drop b xs"
proof -
  assume "a \<le> b"
  then have "drop b xs = drop (b - a) (drop a xs)" by simp
  then show ?thesis unfolding slice_def by (simp only: append_take_drop_id)
qed

lemma mset_take_slice_drop:
  "a \<le> b \<Longrightarrow> mset xs = mset (take a xs) + mset (slice a b xs) + mset (drop b xs)"
  by (metis take_drop_slice mset_append add.assoc)

lemma set_slice_subset: "set (slice a b xs) \<subseteq> set xs"
  unfolding slice_def by (meson set_drop_subset set_take_subset subset_trans)

lemma distinct_slice [simp]: "distinct xs \<Longrightarrow> distinct (slice a b xs)"
  by (simp add: slice_def)

lemma sum_list_update_nat [seq_simps]:
  "i < length xs \<Longrightarrow> sum_list (xs[i := v]) + xs ! i = sum_list xs + (v::nat)"
proof (induction xs arbitrary: i)
  case Nil
  then show ?case by simp
next
  case (Cons x xs)
  then show ?case by (cases i) auto
qed

lemma sum_list_ge_length: "\<forall>x\<in>set xs. (1::nat) \<le> x \<Longrightarrow> length xs \<le> sum_list xs"
  by (induction xs) (auto intro: add_mono)

lemma sum_list_mono_nth:
  "length xs = length ys \<Longrightarrow> (\<And>i. i < length xs \<Longrightarrow> xs ! i \<le> (ys ! i :: nat)) \<Longrightarrow>
   sum_list xs \<le> sum_list ys"
proof (induction xs ys rule: list_induct2)
  case Nil
  then show ?case by simp
next
  case (Cons x xs y ys)
  from Cons.prems have "x \<le> y" by fastforce
  moreover have "sum_list xs \<le> sum_list ys"
    using Cons.prems by (intro Cons.IH) fastforce
  ultimately show ?case by simp
qed

lemma sum_take_Suc:
  "i < length xs \<Longrightarrow> sum_list (take (Suc i) xs) = sum_list (take i xs) + (xs ! i :: nat)"
  by (simp add: take_Suc_conv_app_nth)

lemma sum_take_mono: "i \<le> j \<Longrightarrow> sum_list (take i xs) \<le> sum_list (take j (xs :: nat list))"
proof -
  assume "i \<le> j"
  then have "take j xs = take i xs @ take (j - i) (drop i xs)"
    by (metis add_diff_inverse_nat not_less take_add)
  then show ?thesis by simp
qed

lemma sum_take_le: "sum_list (take i xs) \<le> sum_list (xs :: nat list)"
  by (metis append_take_drop_id le_add1 sum_list_append)

text \<open>Consecutive blocks given by their sizes: every position below the total lies in
  exactly one block.\<close>

lemma block_exists:
  "p < sum_list (xs :: nat list) \<Longrightarrow>
   \<exists>i < length xs. sum_list (take i xs) \<le> p \<and> p < sum_list (take i xs) + xs ! i"
proof (induction xs arbitrary: p)
  case Nil
  then show ?case by simp
next
  case (Cons x xs)
  show ?case
  proof (cases "p < x")
    case True
    then show ?thesis by (intro exI [of _ 0]) simp
  next
    case False
    with Cons.prems have "p - x < sum_list xs" by simp
    from Cons.IH [OF this] obtain i where i: "i < length xs"
      and lo: "sum_list (take i xs) \<le> p - x" and hi: "p - x < sum_list (take i xs) + xs ! i"
      by blast
    show ?thesis by (rule exI [of _ "Suc i"]) (use False i lo hi in auto)
  qed
qed

lemma block_unique:
  assumes "i < length (xs :: nat list)" "j < length xs"
    and "sum_list (take i xs) \<le> p" "p < sum_list (take i xs) + xs ! i"
    and "sum_list (take j xs) \<le> p" "p < sum_list (take j xs) + xs ! j"
  shows "i = j"
proof (rule ccontr)
  assume "i \<noteq> j"
  then consider "i < j" | "j < i" by linarith
  then show False
  proof cases
    case 1
    then have "sum_list (take (Suc i) xs) \<le> sum_list (take j xs)"
      by (intro sum_take_mono) simp
    with assms show False by (simp add: sum_take_Suc)
  next
    case 2
    then have "sum_list (take (Suc j) xs) \<le> sum_list (take i xs)"
      by (intro sum_take_mono) simp
    with assms show False by (simp add: sum_take_Suc)
  qed
qed

lemma block_ex1:
  "p < sum_list (xs :: nat list) \<Longrightarrow>
   \<exists>!i. i < length xs \<and> sum_list (take i xs) \<le> p \<and> p < sum_list (take i xs) + xs ! i"
proof -
  assume "p < sum_list xs"
  from block_exists [OF this] show ?thesis
    by (elim exE) (rule ex1I, blast, use block_unique in blast)
qed

end
