(* ===== verification/Py_Float.thy ===== *)
theory Py_Float
  imports Complex_Main Prelude
begin

text \<open>
  Python floats, as far as the modelled code uses them: the true division of two integers,
  \<open>int(x)\<close>, \<open>round(x)\<close>, and comparisons. A float is the rational number it denotes.
  CPython computes \<open>a / b\<close> for integers as the correctly rounded quotient, so \<open>fl\<close> rounds an
  exact rational to the nearest number with a 53-bit significand, ties to even (IEEE 754
  binary64). Exponents are unbounded here: the quotients of the modelled code are dimension
  sizes, far from overflow and from the subnormal range.
\<close>

fun ilog2 :: "nat \<Rightarrow> nat" where
  "ilog2 n = (if n < 2 then 0 else Suc (ilog2 (n div 2)))"

declare ilog2.simps [simp del]

text \<open>Nearest integer, ties to even: \<open>round(x)\<close> of Python 3 on a float.\<close>

definition round_half_even :: "rat \<Rightarrow> int" where
  "round_half_even x =
     (let f = \<lfloor>x\<rfloor>; r = x - of_int f in
      if r < 1 / 2 then f else if 1 / 2 < r then f + 1 else if even f then f else f + 1)"

text \<open>\<open>bexp a b\<close>: the binary exponent \<open>E\<close> with \<open>2^E \<le> a/b < 2^(E+1)\<close>.\<close>

definition bexp :: "nat \<Rightarrow> nat \<Rightarrow> int" where
  "bexp a b =
     (if b * 2 ^ ilog2 a \<le> a * 2 ^ ilog2 b then int (ilog2 a) - int (ilog2 b)
      else int (ilog2 a) - int (ilog2 b) - 1)"

text \<open>True division of two non-negative integers, the second positive.\<close>

definition fl_div :: "nat \<Rightarrow> nat \<Rightarrow> rat" where
  "fl_div a b =
     (if a = 0 then 0
      else let u = 2 powi (bexp a b - 52)
           in of_int (round_half_even (of_nat a / of_nat b / u)) * u)"

text \<open>\<open>int(q)\<close> of a non-negative float.\<close>

definition fl_int :: "rat \<Rightarrow> nat" where
  "fl_int q = nat \<lfloor>q\<rfloor>"

section \<open>Rounding\<close>

lemma round_half_even_of_int [simp]: "round_half_even (of_int k) = k"
  by (simp add: round_half_even_def)

lemma round_half_even_error: "\<bar>of_int (round_half_even x) - x\<bar> \<le> 1 / 2"
proof -
  have "of_int \<lfloor>x\<rfloor> \<le> x" "x < of_int \<lfloor>x\<rfloor> + 1" by linarith+
  then show ?thesis
    by (simp add: round_half_even_def Let_def abs_le_iff; linarith)
qed

lemma round_half_even_ge: "of_int k \<le> x \<Longrightarrow> k \<le> round_half_even x"
proof -
  assume "of_int k \<le> x"
  then have "k \<le> \<lfloor>x\<rfloor>" by (simp add: le_floor_iff)
  then show ?thesis by (auto simp: round_half_even_def Let_def)
qed

lemma round_half_even_le: "x \<le> of_int k \<Longrightarrow> round_half_even x \<le> k"
proof -
  assume x: "x \<le> of_int k"
  show ?thesis
  proof (cases "x = of_int k")
    case False
    with x have "\<lfloor>x\<rfloor> < k" by (simp add: floor_less_iff)
    then show ?thesis by (auto simp: round_half_even_def Let_def)
  qed simp
qed

section \<open>The binary exponent\<close>

lemma ilog2_bounds: "0 < n \<Longrightarrow> 2 ^ ilog2 n \<le> n \<and> n < 2 ^ Suc (ilog2 n)"
proof (induction n rule: ilog2.induct)
  case (1 n)
  show ?case
  proof (cases "n < 2")
    case True
    with "1.prems" have "n = 1" by simp
    then show ?thesis by (simp add: ilog2.simps)
  next
    case False
    with "1.IH" have "2 ^ ilog2 (n div 2) \<le> n div 2 \<and> n div 2 < 2 ^ Suc (ilog2 (n div 2))"
      by simp
    moreover have "ilog2 n = Suc (ilog2 (n div 2))"
      using False by (subst ilog2.simps) simp
    ultimately show ?thesis by auto
  qed
qed

lemma bexp_bounds:
  assumes "0 < a" "0 < b"
  shows "(2::rat) powi (bexp a b) \<le> of_nat a / of_nat b"
    and "of_nat a / of_nat b < (2::rat) powi (bexp a b + 1)"
proof -
  let ?la = "ilog2 a" and ?lb = "ilog2 b"
  have a: "(2::rat) ^ ?la \<le> of_nat a" "of_nat a < (2::rat) ^ Suc ?la"
    using ilog2_bounds [OF assms(1)]
    by (metis (mono_tags) of_nat_le_iff of_nat_less_iff of_nat_numeral of_nat_power)+
  have b: "(2::rat) ^ ?lb \<le> of_nat b" "of_nat b < (2::rat) ^ Suc ?lb"
    using ilog2_bounds [OF assms(2)]
    by (metis (mono_tags) of_nat_le_iff of_nat_less_iff of_nat_numeral of_nat_power)+
  have p: "(2::rat) powi (int ?la - int ?lb) = 2 ^ ?la / 2 ^ ?lb"
    by (simp add: power_int_diff)
  have cmp: "b * 2 ^ ?la \<le> a * 2 ^ ?lb \<longleftrightarrow> of_nat b * (2::rat) ^ ?la \<le> of_nat a * 2 ^ ?lb"
    by (metis (mono_tags) of_nat_le_iff of_nat_mult of_nat_numeral of_nat_power)
  have bpos: "(0::rat) < of_nat b" using assms by simp
  show "(2::rat) powi (bexp a b) \<le> of_nat a / of_nat b"
  proof (cases "b * 2 ^ ?la \<le> a * 2 ^ ?lb")
    case True
    with cmp show ?thesis using bpos by (simp add: bexp_def p field_simps)
  next
    case False
    have "of_nat b * (2::rat) ^ ?la \<le> 2 ^ Suc ?lb * of_nat a"
      using a b bpos by (intro mult_mono) auto
    with False show ?thesis using bpos
      by (simp add: bexp_def power_int_diff power_int_add p field_simps)
  qed
  show "of_nat a / of_nat b < (2::rat) powi (bexp a b + 1)"
  proof (cases "b * 2 ^ ?la \<le> a * 2 ^ ?lb")
    case True
    have "of_nat a * (2::rat) ^ ?lb < 2 ^ Suc ?la * of_nat b"
      using a b bpos by (intro mult_less_le_imp_less) auto
    with True show ?thesis using bpos
      by (simp add: bexp_def power_int_add power_int_diff field_simps)
  next
    case False
    with cmp show ?thesis using bpos
      by (simp add: bexp_def p field_simps not_le)
  qed
qed

section \<open>Accuracy of the quotient\<close>

lemma powi_less_53: "(2::rat) powi e < 2 ^ 53 \<Longrightarrow> e < 53"
proof (rule ccontr)
  assume "(2::rat) powi e < 2 ^ 53" and "\<not> e < 53"
  moreover from this have "(2::rat) powi 53 \<le> 2 powi e" by (intro power_int_increasing) auto
  ultimately show False by simp
qed

lemma powi_cancel: "e \<le> 0 \<Longrightarrow> (2::rat) powi e * 2 ^ nat (- e) = 1"
  by (auto simp: power_int_def field_simps)

lemma fl_div_nonneg: "0 \<le> fl_div a b"
proof (cases "a = 0")
  case False
  have "0 \<le> round_half_even (of_nat a / of_nat b / 2 powi (bexp a b - 52))"
    by (intro round_half_even_ge) simp
  then show ?thesis by (simp add: fl_div_def Let_def)
qed (simp add: fl_div_def)

lemma fl_div_error:
  assumes "0 < b"
  shows "\<bar>fl_div a b - of_nat a / of_nat b\<bar> \<le> of_nat a / of_nat b / 2 ^ 53"
proof (cases "a = 0")
  case True
  then show ?thesis by (simp add: fl_div_def)
next
  case False
  define u :: rat where "u = 2 powi (bexp a b - 52)"
  define x :: rat where "x = of_nat a / of_nat b"
  have u: "0 < u" by (simp add: u_def)
  have "fl_div a b - x = (of_int (round_half_even (x / u)) - x / u) * u"
    using False u by (simp add: fl_div_def u_def x_def Let_def field_simps)
  then have "\<bar>fl_div a b - x\<bar> = \<bar>of_int (round_half_even (x / u)) - x / u\<bar> * u"
    using u by (simp add: abs_mult)
  also have "\<dots> \<le> 1 / 2 * u"
    using u by (intro mult_right_mono round_half_even_error) simp
  also have "\<dots> = 2 powi (bexp a b) / 2 ^ 53"
    by (simp add: u_def power_int_diff)
  also have "\<dots> \<le> x / 2 ^ 53"
    unfolding x_def using bexp_bounds(1) [of a b] False assms
    by (intro divide_right_mono) auto
  finally show ?thesis by (simp add: x_def)
qed

text \<open>The rounded quotient never falls below an integer that the exact one reaches, as long
  as integers of that size are representable.\<close>

lemma fl_div_ge_int:
  assumes "0 < b" and "k * b \<le> a" and "a < 2 ^ 53 * b"
  shows "of_nat k \<le> fl_div a b"
proof (cases "a = 0")
  case True
  with assms show ?thesis by (simp add: fl_div_def)
next
  case False
  define e where "e = bexp a b - 52"
  have "(2::rat) powi (bexp a b) \<le> of_nat a / of_nat b"
    using bexp_bounds(1) False assms(1) by simp
  also have "\<dots> < 2 ^ 53"
    using assms(1,3) of_nat_less_iff [of a "2 ^ 53 * b", where 'a = rat]
    by (simp add: divide_less_eq del: of_nat_less_iff)
  finally have "bexp a b < 53" by (rule powi_less_53)
  then have e: "e \<le> 0" by (simp add: e_def)
  then have up: "(2::rat) powi e * 2 ^ nat (- e) = 1"
    by (rule powi_cancel)
  have "of_int (int (k * 2 ^ nat (- e))) \<le> of_nat a / of_nat b / (2::rat) powi e"
  proof -
    have "of_nat k \<le> (of_nat a / of_nat b :: rat)"
      using assms(1,2) by (simp add: le_divide_eq) (metis of_nat_le_iff of_nat_mult)
    then have "of_nat k * 2 ^ nat (- e) \<le> of_nat a / of_nat b * (2::rat) ^ nat (- e)"
      by (intro mult_right_mono) auto
    moreover have "(2::rat) ^ nat (- e) = 1 / 2 powi e"
      using up by (simp add: eq_divide_eq mult.commute)
    ultimately show ?thesis by simp
  qed
  then have "int (k * 2 ^ nat (- e)) \<le> round_half_even (of_nat a / of_nat b / 2 powi e)"
    by (rule round_half_even_ge)
  then have "(of_int (int (k * 2 ^ nat (- e))) :: rat) * 2 powi e
      \<le> of_int (round_half_even (of_nat a / of_nat b / 2 powi e)) * 2 powi e"
    by (intro mult_right_mono) (simp_all only: of_int_le_iff zero_le_power_int zero_le_numeral)
  also have "\<dots> = fl_div a b"
    using False by (simp add: fl_div_def e_def Let_def)
  finally show ?thesis
    using up by (simp add: mult.assoc mult.commute [of "2 powi e"])
qed

text \<open>For operands whose sum stays below \<open>2^53\<close>, truncating the rounded quotient is exact
  integer division: rounding never carries the quotient up to the next integer.\<close>

lemma fl_int_div:
  assumes "0 < b" and "a + b < 2 ^ 53"
  shows "fl_int (fl_div a b) = a div b"
proof -
  have lo: "of_nat (a div b) \<le> fl_div a b"
  proof (rule fl_div_ge_int)
    show "a div b * b \<le> a" by simp
    show "a < 2 ^ 53 * b" using assms by (cases b) auto
  qed (rule assms)
  have hi: "fl_div a b < of_nat (Suc (a div b))"
  proof -
    have n: "a + 1 \<le> Suc (a div b) * b"
      using assms(1) by (metis Suc_eq_plus1 Suc_leI dividend_less_div_times mult.commute mult_Suc add.commute)
    have "fl_div a b \<le> of_nat a / of_nat b + of_nat a / of_nat b / 2 ^ 53"
      using fl_div_error [OF assms(1), of a] by (simp add: abs_le_iff)
    also have "\<dots> < of_nat a / of_nat b + 1 / of_nat b"
    proof -
      have "(of_nat a :: rat) < 2 ^ 53"
        using assms(2) by (metis (mono_tags) add_lessD1 of_nat_less_iff of_nat_numeral of_nat_power)
      then show ?thesis using assms(1) by (simp add: field_simps)
    qed
    also have "\<dots> = of_nat (a + 1) / of_nat b" by (simp add: add_divide_distrib)
    also have "\<dots> \<le> of_nat (Suc (a div b) * b) / of_nat b"
      using n by (intro divide_right_mono) (simp_all only: of_nat_le_iff of_nat_0_le_iff)
    also have "\<dots> = of_nat (Suc (a div b))" using assms(1) by (simp add: field_simps)
    finally show ?thesis .
  qed
  have "\<lfloor>fl_div a b\<rfloor> = int (a div b)"
    using lo hi by (intro floor_unique) auto
  then show ?thesis by (simp add: fl_int_def)
qed

lemma fl_div_exact:
  assumes "0 < b" and "k < 2 ^ 53"
  shows "fl_div (k * b) b = of_nat k"
proof (cases "k = 0")
  case True
  then show ?thesis by (simp add: fl_div_def)
next
  case False
  define e where "e = bexp (k * b) b - 52"
  have x: "of_nat (k * b) / of_nat b = (of_nat k :: rat)" using assms(1) by simp
  have "(2::rat) powi (bexp (k * b) b) \<le> of_nat k"
    using bexp_bounds(1) [of "k * b" b] False assms(1) x by simp
  also have "\<dots> < 2 ^ 53"
    using assms(2) by (metis (mono_tags) of_nat_less_iff of_nat_numeral of_nat_power)
  finally have "bexp (k * b) b < 53" by (rule powi_less_53)
  then have e: "e \<le> 0" by (simp add: e_def)
  then have up: "(2::rat) powi e * 2 ^ nat (- e) = 1"
    by (rule powi_cancel)
  then have "of_nat k / (2::rat) powi e = of_int (int (k * 2 ^ nat (- e)))"
    by (simp add: field_simps)
  then have "round_half_even (of_nat k / 2 powi e) = int (k * 2 ^ nat (- e))"
    by (simp only: round_half_even_of_int)
  then have "fl_div (k * b) b = of_int (int (k * 2 ^ nat (- e))) * 2 powi e"
    using False assms(1) x by (simp add: fl_div_def e_def Let_def)
  also have "\<dots> = of_nat k" using up by (simp add: mult.assoc mult.commute [of "2 powi e"])
  finally show ?thesis .
qed

end
