(* ===== verification/Partition.thy ===== *)
theory Partition
  imports Py_Float "HOL-Library.List_Lexorder" "HOL-Library.Product_Lexorder"
begin

text \<open>
  Uneven tensor-parallel partitioning, \<open>python/sglang/srt/distributed/utils.py\<close>: how one
  sharded dimension is split over ranks whose GPUs differ.

  Definitions, in the order of the file: the exact even split (\<open>divide\<close>), the process-wide
  shard plan with its per-family vectors and the context-local overlay, the largest-remainder
  split of indivisible units (\<open>partition_units_raw\<close>), its repair at kv-head boundaries
  (\<open>balanced_group_lengths\<close>, \<open>partition_units_kv_aligned\<close>), the sizes and offsets of a
  dimension under the plan, and the attention geometry derived from it.

  Weights, units and sizes are natural numbers: the command line refuses negative ones.
  Quotas are Python floats (theory \<open>Py_Float\<close>), because the order in which the remaining
  units are handed out depends on their rounding.

  Lemmas: every split is total, sums to the dimension and gives each rank at least one unit;
  the quota rule; the aligned split never lets a rank straddle a kv-head boundary; offsets
  and sizes tile the dimension.
\<close>

section \<open>Even split\<close>

definition ensure_divisibility :: "nat \<Rightarrow> nat \<Rightarrow> unit res" where
  "ensure_divisibility numerator denominator =
     (if denominator = 0 then Inl ZeroDivisionError
      else guard_err (numerator mod denominator = 0) AssertionError)"

definition divide_exact :: "nat \<Rightarrow> nat \<Rightarrow> nat res" where
  "divide_exact numerator denominator =
     rbind (ensure_divisibility numerator denominator) (\<lambda>_. Inr (numerator div denominator))"

section \<open>The installed shard plan\<close>

text \<open>\<open>base_ratios\<close> and \<open>families\<close> are the two process globals; \<open>overlay\<close> is the context
  variable, \<open>None\<close> standing for the sentinel \<open>_NO_OVERLAY\<close>.\<close>

type_synonym plan = "nat list option \<times> (string \<times> nat list) list"

record tp_state =
  base_ratios :: "nat list option"
  families :: "(string \<times> nat list) list"
  overlay :: "plan option"

fun normalize_families ::
  "nat list option \<Rightarrow> (string \<times> nat list) list \<Rightarrow> (string \<times> nat list) list res" where
  "normalize_families base [] = Inr []"
| "normalize_families base ((name, vec) # rest) =
     (if vec = [] then normalize_families base rest
      else case base of
        None \<Rightarrow> Inl ValueError
      | Some b \<Rightarrow>
          if length vec \<noteq> length b then Inl ValueError
          else if \<exists>w\<in>set vec. w = 0 then Inl ValueError
          else rbind (normalize_families base rest) (\<lambda>fams. Inr ((name, vec) # fams)))"

definition normalize_partition_plan ::
  "nat list option \<Rightarrow> (string \<times> nat list) list \<Rightarrow> plan res" where
  "normalize_partition_plan ratios fams =
     (let base = (case ratios of None \<Rightarrow> None | Some [] \<Rightarrow> None | Some b \<Rightarrow> Some b)
      in rbind (normalize_families base fams) (\<lambda>fs. Inr (base, fs)))"

definition set_tp_partition_ratios ::
  "nat list option \<Rightarrow> (string \<times> nat list) list \<Rightarrow> tp_state \<Rightarrow> tp_state res" where
  "set_tp_partition_ratios ratios fams s =
     rbind (normalize_partition_plan ratios fams)
       (\<lambda>(base, fs). Inr (s\<lparr>base_ratios := base, families := fs\<rparr>))"

definition get_tp_partition_ratios :: "tp_state \<Rightarrow> string option \<Rightarrow> nat list option" where
  "get_tp_partition_ratios s family =
     (let (base, fams) = (case overlay s of Some p \<Rightarrow> p | None \<Rightarrow> (base_ratios s, families s))
      in case family of
           None \<Rightarrow> base
         | Some f \<Rightarrow> (case map_of fams f of Some vec \<Rightarrow> Some vec | None \<Rightarrow> base))"

text \<open>The context manager: install the overlay, run the block, restore what was there. The
  block is a state transformer that may raise; the \<open>finally\<close> clause restores in both cases.\<close>

definition scoped_tp_partition_ratios ::
  "nat list option \<Rightarrow> (string \<times> nat list) list \<Rightarrow> (tp_state \<Rightarrow> 'a res \<times> tp_state) \<Rightarrow>
   tp_state \<Rightarrow> 'a res \<times> tp_state" where
  "scoped_tp_partition_ratios ratios fams block s =
     (case normalize_partition_plan ratios fams of
        Inl e \<Rightarrow> (Inl e, s)
      | Inr p \<Rightarrow> (let (r, s') = block (s\<lparr>overlay := Some p\<rparr>) in (r, s'\<lparr>overlay := overlay s\<rparr>)))"

section \<open>Largest-remainder split\<close>

text \<open>First index of the largest entry: \<open>max(range(n), key=lambda r: (sizes[r], -r))\<close>.\<close>

fun argmax :: "nat list \<Rightarrow> nat" where
  "argmax [] = 0"
| "argmax [x] = 0"
| "argmax (x # xs) = (let j = argmax xs in if xs ! j \<le> x then 0 else Suc j)"

fun take_back :: "nat \<Rightarrow> nat list \<Rightarrow> nat list" where
  "take_back 0 sizes = sizes"
| "take_back (Suc k) sizes = take_back k (let i = argmax sizes in sizes[i := sizes ! i - 1])"

definition remainder_order :: "rat list \<Rightarrow> nat list" where
  "remainder_order quotas =
     sort_key (\<lambda>r. - (quotas ! r - of_nat (fl_int (quotas ! r)))) [0..<length quotas]"

definition hand_out :: "nat list \<Rightarrow> nat \<Rightarrow> nat list \<Rightarrow> nat list" where
  "hand_out order remaining sizes =
     foldl (\<lambda>s k. let i = order ! (k mod length order) in s[i := s ! i + 1])
       sizes [0..<remaining]"

text \<open>The three phases of the body: the quotas, the sizes reserved before the rest is handed
  out (never below one unit, and taken back from the largest shares when that overshoots), and
  the final sizes.\<close>

definition raw_quotas :: "nat \<Rightarrow> nat list \<Rightarrow> rat list" where
  "raw_quotas units weights = map (\<lambda>w. fl_div (units * w) (sum_list weights)) weights"

definition raw_floor_sizes :: "nat \<Rightarrow> nat list \<Rightarrow> nat list" where
  "raw_floor_sizes units weights = map (\<lambda>q. max (fl_int q) 1) (raw_quotas units weights)"

definition raw_sizes :: "nat \<Rightarrow> nat list \<Rightarrow> nat list" where
  "raw_sizes units weights =
     (let sizes = raw_floor_sizes units weights;
          reserved = (if units < sum_list sizes
                      then take_back (sum_list sizes - units) sizes else sizes)
      in hand_out (remainder_order (raw_quotas units weights)) (units - sum_list sizes) reserved)"

definition partition_units_raw :: "nat \<Rightarrow> nat list \<Rightarrow> nat list res" where
  "partition_units_raw units weights =
     (let n = length weights in
      if units < n then Inl ValueError
      else if n \<noteq> 0 \<and> sum_list weights = 0 then Inl ZeroDivisionError
      else if n = 0 \<and> 0 < units then Inl ZeroDivisionError
      else
        let sizes = raw_sizes units weights
        in rbind (guard_err (sum_list sizes = units \<and> (\<forall>s\<in>set sizes. 1 \<le> s)) AssertionError)
             (\<lambda>_. Inr sizes))"

section \<open>Split aligned to kv-head groups\<close>

text \<open>The recursion \<open>rec(start, g_left, lengths)\<close>: all length vectors it completes, in the
  order it visits them.\<close>

fun group_lengths_rec :: "nat \<Rightarrow> nat \<Rightarrow> nat \<Rightarrow> nat \<Rightarrow> nat list \<Rightarrow> nat list list" where
  "group_lengths_rec n max_len start 0 lengths = (if n - start = 0 then [lengths] else [])"
| "group_lengths_rec n max_len start (Suc g) lengths =
     (let remaining = n - start; hi = min max_len (remaining - g) in
      concat (map (\<lambda>L. if g * max_len < remaining - L then []
                       else group_lengths_rec n max_len (start + L) g (lengths @ [L]))
                  [1..<hi + 1]))"

fun segment_sums :: "nat list \<Rightarrow> nat list \<Rightarrow> nat list" where
  "segment_sums weights [] = []"
| "segment_sums weights (L # Ls) = sum_list (take L weights) # segment_sums (drop L weights) Ls"

definition group_key :: "nat list \<Rightarrow> nat list \<Rightarrow> nat \<times> nat list \<times> nat list" where
  "group_key weights lengths =
     (let sms = segment_sums weights lengths
      in (fold max sms 0, rev (sort sms), lengths))"

text \<open>The first candidate with the smallest key.\<close>

fun best_lengths :: "nat list \<Rightarrow> nat list list \<Rightarrow> nat list option" where
  "best_lengths weights [] = None"
| "best_lengths weights (c # cs) =
     (case best_lengths weights cs of
        None \<Rightarrow> Some c
      | Some d \<Rightarrow> if group_key weights d < group_key weights c then Some d else Some c)"

definition balanced_group_lengths :: "nat list \<Rightarrow> nat \<Rightarrow> nat \<Rightarrow> nat list res" where
  "balanced_group_lengths weights groups max_len =
     (case best_lengths weights (group_lengths_rec (length weights) max_len 0 groups []) of
        None \<Rightarrow> Inl ValueError
      | Some ls \<Rightarrow> if ls = [] then Inl ValueError else Inr ls)"

fun prefix_sums_from :: "nat \<Rightarrow> nat list \<Rightarrow> nat list" where
  "prefix_sums_from c [] = []"
| "prefix_sums_from c (s # ss) = (c + s) # prefix_sums_from (c + s) ss"

fun partition_segments :: "nat \<Rightarrow> nat list \<Rightarrow> nat list \<Rightarrow> nat list res" where
  "partition_segments per weights [] = Inr []"
| "partition_segments per weights (L # Ls) =
     rbind (partition_units_raw per (take L weights))
       (\<lambda>out. rbind (partition_segments per (drop L weights) Ls) (\<lambda>rest. Inr (out @ rest)))"

definition partition_units_kv_aligned :: "nat \<Rightarrow> nat list \<Rightarrow> nat \<Rightarrow> nat list res" where
  "partition_units_kv_aligned units weights groups =
     rbind (partition_units_raw units weights) (\<lambda>sizes.
       let n = length weights in
       if groups < 2 \<or> n \<le> groups \<or> units mod groups \<noteq> 0 then Inr sizes
       else
         let per = units div groups;
             boundaries = map (\<lambda>k. per * k) [1..<groups];
             seen = prefix_sums_from 0 (butlast sizes)
         in if \<forall>b\<in>set boundaries. b \<in> set seen then Inr sizes
            else
              rbind (balanced_group_lengths weights groups per) (\<lambda>lengths.
              rbind (partition_segments per weights lengths) (\<lambda>out.
              rbind (guard_err (sum_list out = units \<and> (\<forall>s\<in>set out. 1 \<le> s)) AssertionError)
                (\<lambda>_. Inr out))))"

definition partition_units :: "nat \<Rightarrow> nat list \<Rightarrow> nat option \<Rightarrow> nat list res" where
  "partition_units units weights groups =
     (case groups of
        None \<Rightarrow> partition_units_raw units weights
      | Some g \<Rightarrow> if g = 0 then partition_units_raw units weights
                 else partition_units_kv_aligned units weights g)"

section \<open>Sizes and offsets of a dimension\<close>

definition partition_sizes :: "nat \<Rightarrow> nat list \<Rightarrow> nat option \<Rightarrow> nat option \<Rightarrow> nat list res" where
  "partition_sizes full weights units groups =
     (case units of
        Some u \<Rightarrow>
          if u = 0 then Inl ZeroDivisionError
          else if full mod u \<noteq> 0 then Inl ValueError
          else rbind (partition_units u weights groups)
                 (\<lambda>ss. Inr (map (\<lambda>s. s * (full div u)) ss))
      | None \<Rightarrow>
          if groups \<noteq> None \<and> groups \<noteq> Some 0 then Inl ValueError
          else
            let denom = sum_list weights in
            if denom = 0 then Inl ZeroDivisionError
            else if full mod denom \<noteq> 0 then Inl ValueError
            else Inr (map (\<lambda>w. full div denom * w) weights))"

definition nth_res :: "'a list \<Rightarrow> nat \<Rightarrow> 'a res" where
  "nth_res xs i = (if i < length xs then Inr (xs ! i) else Inl IndexError)"

definition partition_offsets :: "nat \<Rightarrow> nat list \<Rightarrow> nat \<Rightarrow> nat option \<Rightarrow> (nat \<times> nat) res" where
  "partition_offsets full weights rank units =
     rbind (partition_sizes full weights units None) (\<lambda>sizes.
     rbind (nth_res sizes rank) (\<lambda>s. Inr (sum_list (take rank sizes), s)))"

definition tp_partition_sizes ::
  "tp_state \<Rightarrow> nat \<Rightarrow> nat \<Rightarrow> nat option \<Rightarrow> string option \<Rightarrow> nat option \<Rightarrow> nat list res" where
  "tp_partition_sizes s full tp_size units family groups =
     (let even_split = rbind (ensure_divisibility full tp_size)
                         (\<lambda>_. Inr (replicate tp_size (full div tp_size)))
      in case get_tp_partition_ratios s family of
           None \<Rightarrow> even_split
         | Some ratios \<Rightarrow>
             if ratios = [] \<or> length ratios \<noteq> tp_size then even_split
             else partition_sizes full ratios units groups)"

definition tp_partition_size ::
  "tp_state \<Rightarrow> nat \<Rightarrow> nat \<Rightarrow> nat \<Rightarrow> nat option \<Rightarrow> string option \<Rightarrow> nat option \<Rightarrow> nat res" where
  "tp_partition_size s full tp_size rank units family groups =
     rbind (tp_partition_sizes s full tp_size units family groups) (\<lambda>sizes. nth_res sizes rank)"

definition tp_partition_offset ::
  "tp_state \<Rightarrow> nat \<Rightarrow> nat \<Rightarrow> nat \<Rightarrow> nat option \<Rightarrow> string option \<Rightarrow> nat option \<Rightarrow> nat res" where
  "tp_partition_offset s full tp_size rank units family groups =
     rbind (tp_partition_sizes s full tp_size units family groups)
       (\<lambda>sizes. Inr (sum_list (take rank sizes)))"

definition tp_vocab_ratios :: "tp_state \<Rightarrow> nat \<Rightarrow> nat list option" where
  "tp_vocab_ratios s tp_size =
     (case map_of (families s) ''vocab'' of
        None \<Rightarrow> None
      | Some vec \<Rightarrow>
          if vec = [] \<or> length vec \<noteq> tp_size \<or> card (set vec) = 1 then None else Some vec)"

definition tp_plan_active :: "tp_state \<Rightarrow> nat \<Rightarrow> string option \<Rightarrow> bool" where
  "tp_plan_active s tp_size family =
     (case get_tp_partition_ratios s family of
        None \<Rightarrow> False
      | Some ratios \<Rightarrow> ratios \<noteq> [] \<and> length ratios = tp_size)"

definition ACTIVATION_VEC_ELEMS :: nat where
  "ACTIVATION_VEC_ELEMS = 16"

definition block_aligned_units :: "nat \<Rightarrow> nat option \<Rightarrow> nat option \<Rightarrow> nat option res" where
  "block_aligned_units full units block =
     (case (units, block) of
        (Some u, Some b) \<Rightarrow>
          if b = 0 then Inr units
          else if full mod b \<noteq> 0 then Inr units
          else if u = 0 then Inl ZeroDivisionError
          else
            let unit_elems = full div u in
            if unit_elems mod b = 0 then Inr units
            else
              let l = lcm unit_elems b in
              if full mod l \<noteq> 0 then Inl ValueError else Inr (Some (full div l))
      | _ \<Rightarrow> Inr units)"

definition assert_activation_aligned_shards ::
  "tp_state \<Rightarrow> nat \<Rightarrow> nat \<Rightarrow> nat option \<Rightarrow> string option \<Rightarrow> unit res" where
  "assert_activation_aligned_shards s full tp_size units family =
     (if \<not> tp_plan_active s tp_size family then Inr ()
      else rbind (tp_partition_sizes s full tp_size units family None) (\<lambda>sizes.
        guard_err (\<forall>x\<in>set sizes. x mod ACTIVATION_VEC_ELEMS = 0) ValueError))"

section \<open>Attention geometry\<close>

definition attn_kv_replicated :: "tp_state \<Rightarrow> nat \<Rightarrow> nat \<Rightarrow> bool" where
  "attn_kv_replicated s tp_size total_num_kv_heads =
     (tp_plan_active s tp_size None \<and> total_num_kv_heads < tp_size)"

definition attn_q_partition_units :: "tp_state \<Rightarrow> nat \<Rightarrow> nat \<Rightarrow> nat \<Rightarrow> nat res" where
  "attn_q_partition_units s total_num_q_heads total_num_kv_heads tp_size =
     (if \<not> attn_kv_replicated s tp_size total_num_kv_heads then Inr total_num_kv_heads
      else if total_num_kv_heads = 0 then Inl ZeroDivisionError
      else if total_num_q_heads mod total_num_kv_heads \<noteq> 0 then Inl ValueError
      else
        let units = total_num_q_heads div total_num_kv_heads in
        if units < tp_size then Inl ValueError else Inr units)"

definition attn_q_partition_groups :: "tp_state \<Rightarrow> nat \<Rightarrow> nat \<Rightarrow> nat option" where
  "attn_q_partition_groups s total_num_kv_heads tp_size =
     (if \<not> attn_kv_replicated s tp_size total_num_kv_heads then None
      else Some total_num_kv_heads)"

definition tp_loaded_shard_start ::
  "tp_state \<Rightarrow> nat \<Rightarrow> nat option \<Rightarrow> nat \<Rightarrow> nat \<Rightarrow> nat option \<Rightarrow> string option \<Rightarrow> nat option \<Rightarrow>
   nat res" where
  "tp_loaded_shard_start s loaded_full tp_size rank shard_size units family groups =
     (case get_tp_partition_ratios s family of
        None \<Rightarrow> Inr (rank * shard_size)
      | Some ratios \<Rightarrow>
          if ratios = [] \<or> (tp_size \<noteq> None \<and> Some (length ratios) \<noteq> tp_size)
          then Inr (rank * shard_size)
          else if shard_size = loaded_full then Inr 0
          else rbind (partition_sizes loaded_full ratios units groups) (\<lambda>sizes.
               rbind (nth_res sizes rank) (\<lambda>x.
               if x \<noteq> shard_size then Inl ValueError
               else Inr (sum_list (take rank sizes)))))"


section \<open>Correctness of the largest-remainder split\<close>

lemma argmax_less: "xs \<noteq> [] \<Longrightarrow> argmax xs < length xs"
  by (induction xs rule: argmax.induct) (auto simp: Let_def)

lemma argmax_max: "x \<in> set xs \<Longrightarrow> x \<le> xs ! argmax xs"
  by (induction xs rule: argmax.induct) (auto simp: Let_def)

lemma take_back_step:
  assumes "k < sum_list xs - length xs" and "\<forall>x\<in>set xs. 1 \<le> x"
  defines "ys \<equiv> xs[argmax xs := xs ! argmax xs - 1]"
  shows "Suc (sum_list ys) = sum_list xs \<and> length ys = length xs \<and> (\<forall>y\<in>set ys. 1 \<le> y)"
proof -
  have ne: "xs \<noteq> []" using assms(1) by auto
  have i: "argmax xs < length xs" using argmax_less [OF ne] .
  have two: "2 \<le> xs ! argmax xs"
  proof (rule ccontr)
    assume "\<not> 2 \<le> xs ! argmax xs"
    then have "\<forall>x\<in>set xs. x \<le> 1" using argmax_max [of _ xs] by fastforce
    then have "sum_list xs \<le> length xs" by (induction xs) auto
    then show False using assms(1) by simp
  qed
  have "sum_list ys + xs ! argmax xs = sum_list xs + (xs ! argmax xs - 1)"
    unfolding ys_def by (rule sum_list_update_nat [OF i])
  moreover have "\<forall>y\<in>set ys. 1 \<le> y"
    using assms(2) two set_update_subset_insert [of xs "argmax xs"] unfolding ys_def by fastforce
  ultimately show ?thesis using two by (simp add: ys_def)
qed

lemma take_back_correct:
  "k \<le> sum_list xs - length xs \<Longrightarrow> \<forall>x\<in>set xs. 1 \<le> x \<Longrightarrow>
   sum_list (take_back k xs) = sum_list xs - k \<and> length (take_back k xs) = length xs \<and>
   (\<forall>y\<in>set (take_back k xs). 1 \<le> y)"
proof (induction k arbitrary: xs)
  case 0
  then show ?case by simp
next
  case (Suc k)
  then have "k < sum_list xs - length xs" by simp
  note step = take_back_step [OF this Suc.prems(2)]
  define ys where "ys = xs[argmax xs := xs ! argmax xs - 1]"
  have "k \<le> sum_list ys - length ys" "\<forall>y\<in>set ys. 1 \<le> y"
    using step Suc.prems(1) unfolding ys_def [symmetric] by linarith+
  from Suc.IH [OF this] have "sum_list (take_back k ys) = sum_list xs - Suc k \<and>
      length (take_back k ys) = length xs \<and> (\<forall>y\<in>set (take_back k ys). 1 \<le> y)"
    using step unfolding ys_def [symmetric] by auto
  moreover have "take_back (Suc k) xs = take_back k ys" by (simp add: ys_def Let_def)
  ultimately show ?case by simp
qed

lemma remainder_order_set: "set (remainder_order quotas) = {0..<length quotas}"
  and remainder_order_length [simp]: "length (remainder_order quotas) = length quotas"
  by (simp_all add: remainder_order_def)

lemma hand_out_Suc:
  "hand_out order (Suc k) sizes =
   (let s = hand_out order k sizes; i = order ! (k mod length order) in s[i := s ! i + 1])"
  by (simp add: hand_out_def Let_def)

lemma hand_out_0 [simp]: "hand_out order 0 sizes = sizes"
  by (simp add: hand_out_def)

lemma hand_out_length [simp]: "length (hand_out order k sizes) = length sizes"
  by (induction k) (simp_all add: hand_out_Suc Let_def)

lemma hand_out_sum:
  "order \<noteq> [] \<Longrightarrow> set order \<subseteq> {0..<length sizes} \<Longrightarrow>
   sum_list (hand_out order k sizes) = sum_list sizes + k"
proof (induction k)
  case 0
  then show ?case by simp
next
  case (Suc k)
  let ?s = "hand_out order k sizes" and ?i = "order ! (k mod length order)"
  have "?i \<in> set order" using Suc.prems(1) by simp
  then have "?i < length ?s" using Suc.prems(2) by auto
  from sum_list_update_nat [OF this, of "?s ! ?i + 1"] show ?case
    using Suc by (simp add: hand_out_Suc Let_def)
qed

lemma hand_out_mono: "i < length sizes \<Longrightarrow> sizes ! i \<le> hand_out order k sizes ! i"
proof (induction k)
  case 0
  then show ?case by simp
next
  case (Suc k)
  then show ?case
    by (cases "i = order ! (k mod length order)") (simp_all add: hand_out_Suc Let_def)
qed

lemma hand_out_pos:
  "\<forall>x\<in>set sizes. 1 \<le> x \<Longrightarrow> \<forall>x\<in>set (hand_out order k sizes). 1 \<le> x"
  by (metis hand_out_length hand_out_mono in_set_conv_nth le_trans)

lemma raw_sizes_correct:
  assumes "weights \<noteq> []" and "length weights \<le> units"
  shows "length (raw_sizes units weights) = length weights"
    and "sum_list (raw_sizes units weights) = units"
    and "\<forall>x\<in>set (raw_sizes units weights). 1 \<le> x"
proof -
  define quotas where "quotas = raw_quotas units weights"
  define sizes where "sizes = raw_floor_sizes units weights"
  define sizes' where
    "sizes' = (if units < sum_list sizes then take_back (sum_list sizes - units) sizes else sizes)"
  have out: "raw_sizes units weights =
      hand_out (remainder_order quotas) (units - sum_list sizes) sizes'"
    by (simp add: raw_sizes_def sizes_def sizes'_def quotas_def Let_def)
  have len: "length quotas = length weights" "length sizes = length weights"
    by (simp_all add: quotas_def sizes_def raw_quotas_def raw_floor_sizes_def)
  have pos: "\<forall>x\<in>set sizes. 1 \<le> x" by (auto simp: sizes_def raw_floor_sizes_def)
  have "sum_list sizes - units \<le> sum_list sizes - length sizes"
    using assms(2) len by simp
  note tb = take_back_correct [OF this pos]
  have s': "length sizes' = length weights" "\<forall>x\<in>set sizes'. 1 \<le> x"
    "sum_list sizes' = min units (sum_list sizes)"
    using tb pos len by (auto simp: sizes'_def min_def)
  have ord: "remainder_order quotas \<noteq> []"
    using assms(1) len by (metis length_0_conv remainder_order_length)
  have "set (remainder_order quotas) \<subseteq> {0..<length sizes'}"
    using len s' by (simp add: remainder_order_set)
  then show "sum_list (raw_sizes units weights) = units"
    using s' by (simp add: out hand_out_sum [OF ord])
  show "\<forall>x\<in>set (raw_sizes units weights). 1 \<le> x"
    unfolding out by (rule hand_out_pos [OF s'(2)])
  show "length (raw_sizes units weights) = length weights" by (simp add: out s')
qed

text \<open>The split is total on its documented domain: with at least one unit per rank and a
  positive total weight, the final assertion of the source never fires.\<close>

lemma partition_units_raw_total:
  assumes "weights \<noteq> []" and "length weights \<le> units" and "0 < sum_list weights"
  shows "partition_units_raw units weights = Inr (raw_sizes units weights)"
  using assms raw_sizes_correct [OF assms(1,2)]
  by (simp add: partition_units_raw_def Let_def guard_err_def del: sum_list_eq_0_iff)

lemma partition_units_raw_Inr:
  assumes "partition_units_raw units weights = Inr s"
  shows "length s = length weights" "sum_list s = units" "\<forall>x\<in>set s. 1 \<le> x"
proof -
  have s: "s = raw_sizes units weights" and "length weights \<le> units"
    and sm: "sum_list s = units" and ps: "\<forall>x\<in>set s. 1 \<le> x"
    using assms by (auto simp: partition_units_raw_def Let_def rbind_Inr_iff split: if_splits)
  then have "weights \<noteq> [] \<Longrightarrow> length s = length weights"
    using raw_sizes_correct(1) by blast
  moreover have "weights = [] \<Longrightarrow> length s = length weights"
    using assms sm ps sum_list_ge_length [of s]
    by (auto simp: partition_units_raw_def Let_def split: if_splits)
  ultimately show "length s = length weights" "sum_list s = units" "\<forall>x\<in>set s. 1 \<le> x"
    using sm ps by blast+
qed

lemmas partition_units_raw_facts =
  raw_sizes_correct partition_units_raw_total partition_units_raw_Inr

text \<open>Quota rule: once the one-unit minimum binds nowhere, a rank receives its exact quota
  rounded down, or one unit more.\<close>

lemma hand_out_at_most_one:
  assumes "distinct order" and "k \<le> length order" and "i < length sizes"
  shows "hand_out order k sizes ! i = sizes ! i + (if i \<in> set (take k order) then 1 else 0)"
  using assms(2)
proof (induction k)
  case 0
  then show ?case by simp
next
  case (Suc k)
  let ?j = "order ! k"
  have k: "k < length order" using Suc.prems by simp
  have fresh: "?j \<notin> set (take k order)"
  proof
    assume "?j \<in> set (take k order)"
    then obtain m where "m < k" "order ! m = ?j" using k by (auto simp: in_set_conv_nth)
    then show False using nth_eq_iff_index_eq [OF assms(1), of m k] k by simp
  qed
  have step: "hand_out order (Suc k) sizes =
      (hand_out order k sizes)[?j := hand_out order k sizes ! ?j + 1]"
    using k by (simp add: hand_out_Suc Let_def)
  show ?case
    using Suc.IH k fresh assms(3)
    by (cases "i = ?j") (simp_all add: step take_Suc_conv_app_nth)
qed

lemma sum_floor_bounds:
  fixes weights :: "nat list"
  assumes "0 < total_w"
  shows "total_w * sum_list (map (\<lambda>w. units * w div total_w) weights) \<le> units * sum_list weights"
    and "weights \<noteq> [] \<Longrightarrow> units * sum_list weights
           < total_w * (sum_list (map (\<lambda>w. units * w div total_w) weights) + length weights)"
proof -
  show "total_w * sum_list (map (\<lambda>w. units * w div total_w) weights) \<le> units * sum_list weights"
  proof (induction weights)
    case (Cons w ws)
    have "total_w * (units * w div total_w) \<le> units * w" by simp
    from add_mono [OF this Cons.IH] show ?case by (simp add: distrib_left)
  qed simp
  have step: "units * w < total_w * (units * w div total_w + 1)" for w
    using assms by (simp add: dividend_less_times_div)
  show "weights \<noteq> [] \<Longrightarrow> units * sum_list weights
           < total_w * (sum_list (map (\<lambda>w. units * w div total_w) weights) + length weights)"
  proof (induction weights)
    case (Cons w ws)
    then show ?case using step [of w] by (cases "ws = []") (auto simp: algebra_simps)
  qed simp
qed

lemma raw_floor_sizes_exact:
  assumes "\<forall>w\<in>set weights. sum_list weights \<le> units * w"
    and "\<forall>w\<in>set weights. units * w + sum_list weights < 2 ^ 53" and "0 < sum_list weights"
  shows "raw_floor_sizes units weights = map (\<lambda>w. units * w div sum_list weights) weights"
proof -
  let ?T = "sum_list weights"
  have "max (fl_int (fl_div (units * w) ?T)) 1 = units * w div ?T" if "w \<in> set weights" for w
  proof -
    have "fl_int (fl_div (units * w) ?T) = units * w div ?T"
      using fl_int_div [of ?T "units * w"] assms that by blast
    moreover have "1 \<le> units * w div ?T"
      using assms(1,3) that by (metis div_le_mono div_self less_not_refl2)
    ultimately show ?thesis by simp
  qed
  then show ?thesis by (simp add: raw_floor_sizes_def raw_quotas_def)
qed

lemma raw_sizes_quota:
  assumes "weights \<noteq> []" and T: "0 < sum_list weights"
    and big: "\<forall>w\<in>set weights. sum_list weights \<le> units * w"
    and prec: "\<forall>w\<in>set weights. units * w + sum_list weights < 2 ^ 53"
    and i: "i < length weights"
  defines "q \<equiv> units * weights ! i div sum_list weights"
  shows "raw_sizes units weights ! i = q \<or> raw_sizes units weights ! i = q + 1"
proof -
  let ?T = "sum_list weights"
  let ?fl = "map (\<lambda>w. units * w div ?T) weights"
  have fl: "raw_floor_sizes units weights = ?fl" by (rule raw_floor_sizes_exact [OF big prec T])
  have le: "sum_list ?fl \<le> units" and gt: "units < sum_list ?fl + length weights"
    using sum_floor_bounds [OF T, where units = units and weights = weights] assms(1) T
    by (simp_all add: mult.commute [of units])
  have "raw_sizes units weights =
      hand_out (remainder_order (raw_quotas units weights)) (units - sum_list ?fl) ?fl"
    using le by (simp add: raw_sizes_def fl Let_def)
  moreover have "distinct (remainder_order (raw_quotas units weights))"
    by (simp add: remainder_order_def)
  moreover have "units - sum_list ?fl \<le> length (remainder_order (raw_quotas units weights))"
    using gt by (simp add: raw_quotas_def)
  ultimately show ?thesis using i by (simp add: hand_out_at_most_one q_def)
qed

text \<open>When the weights divide the units exactly the split is the exact proportion.\<close>

lemma raw_sizes_exact:
  assumes "weights \<noteq> []" and pos: "\<forall>w\<in>set weights. 1 \<le> w" and "units = k * sum_list weights"
    and "0 < k" and "\<forall>w\<in>set weights. units * w + sum_list weights < 2 ^ 53"
  shows "raw_sizes units weights = map (\<lambda>w. k * w) weights"
proof -
  have T: "0 < sum_list weights"
    using pos assms(1) by (cases weights) auto
  have "\<forall>w\<in>set weights. sum_list weights \<le> units * w"
    using pos assms(3,4) by (simp add: less_eq_Suc_le)
  then have fl: "raw_floor_sizes units weights = map (\<lambda>w. units * w div sum_list weights) weights"
    using raw_floor_sizes_exact assms(5) T by blast
  also have "\<dots> = map (\<lambda>w. k * w) weights"
    using T assms(3) by (simp add: mult.assoc mult.left_commute)
  finally have "raw_floor_sizes units weights = map (\<lambda>w. k * w) weights" .
  moreover have "sum_list (map (\<lambda>w. k * w) weights) = units"
    by (simp add: assms(3) sum_list_const_mult)
  ultimately show ?thesis by (simp add: raw_sizes_def Let_def)
qed

section \<open>Correctness of the aligned split\<close>

definition composition :: "nat \<Rightarrow> nat \<Rightarrow> nat \<Rightarrow> nat list \<Rightarrow> bool" where
  "composition n groups max_len ls \<longleftrightarrow>
     length ls = groups \<and> sum_list ls = n \<and> (\<forall>l\<in>set ls. 1 \<le> l \<and> l \<le> max_len)"

lemma composition_Suc:
  "composition n (Suc g) max_len ls \<longleftrightarrow>
   (\<exists>l ms. ls = l # ms \<and> 1 \<le> l \<and> l \<le> max_len \<and> l \<le> n \<and> composition (n - l) g max_len ms)"
  by (cases ls) (auto simp: composition_def)

lemma composition_bounds:
  "composition n g max_len ls \<Longrightarrow> g \<le> n \<and> n \<le> g * max_len"
proof (induction ls arbitrary: n g)
  case Nil
  then show ?case by (simp add: composition_def)
next
  case (Cons l ls)
  then have c: "composition (n - l) (g - 1) max_len ls" "1 \<le> l" "l \<le> max_len" "l \<le> n" "0 < g"
    by (auto simp: composition_def)
  from Cons.IH [OF c(1)] c(2-) show ?case by (cases g) auto
qed

text \<open>The recursion visits exactly the compositions of the ranks into \<open>groups\<close> parts between
  one and \<open>max_len\<close>: its two prunings lose nothing.\<close>

lemma group_lengths_rec_set:
  assumes "start \<le> n"
  shows "set (group_lengths_rec n max_len start g ls) =
         {ls @ ms | ms. composition (n - start) g max_len ms}"
  using assms
proof (induction g arbitrary: start ls)
  case 0
  then show ?case by (auto simp: composition_def)
next
  case (Suc g)
  let ?R = "n - start"
  have step: "set (group_lengths_rec n max_len (start + L) g (ls @ [L])) =
      {(ls @ [L]) @ ms | ms. composition (?R - L) g max_len ms}" if "L \<le> ?R" for L
    using Suc.IH [of "start + L" "ls @ [L]"] that Suc.prems by simp
  show ?case (is "?A = ?B")
  proof (rule set_eqI, rule iffI)
    fix c
    assume "c \<in> ?A"
    then obtain L where "1 \<le> L" "L \<le> min max_len (?R - g)"
      "c \<in> set (group_lengths_rec n max_len (start + L) g (ls @ [L]))"
      by (auto simp: Let_def less_Suc_eq_le simp del: upt_Suc split: if_splits)
    with step [of L] show "c \<in> ?B" by (auto simp: composition_Suc)
  next
    fix c
    assume "c \<in> ?B"
    then obtain L ms where c: "c = ls @ L # ms" "1 \<le> L" "L \<le> max_len" "L \<le> ?R"
      "composition (?R - L) g max_len ms"
      by (auto simp: composition_Suc)
    have mem: "c \<in> set (group_lengths_rec n max_len (start + L) g (ls @ [L]))"
      using step [OF c(4)] c(1,5) by auto
    have b: "g \<le> ?R - L" "\<not> g * max_len < ?R - L"
      using composition_bounds [OF c(5)] by auto
    then have "L \<in> set [1..<min max_len (?R - g) + 1]" using c(2-4) by auto
    then show "c \<in> ?A" using mem b(2) by (force simp: Let_def simp del: upt_Suc set_upt)
  qed
qed

lemma best_lengths_None: "best_lengths weights cs = None \<longleftrightarrow> cs = []"
  by (cases cs) (auto split: option.splits)

lemma best_lengths_min:
  "best_lengths weights cs = Some b \<Longrightarrow>
   b \<in> set cs \<and> (\<forall>c\<in>set cs. group_key weights b \<le> group_key weights c)"
proof (induction cs arbitrary: b)
  case Nil
  then show ?case by simp
next
  case (Cons c cs)
  show ?case
  proof (cases "best_lengths weights cs")
    case None
    then show ?thesis using Cons.prems by (simp add: best_lengths_None)
  next
    case (Some d)
    then show ?thesis using Cons.prems Cons.IH [OF Some]
      by (auto split: if_splits dest: order_less_imp_le order_trans)
  qed
qed

lemma composition_exists:
  "g \<le> n \<Longrightarrow> n \<le> g * max_len \<Longrightarrow> \<exists>ls. composition n g max_len ls"
proof (induction g arbitrary: n)
  case 0
  then show ?case by (auto simp: composition_def)
next
  case (Suc g)
  let ?l = "min max_len (n - g)"
  have l: "1 \<le> ?l" "?l \<le> max_len" "?l \<le> n"
    using Suc.prems by (cases max_len; auto)+
  have "g \<le> n - ?l" "n - ?l \<le> g * max_len"
    using Suc.prems l by (auto simp: min_def)
  then obtain ms where "composition (n - ?l) g max_len ms" using Suc.IH by blast
  then have "composition n (Suc g) max_len (?l # ms)" using l by (simp add: composition_def)
  then show ?case by blast
qed

lemma balanced_group_lengths_correct:
  assumes "0 < groups" and "groups \<le> length weights" and "length weights \<le> groups * max_len"
  obtains ls where "balanced_group_lengths weights groups max_len = Inr ls"
    and "composition (length weights) groups max_len ls"
    and "\<forall>ms. composition (length weights) groups max_len ms \<longrightarrow>
              group_key weights ls \<le> group_key weights ms"
proof -
  let ?C = "group_lengths_rec (length weights) max_len 0 groups []"
  have C: "set ?C = {ms. composition (length weights) groups max_len ms}"
    by (simp add: group_lengths_rec_set)
  then have "?C \<noteq> []" using composition_exists [OF assms(2,3)] by force
  then obtain ls where ls: "best_lengths weights ?C = Some ls"
    using best_lengths_None by (metis not_None_eq)
  note best = best_lengths_min [OF ls]
  then have comp: "composition (length weights) groups max_len ls" using C by blast
  then have "ls \<noteq> []" using assms(1) by (auto simp: composition_def)
  then have "balanced_group_lengths weights groups max_len = Inr ls"
    by (simp add: balanced_group_lengths_def ls)
  then show ?thesis using that comp best C by blast
qed

text \<open>A size vector is aligned when every multiple of \<open>per\<close> is a prefix sum; then no rank's
  block crosses such a multiple.\<close>

definition aligned :: "nat \<Rightarrow> nat \<Rightarrow> nat list \<Rightarrow> bool" where
  "aligned per groups sizes \<longleftrightarrow>
     (\<forall>k. 1 \<le> k \<longrightarrow> k < groups \<longrightarrow> (\<exists>j. sum_list (take j sizes) = per * k))"

lemma aligned_no_straddle:
  assumes al: "aligned per groups sizes" and tot: "sum_list sizes = per * groups"
    and r: "r < length sizes" and pos: "1 \<le> sizes ! r" and per: "0 < per"
  defines "off \<equiv> sum_list (take r sizes)"
  shows "off div per = (off + sizes ! r - 1) div per"
proof (rule ccontr)
  assume ne: "off div per \<noteq> (off + sizes ! r - 1) div per"
  let ?k = "(off + sizes ! r - 1) div per"
  have "off \<le> off + sizes ! r - 1" using pos by simp
  then have less: "off div per < ?k" using ne div_le_mono le_neq_implies_less by blast
  then have lo: "off < per * ?k" using per by (simp add: div_less_iff_less_mult mult.commute)
  have k1: "1 \<le> ?k" using less by linarith
  have "off + sizes ! r \<le> per * groups"
    using sum_take_le [of "Suc r" sizes] r tot by (simp add: sum_take_Suc off_def)
  then have "off + sizes ! r - 1 < groups * per" using pos per by (simp add: mult.commute)
  then have "?k < groups" using per by (simp add: div_less_iff_less_mult)
  then obtain j where j: "sum_list (take j sizes) = per * ?k" using al k1 by (auto simp: aligned_def)
  have "per * ?k \<le> off + sizes ! r - 1" by simp
  then have hi: "per * ?k < off + sizes ! r" using pos by linarith
  show False
  proof (cases "j \<le> r")
    case True
    then show False using sum_take_mono [of j r sizes] j lo by (simp add: off_def)
  next
    case False
    then show False using sum_take_mono [of "Suc r" j sizes] j hi r
      by (simp add: sum_take_Suc off_def)
  qed
qed

lemma prefix_sums_from_set:
  "x \<in> set (prefix_sums_from c ss) \<Longrightarrow> \<exists>j. x = c + sum_list (take j ss)"
proof (induction ss arbitrary: c)
  case Nil
  then show ?case by simp
next
  case (Cons s ss)
  show ?case
  proof (cases "x = c + s")
    case True
    then have "x = c + sum_list (take 1 (s # ss))" by simp
    then show ?thesis by blast
  next
    case False
    then obtain j where "x = c + s + sum_list (take j ss)" using Cons by auto
    then have "x = c + sum_list (take (Suc j) (s # ss))" by simp
    then show ?thesis by blast
  qed
qed

lemma partition_segments_correct:
  assumes "\<forall>w\<in>set weights. 1 \<le> w" and "sum_list ls = length weights"
    and "\<forall>l\<in>set ls. 1 \<le> l \<and> l \<le> per"
  shows "\<exists>out. partition_segments per weights ls = Inr out \<and> length out = length weights \<and>
    sum_list out = per * length ls \<and> (\<forall>x\<in>set out. 1 \<le> x) \<and>
    (\<forall>k\<le>length ls. \<exists>j. sum_list (take j out) = per * k)"
  using assms
proof (induction ls arbitrary: weights)
  case Nil
  then show ?case by simp
next
  case (Cons l ls)
  let ?w = "take l weights"
  have l: "1 \<le> l" "l \<le> per" "l \<le> length weights" using Cons.prems by auto
  then have lw: "length ?w = l" and w: "?w \<noteq> []" by auto
  have "\<forall>x\<in>set ?w. 1 \<le> x" using Cons.prems(1) in_set_takeD by fastforce
  from sum_list_ge_length [OF this] have sw: "0 < sum_list ?w" using lw l by linarith
  have raw: "partition_units_raw per ?w = Inr (raw_sizes per ?w)"
    using partition_units_raw_total [OF w _ sw] l lw by simp
  note rs = partition_units_raw_Inr [OF raw]
  have "\<forall>x\<in>set (drop l weights). 1 \<le> x" using Cons.prems(1) in_set_dropD by fastforce
  moreover have "sum_list ls = length (drop l weights)" using Cons.prems(2) by auto
  ultimately obtain out where out: "partition_segments per (drop l weights) ls = Inr out"
    "length out = length weights - l" "sum_list out = per * length ls" "\<forall>x\<in>set out. 1 \<le> x"
    "\<forall>k\<le>length ls. \<exists>j. sum_list (take j out) = per * k"
    using Cons.IH [of "drop l weights"] Cons.prems(3) by auto
  let ?o = "raw_sizes per ?w @ out"
  have bd: "\<exists>j. sum_list (take j ?o) = per * k" if "k \<le> Suc (length ls)" for k
  proof (cases k)
    case 0
    then show ?thesis by (metis mult_0_right sum_list.Nil take0)
  next
    case (Suc m)
    then obtain j where "sum_list (take j out) = per * m" using out(5) \<open>k \<le> _\<close> by auto
    then have "sum_list (take (length (raw_sizes per ?w) + j) ?o) = per * k"
      using rs(2) Suc by simp
    then show ?thesis by blast
  qed
  have "partition_segments per weights (l # ls) = Inr ?o" by (simp add: raw out(1))
  moreover have "length ?o = length weights" using rs(1) out(2) lw l(3) by simp
  moreover have "sum_list ?o = per * length (l # ls)" using rs(2) out(3) by simp
  moreover have "\<forall>x\<in>set ?o. 1 \<le> x" using rs(3) out(4) by auto
  ultimately show ?case using bd by auto
qed

lemma kv_aligned_total:
  assumes "2 \<le> groups" and "groups < length weights" and "length weights \<le> units"
    and "units mod groups = 0" and "\<forall>w\<in>set weights. 1 \<le> w"
  shows "\<exists>s. partition_units_kv_aligned units weights groups = Inr s \<and>
    length s = length weights \<and> sum_list s = units \<and> (\<forall>x\<in>set s. 1 \<le> x) \<and>
    aligned (units div groups) groups s"
proof -
  define per where "per = units div groups"
  have units: "units = per * groups" using assms(4) by (auto simp: per_def)
  have w: "weights \<noteq> []" using assms(2) by auto
  have sw: "0 < sum_list weights" using sum_list_ge_length [OF assms(5)] assms(2) by linarith
  note raw = partition_units_raw_total [OF w assms(3) sw]
  note rs = partition_units_raw_Inr [OF raw]
  let ?s = "raw_sizes units weights"
  let ?ok = "\<forall>b\<in>set (map (\<lambda>k. per * k) [1..<groups]). b \<in> set (prefix_sums_from 0 (butlast ?s))"
  have unf: "partition_units_kv_aligned units weights groups = (if ?ok then Inr ?s else
      rbind (balanced_group_lengths weights groups per) (\<lambda>lengths.
      rbind (partition_segments per weights lengths) (\<lambda>out.
      rbind (guard_err (sum_list out = units \<and> (\<forall>s\<in>set out. 1 \<le> s)) AssertionError)
        (\<lambda>_. Inr out))))"
    using assms raw by (simp add: partition_units_kv_aligned_def Let_def per_def)
  show ?thesis
  proof (cases ?ok)
    case True
    have "aligned per groups ?s" unfolding aligned_def
    proof (intro allI impI)
      fix k
      assume "1 \<le> k" "k < groups"
      then have "per * k \<in> set (prefix_sums_from 0 (butlast ?s))" using True by auto
      then obtain j where "per * k = sum_list (take j (butlast ?s))"
        using prefix_sums_from_set by fastforce
      then have "sum_list (take (min j (length ?s - 1)) ?s) = per * k"
        by (simp add: butlast_conv_take min.commute)
      then show "\<exists>j. sum_list (take j ?s) = per * k" by blast
    qed
    then show ?thesis using unf True rs by (auto simp: per_def)
  next
    case False
    have "0 < groups" "groups \<le> length weights" "length weights \<le> groups * per"
      using assms units by (simp_all add: mult.commute)
    then obtain ls where ls: "balanced_group_lengths weights groups per = Inr ls"
      "composition (length weights) groups per ls"
      using balanced_group_lengths_correct by blast
    then obtain out where out: "partition_segments per weights ls = Inr out"
      "length out = length weights" "sum_list out = per * groups" "\<forall>x\<in>set out. 1 \<le> x"
      "\<forall>k\<le>groups. \<exists>j. sum_list (take j out) = per * k"
      using partition_segments_correct [OF assms(5), of ls per] by (auto simp: composition_def)
    then have "aligned per groups out" by (simp add: aligned_def)
    moreover have "partition_units_kv_aligned units weights groups = Inr out"
      unfolding unf if_not_P [OF False] using ls(1) out units by (simp add: guard_err_def)
    ultimately show ?thesis using out units unfolding per_def [symmetric] by auto
  qed
qed

lemma partition_segments_length:
  "partition_segments per weights ls = Inr out \<Longrightarrow> sum_list ls = length weights \<Longrightarrow>
   length out = length weights"
proof (induction ls arbitrary: weights out)
  case Nil
  then show ?case by simp
next
  case (Cons l ls)
  then obtain o1 o2 where o: "partition_units_raw per (take l weights) = Inr o1"
    "partition_segments per (drop l weights) ls = Inr o2" "out = o1 @ o2"
    by (auto simp: rbind_Inr_iff)
  have "sum_list ls = length (drop l weights)" using Cons.prems(2) by auto
  then show ?case
    using Cons.IH [OF o(2)] partition_units_raw_Inr(1) [OF o(1)] o(3) Cons.prems(2) by auto
qed

lemma balanced_group_lengths_sum:
  "balanced_group_lengths weights g per = Inr ls \<Longrightarrow> sum_list ls = length weights"
  using best_lengths_min [of weights "group_lengths_rec (length weights) per 0 g []" ls]
  by (simp add: balanced_group_lengths_def composition_def group_lengths_rec_set
      split: option.splits if_splits)

lemma partition_units_kv_aligned_Inr:
  assumes "partition_units_kv_aligned units weights groups = Inr s"
  shows "length s = length weights \<and> sum_list s = units \<and> (\<forall>x\<in>set s. 1 \<le> x)"
proof -
  let ?per = "units div groups"
  obtain raw where raw: "partition_units_raw units weights = Inr raw"
    using assms by (auto simp: partition_units_kv_aligned_def rbind_Inr_iff)
  have "s = raw \<or> (\<exists>ls. balanced_group_lengths weights groups ?per = Inr ls \<and>
      partition_segments ?per weights ls = Inr s \<and> sum_list s = units \<and> (\<forall>x\<in>set s. 1 \<le> x))"
    using assms unfolding partition_units_kv_aligned_def raw rbind_simps Let_def
    by (simp only: rbind_Inr_iff guard_err_Inr_iff split: if_splits) auto
  then show ?thesis
    using partition_units_raw_Inr [OF raw] partition_segments_length balanced_group_lengths_sum
    by blast
qed

lemma partition_units_Inr:
  assumes "partition_units units weights groups = Inr s"
  shows "length s = length weights \<and> sum_list s = units \<and> (\<forall>x\<in>set s. 1 \<le> x)"
  using assms partition_units_raw_Inr partition_units_kv_aligned_Inr
  unfolding partition_units_def by (simp split: option.splits if_splits)

section \<open>Sizes and offsets tile the dimension\<close>

lemma partition_sizes_Inr:
  assumes "partition_sizes full weights units groups = Inr sizes"
  shows "length sizes = length weights" "sum_list sizes = full"
proof -
  have "length sizes = length weights \<and> sum_list sizes = full"
  proof (cases units)
    case None
    then have "sizes = map (\<lambda>w. full div sum_list weights * w) weights"
      "full mod sum_list weights = 0"
      using assms by (auto simp: partition_sizes_def Let_def split: if_splits)
    then show ?thesis by (auto simp: sum_list_const_mult)
  next
    case (Some u)
    then obtain ss where "partition_units u weights groups = Inr ss"
      "sizes = map (\<lambda>s. s * (full div u)) ss" "full mod u = 0"
      using assms by (auto simp: partition_sizes_def rbind_Inr_iff split: if_splits)
    then show ?thesis using partition_units_Inr
      by (fastforce simp: sum_list_mult_const)
  qed
  then show "length sizes = length weights" "sum_list sizes = full" by auto
qed

lemma tp_partition_sizes_Inr:
  assumes "tp_partition_sizes s full tp_size units family groups = Inr sizes"
  shows "length sizes = tp_size" "sum_list sizes = full"
proof -
  have even: "length sizes = tp_size \<and> sum_list sizes = full"
    if "rbind (ensure_divisibility full tp_size)
          (\<lambda>_. Inr (replicate tp_size (full div tp_size))) = Inr sizes"
    using that by (auto simp: rbind_Inr_iff ensure_divisibility_def sum_list_replicate
        split: if_splits)
  have "length sizes = tp_size \<and> sum_list sizes = full"
  proof (cases "get_tp_partition_ratios s family")
    case None
    then show ?thesis using assms even by (simp add: tp_partition_sizes_def Let_def)
  next
    case (Some ratios)
    then show ?thesis using assms even partition_sizes_Inr [of full ratios units groups sizes]
      by (auto simp: tp_partition_sizes_def Let_def split: if_splits)
  qed
  then show "length sizes = tp_size" "sum_list sizes = full" by auto
qed

lemma sum_take_full_0:
  assumes "r < length sizes" and "sizes ! r = sum_list sizes"
  shows "sum_list (take r sizes) = (0::nat)"
  using sum_take_le [of "Suc r" sizes] assms by (simp add: sum_take_Suc)

lemma concat_slices:
  "sum_list sizes = length xs \<Longrightarrow>
   concat (map (\<lambda>r. slice (sum_list (take r sizes)) (sum_list (take (Suc r) sizes)) xs)
     [0..<length sizes]) = xs"
proof (induction sizes arbitrary: xs)
  case Nil
  then show ?case by simp
next
  case (Cons z zs)
  have "sum_list zs = length (drop z xs)" using Cons.prems by auto
  note ih = Cons.IH [OF this]
  have "slice (z + a) (z + b) xs = slice a b (drop z xs)" for a b
    by (simp add: slice_def add.commute)
  then show ?case using ih
    by (simp add: upt_conv_Cons map_Suc_upt [symmetric] comp_def del: upt_Suc)
qed

lemma nth_res_Inr_iff: "nth_res xs i = Inr x \<longleftrightarrow> i < length xs \<and> xs ! i = x"
  by (simp add: nth_res_def)

lemma partition_sizes_units_scaled:
  assumes "partition_sizes full weights (Some u) groups = Inr sizes" and "x \<in> set sizes"
  shows "full div u dvd x"
  using assms by (auto simp: partition_sizes_def rbind_Inr_iff split: if_splits)

lemma lcm_units_scale:
  assumes "full mod lcm a b = 0" and "0 < full"
  shows "b dvd full div (full div lcm a (b::nat))"
proof -
  define l where "l = lcm a b"
  obtain k where k: "full = l * k" using assms(1) unfolding l_def [symmetric] by auto
  then have "0 < l" "0 < k" using assms(2) by (cases "l = 0"; cases "k = 0"; simp)+
  then have "full div (full div l) = l" using k by simp
  then show ?thesis by (simp add: l_def)
qed

section \<open>Properties\<close>

text \<open>C16: \<open>partition_units\<close> splits any number of units no smaller than the number of ranks over
  positive weights without raising, with or without kv-group alignment: one entry per rank,
  none of them empty, and together exactly the units.\<close>

theorem partition_units_splits:
  assumes "weights \<noteq> []" and "\<forall>w\<in>set weights. 1 \<le> w" and "length weights \<le> units"
  shows "\<exists>s. partition_units units weights groups = Inr s \<and> length s = length weights \<and>
             sum_list s = units \<and> (\<forall>x\<in>set s. 1 \<le> x)"
proof -
  have sw: "0 < sum_list weights"
    using sum_list_ge_length [OF assms(2)] assms(1)
    by (metis length_greater_0_conv less_le_trans)
  note raw = partition_units_raw_total [OF assms(1,3) sw]
  have "\<exists>s. partition_units_kv_aligned units weights g = Inr s" for g
  proof (cases "g < 2 \<or> length weights \<le> g \<or> units mod g \<noteq> 0")
    case True
    then show ?thesis by (simp add: partition_units_kv_aligned_def raw Let_def)
  next
    case False
    then show ?thesis using kv_aligned_total [of g weights units] assms by fastforce
  qed
  then have "\<exists>s. partition_units units weights groups = Inr s"
    by (simp add: partition_units_def raw split: option.split)
  then show ?thesis using partition_units_Inr by blast
qed

theorem partition_units_splits_witness:
  "\<exists>s. partition_units 8 [3, 2, 1] (Some 2) = Inr s \<and> length s = length [3::nat, 2, 1] \<and>
       sum_list s = 8 \<and> (\<forall>x\<in>set s. 1 \<le> x)"
  using partition_units_splits [of "[3, 2, 1]" 8 "Some 2"] by simp

text \<open>C26: with kv-group alignment no rank straddles a kv-head group: when the groups tile the
  units and are fewer than the ranks, the first and the last unit of every rank's block lie in
  the same group of \<open>units div groups\<close> units.\<close>

theorem partition_units_never_straddles:
  assumes "2 \<le> groups" and "groups < length weights" and "length weights \<le> units"
    and "units mod groups = 0" and "\<forall>w\<in>set weights. 1 \<le> w"
    and "partition_units units weights (Some groups) = Inr s" and "r < length s"
  defines "off \<equiv> sum_list (take r s)"
  shows "off div (units div groups) = (off + s ! r - 1) div (units div groups)"
proof -
  have al: "aligned (units div groups) groups s" and tot: "sum_list s = units"
    and pos: "\<forall>x\<in>set s. 1 \<le> x"
    using kv_aligned_total [OF assms(1-5)] assms(1,6)
    by (auto simp: partition_units_def)
  have "0 < units div groups" using assms(1-4) by (simp add: div_greater_zero_iff)
  moreover have "sum_list s = units div groups * groups" using tot assms(4) by auto
  ultimately show ?thesis
    using aligned_no_straddle [OF al _ assms(7)] pos assms(7) unfolding off_def by simp
qed

theorem partition_units_never_straddles_witness:
  "partition_units_raw 8 [1, 1, 1] = Inr [3, 3, 2] \<and>
   partition_units 8 [1, 1, 1] (Some 2) = Inr [4, 2, 2] \<and>
   (let off = sum_list (take 1 [4, 2, 2::nat])
    in off div (8 div 2) = (off + [4, 2, 2] ! 1 - 1) div (8 div 2))"
proof -
  have "partition_units 8 [1, 1, 1] (Some 2) = Inr [4, 2, 2]" by code_simp
  moreover have "partition_units_raw 8 [1, 1, 1] = Inr [3, 3, 2]" by code_simp
  ultimately show ?thesis
    using partition_units_never_straddles [of 2 "[1, 1, 1]" 8 "[4, 2, 2]" 1]
    by (simp add: Let_def)
qed



text \<open>C17: the repair of a straddling split is optimal. Among all ways to cut the ranks, in
  order, into \<open>groups\<close> non-empty segments of at most \<open>max_len\<close> ranks, the chosen lengths have
  the least key: smallest heaviest segment first, then the flatter weight profile, then the
  lexicographically smaller length vector; and a cut is found whenever one exists.\<close>

theorem balanced_group_lengths_optimal:
  assumes "0 < groups" and "composition (length weights) groups max_len ms"
  shows "\<exists>ls. balanced_group_lengths weights groups max_len = Inr ls \<and>
    composition (length weights) groups max_len ls \<and> group_key weights ls \<le> group_key weights ms"
proof -
  have "groups \<le> length weights" "length weights \<le> groups * max_len"
    using composition_bounds [OF assms(2)] by auto
  from balanced_group_lengths_correct [OF assms(1) this] show ?thesis using assms(2) by metis
qed

theorem balanced_group_lengths_optimal_witness:
  "\<exists>ls. balanced_group_lengths [3, 1, 2] 2 4 = Inr ls \<and> composition (length [3::nat, 1, 2]) 2 4 ls \<and>
        group_key [3, 1, 2] ls \<le> group_key [3, 1, 2] [2, 1]"
  using balanced_group_lengths_optimal [of 2 "[3, 1, 2]" 4 "[2, 1]"]
  by (simp add: composition_def)

text \<open>C28: the loader agrees with the layer. The offset at which a checkpoint dimension is
  narrowed for a rank, given the shard size the layer allocated for it, is the offset of that
  rank's block in the partition, under an even split, an uneven one, and for a rank that holds
  the whole dimension.\<close>

theorem loaded_shard_start_is_offset:
  assumes "tp_partition_size s full tp_size rank units family groups = Inr shard_size"
  shows "tp_loaded_shard_start s full (Some tp_size) rank shard_size units family groups =
         tp_partition_offset s full tp_size rank units family groups"
proof -
  from assms obtain sizes where sizes:
    "tp_partition_sizes s full tp_size units family groups = Inr sizes"
    "rank < length sizes" "sizes ! rank = shard_size"
    by (auto simp: tp_partition_size_def rbind_Inr_iff nth_res_Inr_iff)
  note facts = tp_partition_sizes_Inr [OF sizes(1)]
  have off: "tp_partition_offset s full tp_size rank units family groups =
      Inr (sum_list (take rank sizes))"
    by (simp add: tp_partition_offset_def sizes(1))
  show ?thesis
  proof (cases "tp_plan_active s tp_size family")
    case False
    then have "sizes = replicate tp_size (full div tp_size)"
      using sizes(1)
      by (auto simp: tp_plan_active_def tp_partition_sizes_def Let_def rbind_Inr_iff
          split: option.splits if_splits)
    then have "sum_list (take rank sizes) = rank * shard_size"
      using sizes facts by (simp add: sum_list_replicate)
    then show ?thesis using False off
      by (auto simp: tp_plan_active_def tp_loaded_shard_start_def split: option.split)
  next
    case True
    then obtain ratios where r: "get_tp_partition_ratios s family = Some ratios" "ratios \<noteq> []"
      "length ratios = tp_size"
      by (auto simp: tp_plan_active_def split: option.splits)
    then have ps: "partition_sizes full ratios units groups = Inr sizes"
      using sizes(1) by (simp add: tp_partition_sizes_def Let_def)
    have "shard_size = full \<Longrightarrow> sum_list (take rank sizes) = 0"
      using sum_take_full_0 [OF sizes(2)] sizes(3) facts by simp
    then show ?thesis using r ps sizes off by (simp add: tp_loaded_shard_start_def nth_res_def)
  qed
qed

text \<open>The plan used by the examples: base vector \<open>2,1,1\<close>, its own vector for the MLP family.\<close>

definition example_plan :: tp_state where
  "example_plan =
     \<lparr>base_ratios = Some [2, 1, 1], families = [(''mlp'', [3, 2, 1])], overlay = None\<rparr>"

theorem loaded_shard_start_is_offset_witness:
  "tp_partition_size example_plan 96 3 2 (Some 12) (Some ''mlp'') None = Inr 16 \<and>
   tp_loaded_shard_start example_plan 96 (Some 3) 2 16 (Some 12) (Some ''mlp'') None =
   tp_partition_offset example_plan 96 3 2 (Some 12) (Some ''mlp'') None"
proof -
  have "tp_partition_size example_plan 96 3 2 (Some 12) (Some ''mlp'') None = Inr 16"
    by code_simp
  then show ?thesis
    using loaded_shard_start_is_offset
      [of example_plan 96 3 2 "Some 12" "Some ''mlp''" None 16] by simp
qed

text \<open>C18: the shards of a dimension reassemble it. Narrowing a full weight to each rank's
  offset and size and concatenating the pieces in rank order gives the weight back: no row is
  lost and none is loaded twice.\<close>

theorem shards_reassemble:
  assumes "tp_partition_sizes s (length W) tp_size units family groups = Inr sizes"
  shows "concat (map (\<lambda>rank. case (tp_partition_offset s (length W) tp_size rank units family groups,
                                  tp_partition_size s (length W) tp_size rank units family groups)
                       of (Inr off, Inr sz) \<Rightarrow> slice off (off + sz) W | _ \<Rightarrow> [])
                [0..<tp_size]) = W"
proof -
  note facts = tp_partition_sizes_Inr [OF assms]
  have "map (\<lambda>rank. case (tp_partition_offset s (length W) tp_size rank units family groups,
                          tp_partition_size s (length W) tp_size rank units family groups)
                of (Inr off, Inr sz) \<Rightarrow> slice off (off + sz) W | _ \<Rightarrow> []) [0..<tp_size] =
        map (\<lambda>r. slice (sum_list (take r sizes)) (sum_list (take (Suc r) sizes)) W)
          [0..<length sizes]"
    using facts
    by (auto simp: tp_partition_offset_def tp_partition_size_def assms nth_res_def sum_take_Suc)
  then show ?thesis using concat_slices [OF facts(2)] by simp
qed

theorem shards_reassemble_witness:
  "tp_partition_sizes example_plan (length [0..<8]) 3 (Some 8) None None = Inr [4, 2, 2] \<and>
   concat (map (\<lambda>rank.
       case (tp_partition_offset example_plan (length [0..<8]) 3 rank (Some 8) None None,
             tp_partition_size example_plan (length [0..<8]) 3 rank (Some 8) None None)
       of (Inr off, Inr sz) \<Rightarrow> slice off (off + sz) [0..<8] | _ \<Rightarrow> []) [0..<3]) = [0..<8]"
proof -
  have "tp_partition_sizes example_plan (length [0..<8]) 3 (Some 8) None None = Inr [4, 2, 2]"
    by code_simp
  from this shards_reassemble [OF this] show ?thesis by blast
qed

lemma scaled_block_div:
  assumes "0 < (K::nat)" and "1 \<le> m"
  shows "(a * K) div (K * per) = a div per" and "((a + m) * K - 1) div (K * per) = (a + m - 1) div per"
proof -
  show "(a * K) div (K * per) = a div per" using assms by (simp add: mult.commute [of a])
  obtain j where j: "a + m = Suc j" using assms(2) by (cases "a + m") auto
  have "((a + m) * K - 1) div K = (j * K + (K - 1)) div K"
    using assms(1) by (simp add: j add.commute)
  also have "\<dots> = j" using assms(1) by (intro div_nat_eqI) (auto simp: algebra_simps)
  finally show "((a + m) * K - 1) div (K * per) = (a + m - 1) div per"
    by (simp add: j div_mult2_eq)
qed

lemma attn_q_sizes_scaled:
  assumes "attn_kv_replicated s tp_size kv" and "attn_q_partition_units s q kv tp_size = Inr units"
    and "tp_partition_sizes s q tp_size (Some units) None (Some kv) = Inr sizes" and "0 < kv"
  obtains ratios us
    where "get_tp_partition_ratios s None = Some ratios" and "length ratios = tp_size"
    and "partition_units units ratios (Some kv) = Inr us" and "sizes = map (\<lambda>u. u * kv) us"
    and "units = q div kv" and "tp_size \<le> units" and "kv < tp_size"
proof -
  obtain ratios where r: "get_tp_partition_ratios s None = Some ratios" "ratios \<noteq> []"
    "length ratios = tp_size" "kv < tp_size"
    using assms(1) by (auto simp: attn_kv_replicated_def tp_plan_active_def split: option.splits)
  have u: "units = q div kv" "tp_size \<le> units" "q mod kv = 0"
    using assms(1,2,4) by (auto simp: attn_q_partition_units_def Let_def split: if_splits)
  then have "q = units * kv" by auto
  then have "q div units = kv" using u(2) r(4) by simp
  then obtain us where "partition_units units ratios (Some kv) = Inr us" "sizes = map (\<lambda>x. x * kv) us"
    using assms(3) r
    by (auto simp: tp_partition_sizes_def Let_def partition_sizes_def rbind_Inr_iff split: if_splits)
  then show ?thesis using that r u by blast
qed


definition replicated_plan :: tp_state where
  "replicated_plan = \<lparr>base_ratios = Some [1, 1, 1], families = [], overlay = None\<rparr>"


text \<open>C30: quantization blocks stay whole. Partitioning a block-quantized dimension with the
  unit count that \<open>block_aligned_units\<close> returns gives every rank a whole number of blocks.\<close>

theorem block_aligned_units_keep_blocks:
  assumes "0 < full" and "0 < block" and "full mod block = 0" and "0 < units"
    and "block_aligned_units full (Some units) (Some block) = Inr (Some units')"
    and "partition_sizes full weights (Some units') groups = Inr sizes"
  shows "\<forall>x\<in>set sizes. block dvd x"
proof -
  have "block dvd full div units'"
    using assms(1-5) lcm_units_scale [of full "full div units" block]
    by (auto simp: block_aligned_units_def Let_def split: if_splits)
  then show ?thesis using partition_sizes_units_scaled [OF assms(6)] dvd_trans by blast
qed

theorem block_aligned_units_keep_blocks_witness:
  "block_aligned_units 1024 (Some 64) (Some 128) = Inr (Some 8) \<and>
   partition_sizes 1024 [2, 1, 1] (Some 8) None = Inr [512, 256, 256] \<and>
   list_all (\<lambda>x. 128 dvd x) [512, 256, 256::nat]"
proof -
  have "block_aligned_units 1024 (Some 64) (Some 128) = Inr (Some 8)"
    "partition_sizes 1024 [2, 1, 1] (Some 8) None = Inr [512, 256, 256]"
    by code_simp+
  then show ?thesis
    using block_aligned_units_keep_blocks [of 1024 128 64 8 "[2, 1, 1]" None "[512, 256, 256]"]
    by simp
qed



section \<open>Two places where the comments and the code part\<close>

text \<open>The documentation of \<open>partition_units\<close> says that ties in the fractional parts go to the
  lower rank. Weights \<open>2,5,5\<close> over four units have the quotas 2/3, 5/3, 5/3: after the minimum
  of one unit each, one unit is left, all three fractional parts are 2/3, and it goes to rank
  1, because the float fractional parts of 5/3 and 2/3 differ.\<close>

lemma partition_units_tie_not_lowest_rank:
  "partition_units 4 [2, 5, 5] None = Inr [1, 2, 1]"
  by code_simp

text \<open>The documentation of \<open>scoped_tp_partition_ratios\<close> says that within one thread the scope
  behaves as installing the plan. For the vocabulary family it does not:
  \<open>tp_vocab_ratios\<close> reads the process globals and never the overlay.\<close>

lemma scoped_vocab_family_ignored:
  "fst (scoped_tp_partition_ratios (Some [1, 2]) [(''vocab'', [1, 2])]
          (\<lambda>t. (Inr (tp_vocab_ratios t 2), t)) \<lparr>base_ratios = None, families = [], overlay = None\<rparr>)
     = Inr None"
  "rbind (set_tp_partition_ratios (Some [1, 2]) [(''vocab'', [1, 2])]
            \<lparr>base_ratios = None, families = [], overlay = None\<rparr>)
     (\<lambda>t. Inr (tp_vocab_ratios t 2)) = Inr (Some [1, 2])"
  by (simp_all add: scoped_tp_partition_ratios_def set_tp_partition_ratios_def
      normalize_partition_plan_def tp_vocab_ratios_def)

end
