(* ===== verification/Radix_Key.thy ===== *)
theory Radix_Key
  imports Prelude "HOL-Library.Sublist"
begin

text \<open>
  Keys of the radix prefix cache: class \<open>RadixKey\<close> of
  \<open>python/sglang/srt/mem_cache/radix_cache.py\<close>.

  A key is a token sequence with an optional namespace tag (\<open>extra_key\<close>), an optional cap on
  the tokens that count (\<open>limit\<close>) and a flag that switches the logical unit from a token to a
  pair of neighbouring tokens (\<open>is_bigram\<close>, used by EAGLE speculation). \<open>units\<close> is what
  iterating over the key yields; every other operation is specified through it.

  Lemmas: slicing and page alignment in terms of units, and the equivalence of the galloping
  search of \<open>key_match\<close> with the length of the longest common prefix of the two unit lists.
\<close>

type_synonym token = nat

datatype lunit = Tok token | Bigram token token

record radix_key =
  token_ids :: "token list"
  extra_key :: "string option"
  is_bigram :: bool
  limit :: "nat option"

definition RadixKey :: "token list \<Rightarrow> string option \<Rightarrow> bool \<Rightarrow> nat option \<Rightarrow> radix_key" where
  "RadixKey t e b l = \<lparr>token_ids = t, extra_key = e, is_bigram = b, limit = l\<rparr>"

definition raw_len :: "radix_key \<Rightarrow> nat" where
  "raw_len k = (let n = length (token_ids k) in
     case limit k of None \<Rightarrow> n | Some l \<Rightarrow> if l < n then l else n)"

definition raw_token_ids :: "radix_key \<Rightarrow> token list" where
  "raw_token_ids k =
     (let n = raw_len k; t = token_ids k in if n = length t then t else take n t)"

definition key_len :: "radix_key \<Rightarrow> nat" where
  "key_len k = (let n = raw_len k in if is_bigram k then (if 0 < n then n - 1 else 0) else n)"

definition units :: "radix_key \<Rightarrow> lunit list" where
  "units k =
     (let t = token_ids k; n = raw_len k in
      if is_bigram k then map (\<lambda>i. Bigram (t ! i) (t ! (i + 1))) [0..<(if 0 < n then n - 1 else 0)]
      else if n = length t then map Tok t
      else map (\<lambda>i. Tok (t ! i)) [0..<n])"

text \<open>\<open>key[start:stop]\<close> with non-negative bounds; \<open>slice.indices\<close> clips them to the length.\<close>

definition key_slice :: "nat \<Rightarrow> nat \<Rightarrow> radix_key \<Rightarrow> radix_key" where
  "key_slice start stop k =
     (let start' = min start (key_len k); stop' = min stop (key_len k) in
      if is_bigram k
      then RadixKey (if start' < stop' then slice start' (stop' + 1) (token_ids k) else [])
             (extra_key k) True None
      else RadixKey (slice start' stop' (token_ids k)) (extra_key k) False None)"

definition key_index :: "int \<Rightarrow> radix_key \<Rightarrow> radix_key res" where
  "key_index idx k =
     (let idx' = (if idx < 0 then idx + int (key_len k) else idx) in
      if idx' < 0 \<or> int (key_len k) \<le> idx' then Inl IndexError
      else Inr (key_slice (nat idx') (nat idx' + 1) k))"

definition page_aligned :: "nat \<Rightarrow> radix_key \<Rightarrow> radix_key" where
  "page_aligned page_size k =
     (if page_size = 1 then k
      else let aligned_len = key_len k div page_size * page_size in key_slice 0 aligned_len k)"

definition maybe_to_bigram_view ::
  "bool \<Rightarrow> radix_key \<Rightarrow> 'v list option \<Rightarrow> radix_key \<times> 'v list option" where
  "maybe_to_bigram_view is_eagle k val =
     (if is_eagle \<and> \<not> is_bigram k
      then let k' = k\<lparr>is_bigram := True\<rparr> in (k', map_option (take (key_len k')) val)
      else (k, val))"

definition check_compatible :: "radix_key \<Rightarrow> radix_key \<Rightarrow> unit res" where
  "check_compatible k other = guard_err (extra_key k = extra_key other) ValueError"

text \<open>The two loops of \<open>match\<close>: binary search in a window known to contain the divergence, and
  the galloping search that finds such a window.\<close>

function bisect_window :: "token list \<Rightarrow> token list \<Rightarrow> nat \<Rightarrow> nat \<Rightarrow> nat" where
  "bisect_window t0 t1 lo hi =
     (if 1 < hi - lo
      then let mid = (lo + hi) div 2 in
           if slice lo mid t0 = slice lo mid t1 then bisect_window t0 t1 mid hi
           else bisect_window t0 t1 lo mid
      else lo)"
  by pat_completeness auto
termination
  by (relation "measure (\<lambda>(t0, t1, lo, hi). hi - lo)") auto

function gallop :: "token list \<Rightarrow> token list \<Rightarrow> nat \<Rightarrow> nat \<Rightarrow> nat \<Rightarrow> nat" where
  "gallop t0 t1 n lo step =
     (if lo < n \<and> 0 < step
      then let hi = (if lo + step < n then lo + step else n) in
           if slice lo hi t0 \<noteq> slice lo hi t1 then bisect_window t0 t1 lo hi
           else gallop t0 t1 n hi (step * 2)
      else n)"
  by pat_completeness auto
termination
  by (relation "measure (\<lambda>(t0, t1, n, lo, step). n - lo)") auto

declare bisect_window.simps [simp del] gallop.simps [simp del]

definition key_match :: "radix_key \<Rightarrow> radix_key \<Rightarrow> nat \<Rightarrow> nat res" where
  "key_match k other page_size =
     rbind (check_compatible k other) (\<lambda>_.
       let t0 = token_ids k; t1 = token_ids other;
           n = min (length t0) (length t1);
           matched_tokens = gallop t0 t1 n 0 1
       in if is_bigram k
          then let matched = min (matched_tokens - 1) (min (key_len k) (key_len other))
               in Inr (if 1 < page_size then matched div page_size * page_size else matched)
          else let matched = min matched_tokens (min (key_len k) (key_len other))
               in Inr (if page_size = 1 then matched else matched div page_size * page_size))"

text \<open>The dictionary key of a child: its first \<open>page_size\<close> units in its namespace. The source
  builds a token, a tuple of tokens or a tuple of pairs, paired with \<open>extra_key\<close> when there is
  one; within one cache the page size and the unit kind are fixed, so equality of those Python
  values is equality of the namespace and the unit list. Only the token slice of the last case
  tolerates a key shorter than a page.\<close>

type_synonym ckey = "string option \<times> lunit list"

definition child_key :: "nat \<Rightarrow> radix_key \<Rightarrow> ckey res" where
  "child_key page_size k =
     (let t = token_ids k in
      if is_bigram k
      then if length t < page_size + 1 \<and> 0 < page_size then Inl IndexError
           else Inr (extra_key k, map (\<lambda>j. Bigram (t ! j) (t ! (j + 1))) [0..<page_size])
      else if page_size = 1
      then if t = [] then Inl IndexError else Inr (extra_key k, [Tok (t ! 0)])
      else Inr (extra_key k, map Tok (take page_size t)))"

section \<open>Units\<close>

lemma raw_len_le: "raw_len k \<le> length (token_ids k)"
  by (auto simp: raw_len_def Let_def split: option.split)

lemma key_len_units [simp]: "length (units k) = key_len k"
  by (auto simp: units_def key_len_def Let_def)

lemma units_nth:
  "i < key_len k \<Longrightarrow> units k ! i =
     (if is_bigram k then Bigram (token_ids k ! i) (token_ids k ! (i + 1)) else Tok (token_ids k ! i))"
  using raw_len_le [of k]
  by (auto simp: units_def key_len_def Let_def split: if_splits)

lemma units_eqI:
  assumes "key_len k = length us"
    and "\<And>i. i < key_len k \<Longrightarrow> us ! i = (if is_bigram k
           then Bigram (token_ids k ! i) (token_ids k ! (i + 1)) else Tok (token_ids k ! i))"
  shows "units k = us"
  using assms by (intro nth_equalityI) (auto simp: units_nth)

lemma key_len_raw: "is_bigram k \<Longrightarrow> key_len k + 1 \<le> length (token_ids k) \<or> key_len k = 0"
  "\<not> is_bigram k \<Longrightarrow> key_len k \<le> length (token_ids k)"
  using raw_len_le [of k] by (auto simp: key_len_def Let_def)

lemma RadixKey_sel [simp]:
  "token_ids (RadixKey t e b l) = t" "extra_key (RadixKey t e b l) = e"
  "is_bigram (RadixKey t e b l) = b" "limit (RadixKey t e b l) = l"
  by (simp_all add: RadixKey_def)

lemma key_len_RadixKey_None [simp]:
  "key_len (RadixKey t e b None) = (if b then length t - 1 else length t)"
  by (auto simp: key_len_def raw_len_def Let_def)

lemma key_slice_sel [simp]:
  "extra_key (key_slice a b k) = extra_key k" "is_bigram (key_slice a b k) = is_bigram k"
  "limit (key_slice a b k) = None"
  by (simp_all add: key_slice_def Let_def)

lemma key_slice_len:
  "key_len (key_slice a b k) = min b (key_len k) - min a (key_len k)"
proof (cases "is_bigram k")
  case True
  then show ?thesis using key_len_raw(1) [OF True] by (auto simp: key_slice_def Let_def)
next
  case False
  then show ?thesis using key_len_raw(2) [OF False] by (auto simp: key_slice_def Let_def)
qed

lemma units_key_slice: "units (key_slice a b k) = slice a b (units k)"
proof (rule units_eqI)
  show "key_len (key_slice a b k) = length (slice a b (units k))"
    by (auto simp: key_slice_len)
next
  fix i
  assume "i < key_len (key_slice a b k)"
  then have i: "i < min b (key_len k) - min a (key_len k)" by (simp add: key_slice_len)
  then have a: "a < key_len k" "a + i < key_len k" "i < b - a" by auto
  have "slice a b (units k) ! i = units k ! (a + i)" using a by (simp add: nth_slice)
  also have "\<dots> = (if is_bigram k then Bigram (token_ids k ! (a + i)) (token_ids k ! (a + i + 1))
                   else Tok (token_ids k ! (a + i)))"
    using units_nth [OF a(2)] by simp
  also have "\<dots> = (if is_bigram (key_slice a b k)
      then Bigram (token_ids (key_slice a b k) ! i) (token_ids (key_slice a b k) ! (i + 1))
      else Tok (token_ids (key_slice a b k) ! i))"
    using a i key_len_raw [of k] by (auto simp: key_slice_def Let_def nth_slice)
  finally show "slice a b (units k) ! i = \<dots>" .
qed

lemma units_page_aligned:
  "0 < page_size \<Longrightarrow> units (page_aligned page_size k) = take (key_len k div page_size * page_size) (units k)"
  by (auto simp: page_aligned_def units_key_slice Let_def)

lemma page_aligned_sel [simp]:
  "extra_key (page_aligned p k) = extra_key k" "is_bigram (page_aligned p k) = is_bigram k"
  by (simp_all add: page_aligned_def Let_def)

lemma key_len_page_aligned:
  "0 < page_size \<Longrightarrow> key_len (page_aligned page_size k) = key_len k div page_size * page_size"
  by (simp add: key_len_units [symmetric] units_page_aligned del: key_len_units)

lemma child_key_units:
  assumes "0 < page_size" and "page_size \<le> key_len k"
  shows "child_key page_size k = Inr (extra_key k, take page_size (units k))"
proof (cases "is_bigram k")
  case True
  then have "page_size + 1 \<le> length (token_ids k)" using assms key_len_raw(1) [OF True] by auto
  moreover have "take page_size (units k) =
      map (\<lambda>j. Bigram (token_ids k ! j) (token_ids k ! (j + 1))) [0..<page_size]"
    using assms True by (intro nth_equalityI) (auto simp: units_nth)
  ultimately show ?thesis using True by (simp add: child_key_def Let_def)
next
  case False
  then have "page_size \<le> length (token_ids k)" using assms key_len_raw(2) [OF False] by auto
  moreover have "take page_size (units k) = map Tok (take page_size (token_ids k))"
    using assms False calculation by (intro nth_equalityI) (auto simp: units_nth)
  ultimately show ?thesis using False assms
    by (auto simp: child_key_def Let_def take_Suc_conv_app_nth)
qed

section \<open>Longest common prefix\<close>

fun lcp :: "'a list \<Rightarrow> 'a list \<Rightarrow> nat" where
  "lcp (x # xs) (y # ys) = (if x = y then Suc (lcp xs ys) else 0)"
| "lcp _ _ = 0"

lemma lcp_le: "lcp xs ys \<le> length xs" "lcp xs ys \<le> length ys"
  by (induction xs ys rule: lcp.induct) auto

lemma lcp_take: "take (lcp xs ys) xs = take (lcp xs ys) ys"
  by (induction xs ys rule: lcp.induct) auto

lemma lcp_nth: "i < lcp xs ys \<Longrightarrow> xs ! i = ys ! i"
  by (induction xs ys arbitrary: i rule: lcp.induct) (auto simp: nth_Cons' split: if_splits)

lemma lcp_diff: "lcp xs ys < length xs \<Longrightarrow> lcp xs ys < length ys \<Longrightarrow> xs ! lcp xs ys \<noteq> ys ! lcp xs ys"
  by (induction xs ys rule: lcp.induct) auto

lemma lcp_eqI:
  assumes "\<And>i. i < m \<Longrightarrow> xs ! i = ys ! i" and "m \<le> length xs" and "m \<le> length ys"
    and "m < length xs \<Longrightarrow> m < length ys \<Longrightarrow> xs ! m \<noteq> ys ! m"
  shows "lcp xs ys = m"
proof (rule linorder_cases [of "lcp xs ys" m])
  assume "lcp xs ys < m"
  then show ?thesis using lcp_diff [of xs ys] assms(1) [of "lcp xs ys"] assms(2,3) by simp
next
  assume "m < lcp xs ys"
  then show ?thesis using lcp_nth [of m xs ys] assms(4) lcp_le [of xs ys] by simp
qed simp

lemma lcp_commute: "lcp xs ys = lcp ys xs"
  by (induction xs ys rule: lcp.induct) auto

lemma le_lcp_iff:
  "m \<le> lcp xs ys \<longleftrightarrow> m \<le> length xs \<and> m \<le> length ys \<and> take m xs = take m ys"
proof (induction xs ys arbitrary: m rule: lcp.induct)
  case (1 x xs y ys)
  then show ?case by (cases m) auto
qed auto

text \<open>A window comparison decides whether the common prefix reaches its end.\<close>

lemma slice_eq_iff_lcp:
  assumes "lo \<le> lcp t0 t1" and "lo \<le> hi" and "hi \<le> length t0" and "hi \<le> length t1"
  shows "slice lo hi t0 = slice lo hi t1 \<longleftrightarrow> hi \<le> lcp t0 t1"
proof -
  have eq: "take hi t = take lo t @ slice lo hi t" for t :: "'a list"
    using assms(2) by (metis le_add_diff_inverse slice_def take_add)
  have "take lo t0 = take lo t1" using assms(1) by (simp add: le_lcp_iff)
  then have "slice lo hi t0 = slice lo hi t1 \<longleftrightarrow> take hi t0 = take hi t1" by (simp add: eq)
  then show ?thesis using assms(3,4) by (simp add: le_lcp_iff)
qed

lemma bisect_window_lcp:
  "lo \<le> lcp t0 t1 \<Longrightarrow> lcp t0 t1 < hi \<Longrightarrow> hi \<le> length t0 \<Longrightarrow> hi \<le> length t1 \<Longrightarrow>
   bisect_window t0 t1 lo hi = lcp t0 t1"
proof (induction t0 t1 lo hi rule: bisect_window.induct)
  case (1 t0 t1 lo hi)
  let ?mid = "(lo + hi) div 2"
  show ?case
  proof (cases "1 < hi - lo")
    case False
    then have "lcp t0 t1 = lo" using "1.prems" by linarith
    then show ?thesis using False by (subst bisect_window.simps) simp
  next
    case True
    then have mid: "lo \<le> ?mid" "?mid < hi" by auto
    have "slice lo ?mid t0 = slice lo ?mid t1 \<longleftrightarrow> ?mid \<le> lcp t0 t1"
      using slice_eq_iff_lcp [OF "1.prems"(1) mid(1)] mid(2) "1.prems"(3,4) by simp
    then show ?thesis
      using True "1.IH" [OF True refl] "1.prems" mid
      by (subst bisect_window.simps) (auto simp: Let_def)
  qed
qed

lemma gallop_lcp:
  "lo \<le> lcp t0 t1 \<Longrightarrow> n = min (length t0) (length t1) \<Longrightarrow> 0 < step \<Longrightarrow> lo \<le> n \<Longrightarrow>
   gallop t0 t1 n lo step = lcp t0 t1"
proof (induction t0 t1 n lo step rule: gallop.induct)
  case (1 t0 t1 n lo step)
  let ?hi = "if lo + step < n then lo + step else n"
  show ?case
  proof (cases "lo < n")
    case False
    then have "gallop t0 t1 n lo step = n" by (subst gallop.simps) (simp only: simp_thms if_False)
    moreover have "lcp t0 t1 = n" using False "1.prems" lcp_le [of t0 t1] by linarith
    ultimately show ?thesis by simp
  next
    case True
    have hi: "lo \<le> ?hi" "?hi \<le> length t0" "?hi \<le> length t1" "?hi \<le> n"
      using True "1.prems"(2) by auto
    note dec = slice_eq_iff_lcp [OF "1.prems"(1) hi(1-3)]
    have cond: "lo < n \<and> 0 < step" using True "1.prems"(3) by simp
    show ?thesis
    proof (cases "slice lo ?hi t0 = slice lo ?hi t1")
      case eq: True
      then have "gallop t0 t1 n lo step = gallop t0 t1 n ?hi (step * 2)"
        using cond by (subst gallop.simps) (simp only: Let_def if_True if_False eq simp_thms)
      also have "\<dots> = lcp t0 t1"
        using "1.IH" [OF cond refl] eq dec hi(4) "1.prems" by auto
      finally show ?thesis .
    next
      case ne: False
      then have "gallop t0 t1 n lo step = bisect_window t0 t1 lo ?hi"
        using cond by (subst gallop.simps) (simp only: Let_def if_True ne simp_thms)
      also have "\<dots> = lcp t0 t1"
        using bisect_window_lcp [OF "1.prems"(1) _ hi(2,3)] ne dec by linarith
      finally show ?thesis .
    qed
  qed
qed

text \<open>Units agree as long as the tokens they are made of do.\<close>

lemma lcp_units_bigram:
  assumes "is_bigram k" and "is_bigram other"
  shows "lcp (units k) (units other) =
         min (lcp (token_ids k) (token_ids other) - 1) (min (key_len k) (key_len other))"
    (is "_ = min (?m - 1) _")
proof (rule lcp_eqI)
  let ?M = "min (?m - 1) (min (key_len k) (key_len other))"
  note raw = key_len_raw(1) [OF assms(1)] key_len_raw(1) [OF assms(2)]
  show "units k ! i = units other ! i" if "i < ?M" for i
  proof -
    have "i < ?m" "i + 1 < ?m" using that by linarith+
    then show ?thesis using that assms lcp_nth [of i "token_ids k" "token_ids other"]
        lcp_nth [of "i + 1" "token_ids k" "token_ids other"]
      by (simp add: units_nth)
  qed
  show "units k ! ?M \<noteq> units other ! ?M"
    if less: "?M < length (units k)" "?M < length (units other)"
  proof -
    have M: "?M = ?m - 1" using less unfolding key_len_units by linarith
    have "?m < length (token_ids k)" "?m < length (token_ids other)"
      using less raw M by auto
    then have "token_ids k ! ?m \<noteq> token_ids other ! ?m" by (rule lcp_diff)
    moreover have "?m = ?M \<or> ?m = ?M + 1" using M by linarith
    moreover have "units k ! ?M = Bigram (token_ids k ! ?M) (token_ids k ! (?M + 1))"
      "units other ! ?M = Bigram (token_ids other ! ?M) (token_ids other ! (?M + 1))"
      using units_nth [of ?M k] units_nth [of ?M other] less assms unfolding key_len_units by auto
    ultimately show ?thesis by (metis lunit.inject(2))
  qed
qed simp_all

lemma lcp_units_tokens:
  assumes "\<not> is_bigram k" and "\<not> is_bigram other"
  shows "lcp (units k) (units other) =
         min (lcp (token_ids k) (token_ids other)) (min (key_len k) (key_len other))"
    (is "_ = min ?m _")
proof (rule lcp_eqI)
  let ?M = "min ?m (min (key_len k) (key_len other))"
  note raw = key_len_raw(2) [OF assms(1)] key_len_raw(2) [OF assms(2)]
  show "units k ! i = units other ! i" if "i < ?M" for i
    using that assms lcp_nth [of i "token_ids k" "token_ids other"] by (simp add: units_nth)
  show "units k ! ?M \<noteq> units other ! ?M"
    if less: "?M < length (units k)" "?M < length (units other)"
  proof -
    have M: "?M = ?m" using less unfolding key_len_units by linarith
    have "?m < length (token_ids k)" "?m < length (token_ids other)"
      using less raw M by auto
    then have "token_ids k ! ?m \<noteq> token_ids other ! ?m" by (rule lcp_diff)
    then show ?thesis using less assms M by (simp add: units_nth)
  qed
qed simp_all

lemma key_match_lcp:
  assumes "extra_key k = extra_key other" and "is_bigram k = is_bigram other" and "0 < page_size"
  shows "key_match k other page_size =
         Inr (lcp (units k) (units other) div page_size * page_size)"
proof -
  have "gallop (token_ids k) (token_ids other) (min (length (token_ids k)) (length (token_ids other)))
          0 1 = lcp (token_ids k) (token_ids other)"
    by (rule gallop_lcp) auto
  then show ?thesis
    using assms lcp_units_bigram [of k other] lcp_units_tokens [of k other]
    by (auto simp: key_match_def check_compatible_def Let_def)
qed

section \<open>Properties\<close>

text \<open>C19: the galloping search of \<open>RadixKey.match\<close> computes the longest common prefix. For two
  keys of one namespace and one unit kind, with or without a token cap and in both the token
  and the bigram view, the result is the number of leading units the keys share, rounded down
  to whole pages; keys of different namespaces are refused.\<close>

theorem match_is_longest_common_prefix:
  assumes "0 < page_size" and "is_bigram k = is_bigram other"
  shows "key_match k other page_size =
         (if extra_key k = extra_key other
          then Inr (lcp (units k) (units other) div page_size * page_size) else Inl ValueError)"
  using key_match_lcp [OF _ assms(2,1)] by (simp add: key_match_def check_compatible_def)

theorem match_is_longest_common_prefix_witness:
  "key_match (RadixKey [1, 2, 3, 4, 5] None True (Some 4)) (RadixKey [1, 2, 3, 9] None True None) 2
   = Inr 2"
  using match_is_longest_common_prefix [of 2 "RadixKey [1, 2, 3, 4, 5] None True (Some 4)"
      "RadixKey [1, 2, 3, 9] None True None"]
  by (simp add: units_def raw_len_def Let_def upt_rec)

end
