(* ===== verification/Radix_Tree.thy ===== *)
theory Radix_Tree
  imports Radix_Key "HOL-Library.AList"
begin

text \<open>
  The radix prefix cache: class \<open>RadixCache\<close> of
  \<open>python/sglang/srt/mem_cache/radix_cache.py\<close> with its event mixin
  (\<open>mem_cache/events.py\<close>), the hash helpers of \<open>mem_cache/utils.py\<close> and the leaf bookkeeping of
  the session mixin (\<open>mem_cache/session_radix_cache.py\<close>). This theory holds the definitions.

  State. Tree nodes are mutable and point to each other, so they live in an explicit store:
  \<open>nodes\<close> maps the \<open>id\<close> a \<open>TreeNode\<close> takes from the class counter to its record, and a
  reference is an id. A node removed from the tree leaves the store; what the source still
  reads through a local variable afterwards is read from the record taken before. The sets
  \<open>evictable_leaves\<close>, \<open>session_ids\<close> and the values of \<open>_session_leaves\<close> are duplicate-free
  lists, dictionaries are association lists in insertion order.

  Parameters. \<open>monotonic\<close> gives the successive readings of \<open>time.monotonic\<close>;
  \<open>get_hash_str\<close> is the native SHA-256 page hash, which is not part of the modelled sources.

  Every operation returns the exception it may raise. A loop carries fuel and ends in
  \<open>Diverges\<close> without it; the callers pass the length of the key, or the node counter for the
  walks towards the root, and the lemmas of \<open>Radix_Ops\<close> show that this is enough.
\<close>

datatype radix_error = Py py_error | AttributeError | TypeError | Diverges

type_synonym 'a rr = "radix_error + 'a"

definition lift_py :: "'a res \<Rightarrow> 'a rr" where
  "lift_py m = (case m of Inl e \<Rightarrow> Inl (Py e) | Inr x \<Rightarrow> Inr x)"

lemma lift_py_simps [simp]: "lift_py (Inl e) = Inl (Py e)" "lift_py (Inr x) = Inr x"
  by (simp_all add: lift_py_def)

section \<open>Data\<close>

datatype eviction_strategy = LRU | LFU | FIFO | MRU | FILO | PRIORITY | SLRU nat

record radix_config =
  disable :: bool
  page_size :: nat
  enable_kv_cache_events :: bool
  enable_session_radix_cache :: bool
  is_eagle :: bool
  disable_finished_insert :: bool
  strategy :: eviction_strategy
  monotonic :: "nat \<Rightarrow> int"
  get_hash_str :: "radix_key \<Rightarrow> string option \<Rightarrow> nat \<Rightarrow> string list"

record tree_node =
  children :: "(ckey \<times> nat) list"
  parent :: "nat option"
  nkey :: radix_key
  nvalue :: "nat list option"
  lock_ref :: int
  last_access_time :: int
  creation_time :: int
  hit_count :: nat
  host_ref_counter :: nat
  hash_value :: "string list option"
  node_priority :: int
  session_ids :: "string list option"

datatype kv_event =
    BlockStored (block_hash: int) (parent_block_hash: "int option") (block_tokens: "lunit list")
      (block_size: nat)
  | BlockRemoved (block_hashes: "int list")
  | AllBlocksCleared

record radix_cache =
  nodes :: "nat \<rightharpoonup> tree_node"
  root_node :: nat
  node_counter :: nat
  ticks :: nat
  evictable_sz :: int
  protected_sz :: int
  evictable_leaves :: "nat list"
  kv_event_queue :: "kv_event list"
  session_leaves :: "(string \<times> nat list) list"
  closed_session_ids :: "string list"

definition evicted :: "tree_node \<Rightarrow> bool" where
  "evicted n \<longleftrightarrow> nvalue n = None"

definition protect_host :: "tree_node \<Rightarrow> tree_node" where
  "protect_host n = n\<lparr>host_ref_counter := host_ref_counter n + 1\<rparr>"

definition release_host :: "tree_node \<Rightarrow> tree_node rr" where
  "release_host n =
     (if 0 < host_ref_counter n then Inr (n\<lparr>host_ref_counter := host_ref_counter n - 1\<rparr>)
      else Inl (Py RuntimeError))"

definition get_last_hash_value :: "tree_node \<Rightarrow> string option" where
  "get_last_hash_value n =
     (case hash_value n of None \<Rightarrow> None | Some hs \<Rightarrow> if hs = [] then None else Some (last hs))"

section \<open>Store access\<close>

definition get_node :: "nat \<Rightarrow> radix_cache \<Rightarrow> tree_node rr" where
  "get_node i c = (case nodes c i of None \<Rightarrow> Inl AttributeError | Some n \<Rightarrow> Inr n)"

definition upd_node :: "nat \<Rightarrow> (tree_node \<Rightarrow> tree_node) \<Rightarrow> radix_cache \<Rightarrow> radix_cache" where
  "upd_node i f c =
     (case nodes c i of None \<Rightarrow> c | Some n \<Rightarrow> c\<lparr>nodes := (nodes c)(i \<mapsto> f n)\<rparr>)"

definition get_value :: "tree_node \<Rightarrow> nat list rr" where
  "get_value n = (case nvalue n of None \<Rightarrow> Inl TypeError | Some v \<Rightarrow> Inr v)"

definition empty_key :: radix_key where
  "empty_key = RadixKey [] None False None"

text \<open>\<open>TreeNode(priority=...)\<close>: two clock readings, a fresh id. The key and value are \<open>None\<close> in
  the source until the caller assigns them.\<close>

definition TreeNode :: "radix_config \<Rightarrow> int \<Rightarrow> radix_cache \<Rightarrow> nat \<times> tree_node \<times> radix_cache" where
  "TreeNode cfg prio c =
     (node_counter c,
      \<lparr>children = [], parent = None, nkey = empty_key, nvalue = None, lock_ref = 0,
       last_access_time = monotonic cfg (ticks c), creation_time = monotonic cfg (ticks c + 1),
       hit_count = 0, host_ref_counter = 0, hash_value = None, node_priority = prio,
       session_ids = None\<rparr>,
      c\<lparr>node_counter := node_counter c + 1, ticks := ticks c + 2\<rparr>)"

definition read_clock :: "radix_config \<Rightarrow> radix_cache \<Rightarrow> int \<times> radix_cache" where
  "read_clock cfg c = (monotonic cfg (ticks c), c\<lparr>ticks := ticks c + 1\<rparr>)"

section \<open>Hashes and events\<close>

fun hex_digit :: "char \<Rightarrow> nat option" where
  "hex_digit ch =
     (let n = (of_char ch :: nat) in
      if 48 \<le> n \<and> n \<le> 57 then Some (n - 48)
      else if 97 \<le> n \<and> n \<le> 102 then Some (n - 87)
      else if 65 \<le> n \<and> n \<le> 70 then Some (n - 55)
      else None)"

fun parse_hex :: "string \<Rightarrow> nat \<Rightarrow> nat res" where
  "parse_hex [] acc = Inr acc"
| "parse_hex (ch # cs) acc =
     (case hex_digit ch of None \<Rightarrow> Inl ValueError | Some d \<Rightarrow> parse_hex cs (acc * 16 + d))"

text \<open>\<open>int(hash_str[:16], 16)\<close> folded into the signed 64-bit range; the hash strings are SHA-256
  digests, whose characters are hexadecimal digits.\<close>

definition hash_str_to_int64 :: "string \<Rightarrow> int res" where
  "hash_str_to_int64 s =
     (if s = [] then Inl ValueError
      else rbind (parse_hex (take 16 s) 0) (\<lambda>u.
        Inr (if 2 ^ 63 \<le> u then int u - 2 ^ 64 else int u)))"

definition compute_node_hash_values :: "radix_config \<Rightarrow> tree_node \<Rightarrow> radix_cache \<Rightarrow> string list" where
  "compute_node_hash_values cfg n c =
     (let parent_hash =
        (case parent n of
           None \<Rightarrow> None
         | Some p \<Rightarrow> (case nodes c p of
             None \<Rightarrow> None
           | Some pn \<Rightarrow> (case hash_value pn of
               None \<Rightarrow> None
             | Some hs \<Rightarrow> if 0 < key_len (nkey pn) \<and> hs \<noteq> [] then Some (last hs) else None)))
      in get_hash_str cfg (nkey n) parent_hash (page_size cfg))"

definition split_node_hash_value ::
  "string list option \<Rightarrow> nat \<Rightarrow> nat \<Rightarrow> string list option \<times> string list option" where
  "split_node_hash_value hv split_len ps =
     (case hv of
        None \<Rightarrow> (None, None)
      | Some hs \<Rightarrow>
          let split_pages = (if ps = 1 then split_len else split_len div ps)
          in (Some (take split_pages hs), Some (drop split_pages hs)))"

text \<open>The page starts \<open>range(0, logical_len, page_size)\<close>.\<close>

definition page_starts :: "nat \<Rightarrow> nat \<Rightarrow> nat list" where
  "page_starts ps n = map (\<lambda>j. j * ps) [0..<(n + ps - 1) div ps]"

fun store_events ::
  "radix_key \<Rightarrow> nat \<Rightarrow> string list \<Rightarrow> int option \<Rightarrow> nat list \<Rightarrow> nat \<Rightarrow> kv_event list res" where
  "store_events k ps hs parent_hash [] page_index = Inr []"
| "store_events k ps hs parent_hash (start # starts) page_index =
     (let stop = min (start + ps) (key_len k) in
      if stop \<le> start then store_events k ps hs parent_hash starts page_index
      else
        let raw = token_ids k;
            page_tokens = (if is_bigram k
              then map (\<lambda>j. Bigram (raw ! j) (raw ! (j + 1))) [start..<stop]
              else map Tok (slice start stop raw))
        in if length hs \<le> page_index then Inl IndexError
           else rbind (hash_str_to_int64 (hs ! page_index)) (\<lambda>bh.
                rbind (store_events k ps hs (Some bh) starts (page_index + 1)) (\<lambda>evs.
                Inr (BlockStored bh parent_hash page_tokens (length page_tokens) # evs))))"

definition record_store_event :: "radix_config \<Rightarrow> nat \<Rightarrow> radix_cache \<Rightarrow> radix_cache rr" where
  "record_store_event cfg i c =
     (if \<not> enable_kv_cache_events cfg then Inr c
      else rbind (get_node i c) (\<lambda>n.
        let hs = (case hash_value n of
                    None \<Rightarrow> compute_node_hash_values cfg n c | Some hs \<Rightarrow> hs);
            c1 = upd_node i (\<lambda>n. n\<lparr>hash_value := Some hs\<rparr>) c;
            parent_hashes =
              (case parent n of
                 None \<Rightarrow> []
               | Some p \<Rightarrow>
                   if p = root_node c then []
                   else (case nodes c1 p of
                           None \<Rightarrow> []
                         | Some pn \<Rightarrow> (case hash_value pn of None \<Rightarrow> [] | Some ph \<Rightarrow> ph)))
        in rbind (if parent_hashes = [] then Inr None
                  else lift_py (rbind (hash_str_to_int64 (last parent_hashes)) (\<lambda>h. Inr (Some h))))
             (\<lambda>ph.
           rbind (lift_py (store_events (nkey n) (page_size cfg) hs ph
                             (page_starts (page_size cfg) (key_len (nkey n))) 0)) (\<lambda>evs.
           Inr (c1\<lparr>kv_event_queue := kv_event_queue c1 @ evs\<rparr>)))))"

fun remove_hashes :: "string list \<Rightarrow> nat \<Rightarrow> nat \<Rightarrow> nat list \<Rightarrow> nat \<Rightarrow> int list res" where
  "remove_hashes hs n ps [] page_index = Inr []"
| "remove_hashes hs n ps (start # starts) page_index =
     (if min (start + ps) n \<le> start then remove_hashes hs n ps starts page_index
      else if length hs \<le> page_index then Inl IndexError
      else rbind (hash_str_to_int64 (hs ! page_index)) (\<lambda>h.
           rbind (remove_hashes hs n ps starts (page_index + 1)) (\<lambda>rest. Inr (h # rest))))"

text \<open>\<open>_record_remove_event\<close> is called on a node that has just left the tree: it is passed as a
  record.\<close>

definition record_remove_event :: "radix_config \<Rightarrow> tree_node \<Rightarrow> radix_cache \<Rightarrow> radix_cache rr" where
  "record_remove_event cfg n c =
     (if \<not> enable_kv_cache_events cfg then Inr c
      else
        let hs = (case hash_value n of
                    None \<Rightarrow> compute_node_hash_values cfg n c | Some hs \<Rightarrow> hs)
        in rbind (lift_py (remove_hashes hs (key_len (nkey n)) (page_size cfg)
                             (page_starts (page_size cfg) (key_len (nkey n))) 0)) (\<lambda>bhs.
           Inr (if bhs = [] then c
                else c\<lparr>kv_event_queue := kv_event_queue c @ [BlockRemoved bhs]\<rparr>)))"

definition record_all_cleared_event :: "radix_config \<Rightarrow> radix_cache \<Rightarrow> radix_cache" where
  "record_all_cleared_event cfg c =
     (if enable_kv_cache_events cfg
      then c\<lparr>kv_event_queue := kv_event_queue c @ [AllBlocksCleared]\<rparr> else c)"

definition take_events :: "radix_config \<Rightarrow> radix_cache \<Rightarrow> kv_event list \<times> radix_cache" where
  "take_events cfg c =
     (if \<not> enable_kv_cache_events cfg then ([], c)
      else (kv_event_queue c, c\<lparr>kv_event_queue := []\<rparr>))"

section \<open>Leaf bookkeeping\<close>

definition set_add :: "'a \<Rightarrow> 'a list \<Rightarrow> 'a list" where
  "set_add x xs = (if x \<in> set xs then xs else xs @ [x])"

definition set_discard :: "'a \<Rightarrow> 'a list \<Rightarrow> 'a list" where
  "set_discard x xs = filter (\<lambda>y. y \<noteq> x) xs"

definition update_leaf_status :: "nat \<Rightarrow> radix_cache \<Rightarrow> radix_cache rr" where
  "update_leaf_status i c =
     rbind (get_node i c) (\<lambda>n.
       if evicted n \<or> 0 < lock_ref n
       then Inr (c\<lparr>evictable_leaves := set_discard i (evictable_leaves c)\<rparr>)
       else if \<exists>(k, j)\<in>set (children n). (case nodes c j of None \<Rightarrow> False | Some m \<Rightarrow> \<not> evicted m)
       then Inr (c\<lparr>evictable_leaves := set_discard i (evictable_leaves c)\<rparr>)
       else Inr (c\<lparr>evictable_leaves := set_add i (evictable_leaves c)\<rparr>))"

text \<open>\<open>_discard_session_leaf\<close>: the node leaves the index of each of its sessions; an index that
  becomes empty is dropped unless the session is closed.\<close>

fun discard_from_sessions ::
  "nat \<Rightarrow> string list \<Rightarrow> string list \<Rightarrow> (string \<times> nat list) list \<Rightarrow> (string \<times> nat list) list" where
  "discard_from_sessions i closed [] sl = sl"
| "discard_from_sessions i closed (sid # sids) sl =
     discard_from_sessions i closed sids
       (case map_of sl sid of
          None \<Rightarrow> sl
        | Some leaves \<Rightarrow>
            let leaves' = set_discard i leaves in
            if leaves' = [] \<and> sid \<notin> set closed then AList.delete sid sl
            else AList.update sid leaves' sl)"

definition discard_session_leaf :: "nat \<Rightarrow> radix_cache \<Rightarrow> radix_cache" where
  "discard_session_leaf i c =
     (case nodes c i of
        None \<Rightarrow> c
      | Some n \<Rightarrow> (case session_ids n of
          None \<Rightarrow> c
        | Some sids \<Rightarrow>
            if sids = [] then c
            else upd_node i (\<lambda>n. n\<lparr>session_ids := None\<rparr>)
                   (c\<lparr>session_leaves :=
                        discard_from_sessions i (closed_session_ids c) sids (session_leaves c)\<rparr>)))"

section \<open>Reset\<close>

definition maxsize :: int where
  "maxsize = 2 ^ 63 - 1"

definition reset :: "radix_config \<Rightarrow> radix_cache \<Rightarrow> radix_cache" where
  "reset cfg c =
     (let (i, n, c1) = TreeNode cfg (- maxsize) c;
          root = n\<lparr>nkey := empty_key, nvalue := Some [], lock_ref := 1, hash_value := Some []\<rparr>
      in record_all_cleared_event cfg
           (c1\<lparr>nodes := [i \<mapsto> root], root_node := i, evictable_sz := 0, protected_sz := 0,
               evictable_leaves := [], session_leaves := [], closed_session_ids := []\<rparr>))"

section \<open>Matching\<close>

definition split_node ::
  "radix_config \<Rightarrow> radix_key \<Rightarrow> nat \<Rightarrow> nat \<Rightarrow> radix_cache \<Rightarrow> (nat \<times> radix_cache) rr" where
  "split_node cfg k ch split_len c =
     rbind (get_node ch c) (\<lambda>n.
     rbind (lift_py (child_key (page_size cfg) (key_slice split_len (key_len k) k))) (\<lambda>rest_ck.
     rbind (get_value n) (\<lambda>v.
     rbind (lift_py (child_key (page_size cfg) k)) (\<lambda>ck.
     case parent n of
       None \<Rightarrow> Inl AttributeError
     | Some p \<Rightarrow>
         let (i, n0, c1) = TreeNode cfg (node_priority n) c;
             (new_hash, ch_hash) = split_node_hash_value (hash_value n) split_len (page_size cfg);
             new_node = n0\<lparr>hit_count := hit_count n, children := [(rest_ck, ch)], parent := Some p,
                           lock_ref := lock_ref n, nkey := key_slice 0 split_len (nkey n),
                           nvalue := Some (take split_len v), hash_value := new_hash\<rparr>;
             n' = n\<lparr>parent := Some i, nkey := key_slice split_len (key_len (nkey n)) (nkey n),
                    nvalue := Some (drop split_len v), hash_value := ch_hash\<rparr>;
             c2 = c1\<lparr>nodes := (nodes c1)(i \<mapsto> new_node, ch \<mapsto> n')\<rparr>
         in Inr (i, upd_node p (\<lambda>pn. pn\<lparr>children := AList.update ck i (children pn)\<rparr>) c2)))))"

definition key_rest :: "nat \<Rightarrow> radix_key \<Rightarrow> radix_key" where
  "key_rest m k = key_slice m (key_len k) k"

fun match_loop ::
  "radix_config \<Rightarrow> nat \<Rightarrow> nat \<Rightarrow> radix_key \<Rightarrow> ckey \<Rightarrow> int \<Rightarrow> nat list list \<Rightarrow> radix_cache \<Rightarrow>
   ((nat list list \<times> nat) \<times> radix_cache) rr" where
  "match_loop cfg 0 i k ck access_time acc c = Inl Diverges"
| "match_loop cfg (Suc fuel) i k ck access_time acc c =
     rbind (get_node i c) (\<lambda>n.
     case (if 0 < key_len k then map_of (children n) ck else None) of
       None \<Rightarrow> Inr ((acc, i), c)
     | Some ch \<Rightarrow>
         let c1 = upd_node ch (\<lambda>m. m\<lparr>last_access_time := access_time\<rparr>) c in
         rbind (get_node ch c1) (\<lambda>m.
         rbind (lift_py (key_match (nkey m) k (page_size cfg))) (\<lambda>prefix_len.
         if prefix_len < key_len (nkey m)
         then rbind (split_node cfg (nkey m) ch prefix_len c1) (\<lambda>(new_node, c2).
              rbind (get_node new_node c2) (\<lambda>nn.
              rbind (get_value nn) (\<lambda>v. Inr ((acc @ [v], new_node), c2))))
         else rbind (get_value m) (\<lambda>v.
              let k' = key_rest prefix_len k in
              rbind (if 0 < key_len k' then lift_py (child_key (page_size cfg) k') else Inr ck)
                (\<lambda>ck'. match_loop cfg fuel ch k' ck' access_time (acc @ [v]) c1)))))"

definition match_prefix_helper ::
  "radix_config \<Rightarrow> nat \<Rightarrow> radix_key \<Rightarrow> radix_cache \<Rightarrow> ((nat list list \<times> nat) \<times> radix_cache) rr" where
  "match_prefix_helper cfg i k c =
     (let (access_time, c1) = read_clock cfg c;
          c2 = upd_node i (\<lambda>n. n\<lparr>last_access_time := access_time\<rparr>) c1
      in rbind (lift_py (child_key (page_size cfg) k)) (\<lambda>ck.
           match_loop cfg (Suc (key_len k)) i k ck access_time [] c2))"

text \<open>\<open>MatchResult\<close>: the concatenated KV indices and the last node (\<open>last_device_node\<close>,
  \<open>last_host_node\<close> and \<open>best_match_node\<close> are the same node in this cache).\<close>

definition match_prefix ::
  "radix_config \<Rightarrow> radix_key \<Rightarrow> radix_cache \<Rightarrow> ((nat list \<times> nat) \<times> radix_cache) rr" where
  "match_prefix cfg k c =
     (let (k1, _) = maybe_to_bigram_view (is_eagle cfg) k (None :: nat list option) in
      if disable cfg \<or> key_len k1 = 0 then Inr (([], root_node c), c)
      else
        let k2 = page_aligned (page_size cfg) k1 in
        if key_len k2 = 0 then Inr (([], root_node c), c)
        else rbind (match_prefix_helper cfg (root_node c) k2 c) (\<lambda>((vals, last_node), c').
             Inr ((concat vals, last_node), c')))"

section \<open>Insertion\<close>

definition inc_hit_count :: "bool \<Rightarrow> tree_node \<Rightarrow> tree_node" where
  "inc_hit_count chunked n = (if chunked then n else n\<lparr>hit_count := hit_count n + 1\<rparr>)"

definition raise_priority :: "int \<Rightarrow> tree_node \<Rightarrow> tree_node" where
  "raise_priority prio n = n\<lparr>node_priority := max (node_priority n) prio\<rparr>"

fun insert_loop ::
  "radix_config \<Rightarrow> nat \<Rightarrow> nat \<Rightarrow> radix_key \<Rightarrow> nat list \<Rightarrow> int \<Rightarrow> bool \<Rightarrow> ckey \<Rightarrow> int \<Rightarrow> nat \<Rightarrow>
   radix_cache \<Rightarrow> ((nat \<times> radix_key \<times> nat list \<times> ckey \<times> nat) \<times> radix_cache) rr" where
  "insert_loop cfg 0 i k val prio chunked ck access_time total_prefix c = Inl Diverges"
| "insert_loop cfg (Suc fuel) i k val prio chunked ck access_time total_prefix c =
     rbind (get_node i c) (\<lambda>n.
     case (if 0 < key_len k then map_of (children n) ck else None) of
       None \<Rightarrow> Inr ((i, k, val, ck, total_prefix), c)
     | Some ch \<Rightarrow>
         let c1 = upd_node ch (\<lambda>m. m\<lparr>last_access_time := access_time\<rparr>) c in
         rbind (get_node ch c1) (\<lambda>m.
         rbind (lift_py (key_match (nkey m) k (page_size cfg))) (\<lambda>prefix_len.
         let k' = key_rest prefix_len k;
             val' = drop prefix_len val
         in rbind (if prefix_len < key_len (nkey m)
                   then split_node cfg (nkey m) ch prefix_len c1
                   else Inr (ch, c1)) (\<lambda>(j, c2).
            let c3 = upd_node j (\<lambda>m. inc_hit_count chunked (raise_priority prio m)) c2 in
            rbind (if 0 < key_len k' then lift_py (child_key (page_size cfg) k') else Inr ck)
              (\<lambda>ck'. insert_loop cfg fuel j k' val' prio chunked ck' access_time
                       (total_prefix + prefix_len) c3)))))"

definition add_child ::
  "radix_config \<Rightarrow> nat \<Rightarrow> ckey \<Rightarrow> radix_key \<Rightarrow> nat list \<Rightarrow> int \<Rightarrow> bool \<Rightarrow> radix_cache \<Rightarrow>
   (nat \<times> radix_cache) rr" where
  "add_child cfg i ck k val prio chunked c =
     (let (j, n0, c1) = TreeNode cfg prio c;
          new_node = inc_hit_count chunked (n0\<lparr>parent := Some i, nkey := k, nvalue := Some val\<rparr>);
          c2 = c1\<lparr>nodes := (nodes c1)(j \<mapsto> new_node)\<rparr>;
          c3 = upd_node i (\<lambda>n. n\<lparr>children := AList.update ck j (children n)\<rparr>) c2;
          c4 = c3\<lparr>evictable_sz := evictable_sz c3 + int (key_len k)\<rparr>
      in rbind (update_leaf_status i c4) (\<lambda>c5.
         rbind (update_leaf_status j c5) (\<lambda>c6.
         rbind (record_store_event cfg j c6) (\<lambda>c7. Inr (j, c7)))))"

definition insert_helper ::
  "radix_config \<Rightarrow> nat \<Rightarrow> radix_key \<Rightarrow> nat list \<Rightarrow> int \<Rightarrow> bool \<Rightarrow> radix_cache \<Rightarrow>
   ((nat \<times> nat) \<times> radix_cache) rr" where
  "insert_helper cfg i k val prio chunked c =
     (let (access_time, c1) = read_clock cfg c;
          c2 = upd_node i (\<lambda>n. raise_priority prio (n\<lparr>last_access_time := access_time\<rparr>)) c1
      in if key_len k = 0 then Inr ((0, i), c2)
         else rbind (lift_py (child_key (page_size cfg) k)) (\<lambda>ck.
              rbind (insert_loop cfg (Suc (key_len k)) i k val prio chunked ck access_time 0 c2)
                (\<lambda>((j, k', val', ck', total_prefix), c3).
              if 0 < key_len k'
              then rbind (add_child cfg j ck' k' val' prio chunked c3) (\<lambda>(new_node, c4).
                     Inr ((total_prefix, new_node), c4))
              else Inr ((total_prefix, j), c3))))"

text \<open>\<open>insert\<close>: \<open>InsertResult\<close> is the matched length and the last node, which is absent when the
  cache is disabled. Without a value the token ids stand in for it.\<close>

definition radix_insert ::
  "radix_config \<Rightarrow> radix_key \<Rightarrow> nat list option \<Rightarrow> int \<Rightarrow> bool \<Rightarrow> radix_cache \<Rightarrow>
   ((nat \<times> nat option) \<times> radix_cache) rr" where
  "radix_insert cfg k val prio chunked c =
     (if disable cfg then Inr ((0, None), c)
      else
        let (k1, val1) = maybe_to_bigram_view (is_eagle cfg) k val;
            k2 = page_aligned (page_size cfg) k1;
            val2 = (case val1 of Some v \<Rightarrow> take (key_len k2) v
                    | None \<Rightarrow> take (key_len k2) (token_ids k2))
        in rbind (insert_helper cfg (root_node c) k2 val2 prio chunked c) (\<lambda>((m, j), c').
           Inr ((m, Some j), c')))"

section \<open>Locks\<close>

fun inc_lock_loop :: "nat \<Rightarrow> nat \<Rightarrow> int \<Rightarrow> radix_cache \<Rightarrow> (int \<times> radix_cache) rr" where
  "inc_lock_loop 0 i delta c = Inl Diverges"
| "inc_lock_loop (Suc fuel) i delta c =
     (if i = root_node c then Inr (delta, c)
      else rbind (get_node i c) (\<lambda>n.
        let len = int (key_len (nkey n));
            first = (lock_ref n = 0);
            c1 = (if first then c\<lparr>evictable_sz := evictable_sz c - len,
                                 protected_sz := protected_sz c + len\<rparr> else c);
            c2 = upd_node i (\<lambda>n. n\<lparr>lock_ref := lock_ref n + 1\<rparr>) c1
        in rbind (update_leaf_status i c2) (\<lambda>c3.
           case parent n of
             None \<Rightarrow> Inl AttributeError
           | Some p \<Rightarrow> inc_lock_loop fuel p (if first then delta - len else delta) c3)))"

definition inc_lock_ref :: "radix_config \<Rightarrow> nat \<Rightarrow> radix_cache \<Rightarrow> (int \<times> radix_cache) rr" where
  "inc_lock_ref cfg i c =
     (if disable cfg then Inr (0, c) else inc_lock_loop (Suc (node_counter c)) i 0 c)"

fun dec_lock_loop :: "nat \<Rightarrow> nat \<Rightarrow> int \<Rightarrow> radix_cache \<Rightarrow> (int \<times> radix_cache) rr" where
  "dec_lock_loop 0 i delta c = Inl Diverges"
| "dec_lock_loop (Suc fuel) i delta c =
     (if i = root_node c then Inr (delta, c)
      else rbind (get_node i c) (\<lambda>n.
        let len = int (key_len (nkey n));
            final = (lock_ref n = 1);
            c1 = (if final then c\<lparr>evictable_sz := evictable_sz c + len,
                                 protected_sz := protected_sz c - len\<rparr> else c);
            c2 = upd_node i (\<lambda>n. n\<lparr>lock_ref := lock_ref n - 1\<rparr>) c1
        in rbind (update_leaf_status i c2) (\<lambda>c3.
           case parent n of
             None \<Rightarrow> Inl (Py AssertionError)
           | Some p \<Rightarrow> dec_lock_loop fuel p (if final then delta + len else delta) c3)))"

definition dec_lock_ref :: "radix_config \<Rightarrow> nat \<Rightarrow> radix_cache \<Rightarrow> (int \<times> radix_cache) rr" where
  "dec_lock_ref cfg i c =
     (if disable cfg then Inr (0, c) else dec_lock_loop (Suc (node_counter c)) i 0 c)"

section \<open>Deletion\<close>

definition delete_leaf :: "radix_config \<Rightarrow> nat \<Rightarrow> radix_cache \<Rightarrow> radix_cache rr" where
  "delete_leaf cfg i c =
     rbind (get_node i c) (\<lambda>n.
     rbind (lift_py (child_key (page_size cfg) (nkey n))) (\<lambda>ck.
     case parent n of
       None \<Rightarrow> Inl AttributeError
     | Some p \<Rightarrow>
         rbind (get_node p c) (\<lambda>pn.
         if map_of (children pn) ck \<noteq> Some i then Inl (Py AssertionError)
         else
           let c1 = upd_node p (\<lambda>pn. pn\<lparr>children := AList.delete ck (children pn)\<rparr>) c;
               c2 = discard_session_leaf i c1;
               c3 = c2\<lparr>evictable_sz := evictable_sz c2 - int (key_len (nkey n)),
                       evictable_leaves := set_discard i (evictable_leaves c2)\<rparr>;
               c4 = c3\<lparr>nodes := (nodes c3)(i := None)\<rparr>
           in update_leaf_status p c4)))"

section \<open>Size\<close>

text \<open>\<open>_total_size_helper\<close>: the depth-first walk with an explicit stack; the Python list is
  popped at its end.\<close>

fun total_size_loop :: "nat \<Rightarrow> nat list \<Rightarrow> int \<Rightarrow> radix_cache \<Rightarrow> int rr" where
  "total_size_loop 0 stack total_size c = Inl Diverges"
| "total_size_loop (Suc fuel) stack total_size c =
     (if stack = [] then Inr total_size
      else rbind (get_node (last stack) c) (\<lambda>n.
           rbind (get_value n) (\<lambda>v.
           total_size_loop fuel
             (butlast stack @
              filter (\<lambda>j. case nodes c j of None \<Rightarrow> False | Some m \<Rightarrow> \<not> evicted m)
                (map snd (children n)))
             (total_size + int (length v)) c)))"

definition total_size_helper :: "radix_cache \<Rightarrow> int rr" where
  "total_size_helper c = total_size_loop (Suc (node_counter c)) [root_node c] 0 c"

end
