(* ===== verification/Radix_Shape.thy ===== *)
theory Radix_Shape
  imports Radix_Tree
begin

text \<open>
  Structure of the radix tree, apart from time stamps, hit counts, priorities, hashes and
  session tags.

  \<open>shape c\<close> forgets those fields. \<open>lab\<close> says that a shape is a well-formed tree, with two ghost
  labellings: \<open>pre i\<close> is the unit sequence from the root to the end of node \<open>i\<close> (units tagged
  with the namespace of the key they come from) and \<open>vpre i\<close> the KV indices along it.

  The four changes the cache makes to a shape are functions on shapes: \<open>sh_split\<close>, \<open>sh_add\<close>,
  \<open>sh_del\<close> and \<open>sh_lock\<close>. Lemmas: each of them preserves \<open>lab\<close>, with what it does to the
  labels; two nodes whose labels agree beyond both of their parents are the same node
  (\<open>lab_branch\<close>), from which it follows that labels are unique and that what a tree stores for
  a unit sequence is unique.
\<close>

record snode =
  s_children :: "(ckey \<times> nat) list"
  s_parent :: "nat option"
  s_extra :: "string option"
  s_big :: bool
  s_units :: "lunit list"
  s_value :: "nat list option"
  s_lock :: int

type_synonym shape = "nat \<rightharpoonup> snode"
type_synonym tunit = "string option \<times> lunit"

definition skel :: "tree_node \<Rightarrow> snode" where
  "skel n = \<lparr>s_children = children n, s_parent = parent n, s_extra = extra_key (nkey n),
             s_big = is_bigram (nkey n), s_units = units (nkey n), s_value = nvalue n,
             s_lock = lock_ref n\<rparr>"

definition shape :: "radix_cache \<Rightarrow> shape" where
  "shape c i = map_option skel (nodes c i)"

definition tag :: "string option \<Rightarrow> lunit list \<Rightarrow> tunit list" where
  "tag e us = map (Pair e) us"

definition s_ck :: "nat \<Rightarrow> snode \<Rightarrow> ckey" where
  "s_ck ps n = (s_extra n, take ps (s_units n))"

lemma tag_simps [simp]:
  "length (tag e us) = length us" "tag e (xs @ ys) = tag e xs @ tag e ys" "tag e [] = []"
  "take m (tag e us) = tag e (take m us)" "drop m (tag e us) = tag e (drop m us)"
  "tag e us = [] \<longleftrightarrow> us = []"
  by (simp_all add: tag_def take_map drop_map)

lemma tag_eq_iff: "tag e us = tag e' us' \<longleftrightarrow> us = us' \<and> (us = [] \<or> e = e')"
proof
  assume eq: "tag e us = tag e' us'"
  have "us = map snd (tag e us)" "us' = map snd (tag e' us')" by (simp_all add: tag_def comp_def)
  then have "us = us'" using eq by metis
  then show "us = us' \<and> (us = [] \<or> e = e')" using eq by (cases us) (auto simp: tag_def)
qed (auto simp: tag_def)

section \<open>Well-formed shapes\<close>

definition lab ::
  "nat \<Rightarrow> bool \<Rightarrow> shape \<Rightarrow> nat \<Rightarrow> (nat \<Rightarrow> tunit list) \<Rightarrow> (nat \<Rightarrow> nat list) \<Rightarrow> bool" where
  "lab ps big S r pre vpre \<longleftrightarrow>
     0 < ps \<and>
     (\<exists>rn. S r = Some rn \<and> s_parent rn = None \<and> s_units rn = [] \<and> s_value rn = Some []) \<and>
     pre r = [] \<and> vpre r = [] \<and>
     (\<forall>i n. S i = Some n \<and> i \<noteq> r \<longrightarrow>
        (\<exists>p pn v. s_parent n = Some p \<and> S p = Some pn \<and>
           map_of (s_children pn) (s_ck ps n) = Some i \<and>
           s_units n \<noteq> [] \<and> ps dvd length (s_units n) \<and> s_big n = big \<and>
           s_value n = Some v \<and> length v = length (s_units n) \<and>
           pre i = pre p @ tag (s_extra n) (s_units n) \<and> vpre i = vpre p @ v)) \<and>
     (\<forall>i n k j. S i = Some n \<and> (k, j) \<in> set (s_children n) \<longrightarrow>
        (\<exists>m. S j = Some m \<and> j \<noteq> r \<and> s_parent m = Some i \<and> k = s_ck ps m)) \<and>
     (\<forall>i n. S i = Some n \<longrightarrow> distinct (map fst (s_children n)))"

lemma labI:
  assumes "0 < ps"
    and "\<exists>rn. S r = Some rn \<and> s_parent rn = None \<and> s_units rn = [] \<and> s_value rn = Some []"
    and "pre r = []" "vpre r = []"
    and "\<And>i n. S i = Some n \<Longrightarrow> i \<noteq> r \<Longrightarrow>
      \<exists>p pn v. s_parent n = Some p \<and> S p = Some pn \<and>
           map_of (s_children pn) (s_ck ps n) = Some i \<and>
           s_units n \<noteq> [] \<and> ps dvd length (s_units n) \<and> s_big n = big \<and>
           s_value n = Some v \<and> length v = length (s_units n) \<and>
           pre i = pre p @ tag (s_extra n) (s_units n) \<and> vpre i = vpre p @ v"
    and "\<And>i n k j. S i = Some n \<Longrightarrow> (k, j) \<in> set (s_children n) \<Longrightarrow>
      \<exists>m. S j = Some m \<and> j \<noteq> r \<and> s_parent m = Some i \<and> k = s_ck ps m"
    and "\<And>i n. S i = Some n \<Longrightarrow> distinct (map fst (s_children n))"
  shows "lab ps big S r pre vpre"
  unfolding lab_def
  apply (intro conjI allI impI)
  subgoal by (rule assms(1))
  subgoal by (rule assms(2))
  subgoal by (rule assms(3))
  subgoal by (rule assms(4))
  subgoal by (rule assms(5)) (elim conjE; assumption)+
  subgoal by (rule assms(6)) (elim conjE; assumption)+
  subgoal for i n by (rule assms(7))
  done

lemma lab_ps: "lab ps big S r pre vpre \<Longrightarrow> 0 < ps"
  and lab_root: "lab ps big S r pre vpre \<Longrightarrow>
    \<exists>rn. S r = Some rn \<and> s_parent rn = None \<and> s_units rn = [] \<and> s_value rn = Some []"
  and lab_pre_root: "lab ps big S r pre vpre \<Longrightarrow> pre r = []" "lab ps big S r pre vpre \<Longrightarrow> vpre r = []"
  unfolding lab_def by (elim conjE; assumption)+

lemma lab_node:
  assumes "lab ps big S r pre vpre" and "S i = Some n" and "i \<noteq> r"
  obtains p pn v where "s_parent n = Some p" "S p = Some pn"
    "map_of (s_children pn) (s_ck ps n) = Some i" "s_units n \<noteq> []" "ps dvd length (s_units n)"
    "s_big n = big" "s_value n = Some v" "length v = length (s_units n)"
    "pre i = pre p @ tag (s_extra n) (s_units n)" "vpre i = vpre p @ v"
proof -
  have "\<forall>i n. S i = Some n \<and> i \<noteq> r \<longrightarrow>
        (\<exists>p pn v. s_parent n = Some p \<and> S p = Some pn \<and>
           map_of (s_children pn) (s_ck ps n) = Some i \<and>
           s_units n \<noteq> [] \<and> ps dvd length (s_units n) \<and> s_big n = big \<and>
           s_value n = Some v \<and> length v = length (s_units n) \<and>
           pre i = pre p @ tag (s_extra n) (s_units n) \<and> vpre i = vpre p @ v)"
    using assms(1) unfolding lab_def by (elim conjE) assumption
  then show ?thesis using assms(2,3) that by meson
qed

lemma lab_child:
  assumes "lab ps big S r pre vpre" and "S i = Some n" and "(k, j) \<in> set (s_children n)"
  obtains m where "S j = Some m" "j \<noteq> r" "s_parent m = Some i" "k = s_ck ps m"
proof -
  have "\<forall>i n k j. S i = Some n \<and> (k, j) \<in> set (s_children n) \<longrightarrow>
        (\<exists>m. S j = Some m \<and> j \<noteq> r \<and> s_parent m = Some i \<and> k = s_ck ps m)"
    using assms(1) unfolding lab_def by (elim conjE) assumption
  then show ?thesis using assms(2,3) that by meson
qed

lemma lab_distinct:
  assumes "lab ps big S r pre vpre" and "S i = Some n"
  shows "distinct (map fst (s_children n))"
proof -
  have "\<forall>i n. S i = Some n \<longrightarrow> distinct (map fst (s_children n))"
    using assms(1) unfolding lab_def by (elim conjE) assumption
  then show ?thesis using assms(2) by blast
qed

lemma lab_lengths:
  assumes "lab ps big S r pre vpre" and "S i = Some n"
  shows "length (vpre i) = length (pre i) \<and> ps dvd length (pre i)"
  using assms(2)
proof (induction "length (pre i)" arbitrary: i n rule: less_induct)
  case less
  show ?case
  proof (cases "i = r")
    case True
    then show ?thesis using lab_pre_root [OF assms(1)] by simp
  next
    case False
    obtain p pn v where n: "s_parent n = Some p" "S p = Some pn"
      "s_units n \<noteq> []" "ps dvd length (s_units n)" "length v = length (s_units n)"
      "pre i = pre p @ tag (s_extra n) (s_units n)" "vpre i = vpre p @ v"
      by (rule lab_node [OF assms(1) less.prems False])
    then have "length (pre p) < length (pre i)" by simp
    from less.hyps [OF this n(2)] n show ?thesis by simp
  qed
qed

lemma lab_pre_nonempty:
  assumes "lab ps big S r pre vpre" and "S i = Some n" and "i \<noteq> r"
  shows "pre i \<noteq> []"
  using lab_node [OF assms] by (metis append_is_Nil_conv tag_simps(6))

text \<open>Parent of a node, in a form that avoids the option.\<close>

definition par :: "shape \<Rightarrow> nat \<Rightarrow> nat" where
  "par S i = (case S i of None \<Rightarrow> i | Some n \<Rightarrow> (case s_parent n of None \<Rightarrow> i | Some p \<Rightarrow> p))"

lemma lab_par:
  assumes "lab ps big S r pre vpre" and "S i = Some n" and "i \<noteq> r"
  obtains pn v where "S (par S i) = Some pn" "s_parent n = Some (par S i)"
    "map_of (s_children pn) (s_ck ps n) = Some i"
    "s_units n \<noteq> []" "ps dvd length (s_units n)"
    "s_value n = Some v" "length v = length (s_units n)"
    "pre i = pre (par S i) @ tag (s_extra n) (s_units n)" "vpre i = vpre (par S i) @ v"
    "length (pre (par S i)) < length (pre i)" "length (pre (par S i)) + ps \<le> length (pre i)"
proof -
  obtain p pn v where n: "s_parent n = Some p" "S p = Some pn"
    "map_of (s_children pn) (s_ck ps n) = Some i" "s_units n \<noteq> []" "ps dvd length (s_units n)"
    "s_big n = big" "s_value n = Some v" "length v = length (s_units n)"
    "pre i = pre p @ tag (s_extra n) (s_units n)" "vpre i = vpre p @ v"
    by (rule lab_node [OF assms])
  have p: "p = par S i" using assms(2) n(1) by (simp add: par_def)
  have "ps \<le> length (s_units n)" using n(4,5) by (simp add: dvd_imp_le)
  then show ?thesis using that [of pn v] n unfolding p by simp
qed

text \<open>The child dictionary key of a node is the first page of its units behind its parent.\<close>

lemma lab_page:
  assumes "lab ps big S r pre vpre" and "S i = Some n" and "i \<noteq> r"
  shows "take ps (drop (length (pre (par S i))) (pre i)) = tag (s_extra n) (take ps (s_units n))"
  by (rule lab_par [OF assms]) (simp add: drop_append)

lemma siblings_eq:
  assumes L: "lab ps big S r pre vpre" and i: "S i = Some n" "i \<noteq> r" and j: "S j = Some m" "j \<noteq> r"
    and p: "par S i = par S j"
    and page: "take (length (pre (par S i)) + ps) (pre i) = take (length (pre (par S i)) + ps) (pre j)"
  shows "i = j"
proof -
  obtain pn where ni: "S (par S i) = Some pn" "map_of (s_children pn) (s_ck ps n) = Some i"
    "s_units n \<noteq> []"
    by (rule lab_par [OF L i])
  obtain pm where mj: "S (par S j) = Some pm" "map_of (s_children pm) (s_ck ps m) = Some j"
    by (rule lab_par [OF L j])
  have "take ps (drop (length (pre (par S i))) (pre i)) =
        take ps (drop (length (pre (par S i))) (pre j))"
    using page by (simp add: take_drop add.commute)
  then have "tag (s_extra n) (take ps (s_units n)) = tag (s_extra m) (take ps (s_units m))"
    using lab_page [OF L i] lab_page [OF L j] p by simp
  moreover have "take ps (s_units n) \<noteq> []" using ni(3) lab_ps [OF L] by simp
  ultimately have "s_ck ps n = s_ck ps m" by (auto simp: s_ck_def tag_eq_iff)
  then show ?thesis using ni mj p by simp
qed

lemma dvd_less_add: "(d::nat) dvd a \<Longrightarrow> d dvd b \<Longrightarrow> a < b \<Longrightarrow> a + d \<le> b"
  by (metis dvd_diff_nat dvd_imp_le le_add_diff_inverse less_or_eq_imp_le nat_add_left_cancel_le
      zero_less_diff)

lemma take_eq_mono: "take n xs = take n ys \<Longrightarrow> m \<le> n \<Longrightarrow> take m xs = take m ys"
  by (metis min.absorb1 take_take)

text \<open>Two nodes that agree on a page beyond both of their parents are the same node.\<close>

lemma lab_branch_le:
  assumes L: "lab ps big S r pre vpre"
  shows "S i = Some n \<Longrightarrow> S j = Some m \<Longrightarrow> i \<noteq> r \<Longrightarrow> j \<noteq> r \<Longrightarrow>
    length (pre (par S j)) \<le> length (pre (par S i)) \<Longrightarrow> length (pre (par S i)) < length (pre j) \<Longrightarrow>
    take (length (pre (par S i)) + ps) (pre i) = take (length (pre (par S i)) + ps) (pre j) \<Longrightarrow>
    i = j"
proof (induction "length (pre (par S i))" arbitrary: i j n m rule: less_induct)
  case less
  let ?p = "par S i" and ?q = "par S j"
  obtain pn where p: "S ?p = Some pn" "pre i = pre ?p @ tag (s_extra n) (s_units n)"
    by (rule lab_par [OF L less.prems(1,3)])
  obtain qn where q: "S ?q = Some qn" "pre j = pre ?q @ tag (s_extra m) (s_units m)"
    by (rule lab_par [OF L less.prems(2,4)])
  have dvd: "ps dvd length (pre ?p)" "ps dvd length (pre ?q)"
    using lab_lengths [OF L p(1)] lab_lengths [OF L q(1)] by auto
  have pj: "pre ?p = take (length (pre ?p)) (pre j)"
    using take_eq_mono [OF less.prems(7), of "length (pre ?p)"] p(2) by simp
  show ?case
  proof (cases "length (pre ?q) = length (pre ?p)")
    case True
    then have eq: "pre ?p = pre ?q" using pj q(2) by simp
    have "?p = ?q"
    proof (cases "?p = r \<or> ?q = r")
      case True
      then show ?thesis
        using eq lab_pre_nonempty [OF L p(1)] lab_pre_nonempty [OF L q(1)] lab_pre_root(1) [OF L]
        by (metis (no_types))
    next
      case False
      obtain lp: "length (pre (par S ?p)) < length (pre ?p)"
        using lab_par [OF L p(1)] False by metis
      obtain lq: "length (pre (par S ?q)) < length (pre ?q)"
        using lab_par [OF L q(1)] False by metis
      show ?thesis
        using less.hyps [of ?p pn ?q qn] less.hyps [of ?q qn ?p pn] p(1) q(1) False eq lp lq True
        by (metis nle_le)
    qed
    then show ?thesis
      using siblings_eq [OF L less.prems(1,3,2,4)] less.prems(7) by simp
  next
    case False
    then have less_qp: "length (pre ?q) < length (pre ?p)" using less.prems(5) by simp
    have pr: "?p \<noteq> r" using less_qp lab_pre_root(1) [OF L] by auto
    have step: "length (pre (par S ?p)) < length (pre ?p)"
      "length (pre (par S ?p)) + ps \<le> length (pre ?p)"
      using lab_par [OF L p(1) pr] by metis+
    have agree: "x \<le> length (pre ?p) \<Longrightarrow> take x (pre ?p) = take x (pre j)" for x
      using pj by (metis min.absorb1 take_take)
    have "?p = j"
    proof (cases "length (pre ?q) \<le> length (pre (par S ?p))")
      case True
      then show ?thesis
        using less.hyps [OF step(1) p(1) less.prems(2) pr less.prems(4)] step agree less.prems(6)
        by simp
    next
      case False
      have "length (pre ?q) + ps \<le> length (pre ?p)" using dvd_less_add dvd less_qp by blast
      then show ?thesis
        using less.hyps [OF less_qp less.prems(2) p(1) less.prems(4) pr] False agree less_qp
        by simp
    qed
    then show ?thesis using less.prems(6) by simp
  qed
qed

lemma lab_branch:
  assumes L: "lab ps big S r pre vpre" and "S i = Some n" "S j = Some m" "i \<noteq> r" "j \<noteq> r"
    and "max (length (pre (par S i))) (length (pre (par S j))) = A"
    and "A < length (pre i)" "A < length (pre j)" "take (A + ps) (pre i) = take (A + ps) (pre j)"
  shows "i = j"
proof (cases "length (pre (par S j)) \<le> length (pre (par S i))")
  case True
  then show ?thesis using lab_branch_le [OF L assms(2-5)] assms(6-) by simp
next
  case False
  then show ?thesis using lab_branch_le [OF L assms(3,2,5,4)] assms(6-) by simp
qed

lemma lab_pre_inj:
  assumes L: "lab ps big S r pre vpre" and "S i = Some n" "S j = Some m" and eq: "pre i = pre j"
  shows "i = j"
proof (cases "i = r \<or> j = r")
  case True
  then show ?thesis
    using eq lab_pre_nonempty [OF L assms(2)] lab_pre_nonempty [OF L assms(3)] lab_pre_root(1) [OF L]
    by metis
next
  case False
  then have "length (pre (par S i)) < length (pre i)" "length (pre (par S j)) < length (pre j)"
    using lab_par [OF L assms(2)] lab_par [OF L assms(3)] by metis+
  then show ?thesis using lab_branch [OF L assms(2,3) _ _ refl] False eq by simp
qed

text \<open>Above every node that reaches past position \<open>m\<close> there is one that spans it.\<close>

lemma lab_climb:
  assumes L: "lab ps big S r pre vpre" and "S i = Some n" and "m < length (pre i)"
  shows "\<exists>j nj. S j = Some nj \<and> j \<noteq> r \<and> length (pre (par S j)) \<le> m \<and> m < length (pre j) \<and>
    pre j = take (length (pre j)) (pre i) \<and> vpre j = take (length (pre j)) (vpre i)"
  using assms(2,3)
proof (induction "length (pre i)" arbitrary: i n rule: less_induct)
  case less
  have ir: "i \<noteq> r" using less.prems(2) lab_pre_root(1) [OF L] by auto
  obtain pn v where p: "S (par S i) = Some pn" "length v = length (s_units n)"
    "pre i = pre (par S i) @ tag (s_extra n) (s_units n)" "vpre i = vpre (par S i) @ v"
    "length (pre (par S i)) < length (pre i)"
    by (rule lab_par [OF L less.prems(1) ir])
  show ?case
  proof (cases "length (pre (par S i)) \<le> m")
    case True
    then show ?thesis using less.prems ir lab_lengths [OF L less.prems(1)]
      by (intro exI [of _ i] exI [of _ n]) simp
  next
    case False
    then obtain j nj where j: "S j = Some nj" "j \<noteq> r" "length (pre (par S j)) \<le> m"
      "m < length (pre j)" "pre j = take (length (pre j)) (pre (par S i))"
      "vpre j = take (length (pre j)) (vpre (par S i))"
      using less.hyps [OF p(5,1)] by auto
    have "length (pre j) \<le> length (pre (par S i))" by (metis j(5) length_take min.cobounded1)
    moreover have "length (vpre (par S i)) = length (pre (par S i))"
      using lab_lengths [OF L p(1)] by simp
    ultimately show ?thesis using j p(3,4) by (intro exI [of _ j] exI [of _ nj]) simp
  qed
qed

section \<open>What a tree stores\<close>

text \<open>\<open>stored S r u v\<close>: the tree holds the KV indices \<open>v\<close> for the page-aligned unit sequence
  \<open>u\<close>, that is, \<open>u\<close> is a prefix of the label of some node.\<close>

definition stored ::
  "nat \<Rightarrow> shape \<Rightarrow> (nat \<Rightarrow> tunit list) \<Rightarrow> (nat \<Rightarrow> nat list) \<Rightarrow> tunit list \<Rightarrow> nat list \<Rightarrow> bool" where
  "stored ps S pre vpre u v \<longleftrightarrow>
     (\<exists>i\<in>dom S. \<exists>k\<le>length (pre i). ps dvd k \<and> u = take k (pre i) \<and> v = take k (vpre i))"

lemma stored_unique:
  assumes L: "lab ps big S r pre vpre" and "stored ps S pre vpre u v" "stored ps S pre vpre u v'"
  shows "v = v'"
proof (cases "u = []")
  case True
  then show ?thesis using assms(2,3) lab_lengths [OF L] by (fastforce simp: stored_def)
next
  case False
  from assms(2) obtain i n k where i: "S i = Some n" "k \<le> length (pre i)" "ps dvd k"
    "u = take k (pre i)" "v = take k (vpre i)" by (auto simp: stored_def)
  from assms(3) obtain j m k' where j: "S j = Some m" "k' \<le> length (pre j)" "ps dvd k'"
    "u = take k' (pre j)" "v' = take k' (vpre j)" by (auto simp: stored_def)
  have k: "k' = k" using i(2,4) j(2,4) by (metis length_take min.absorb2)
  have "0 < k" using False i(4) by (cases k) auto
  then have kps: "ps \<le> k" using i(3) by (simp add: dvd_imp_le)
  have lps: "0 < ps" by (rule lab_ps [OF L])
  have ka: "k - ps < length (pre i)" "k - ps < length (pre j)"
    using i(2) j(2) k kps lps by linarith+
  obtain i' ni where i': "S i' = Some ni" "i' \<noteq> r" "length (pre (par S i')) \<le> k - ps"
    "k - ps < length (pre i')" "pre i' = take (length (pre i')) (pre i)"
    "vpre i' = take (length (pre i')) (vpre i)"
    using lab_climb [OF L i(1) ka(1)] by blast
  obtain j' nj where j': "S j' = Some nj" "j' \<noteq> r" "length (pre (par S j')) \<le> k - ps"
    "k - ps < length (pre j')" "pre j' = take (length (pre j')) (pre j)"
    "vpre j' = take (length (pre j')) (vpre j)"
    using lab_climb [OF L j(1) ka(2)] by blast
  have dv: "ps dvd k - ps" "ps dvd length (pre i')" "ps dvd length (pre j')"
    using i(3) lab_lengths [OF L i'(1)] lab_lengths [OF L j'(1)] by auto
  have ki: "k \<le> length (pre i')" "k \<le> length (pre j')"
    using dvd_less_add [OF dv(1,2) i'(4)] dvd_less_add [OF dv(1,3) j'(4)] kps by auto
  have tk: "take x (pre i') = take x (pre j')" if "x \<le> k" for x
  proof -
    have "take x (pre i') = take x (pre i)" by (subst i'(5)) (use that ki in \<open>simp add: min_def\<close>)
    moreover have "take x (pre j') = take x (pre j)"
      by (subst j'(5)) (use that ki in \<open>simp add: min_def\<close>)
    moreover have "take x (pre i) = take x (pre j)"
      using i(4) j(4) k that by (metis min.absorb1 take_take)
    ultimately show ?thesis by simp
  qed
  let ?A = "max (length (pre (par S i'))) (length (pre (par S j')))"
  have A: "?A < length (pre i')" "?A < length (pre j')" "?A + ps \<le> k"
    using i'(3,4) j'(3,4) kps by linarith+
  have "i' = j'" by (rule lab_branch [OF L i'(1) j'(1) i'(2) j'(2) refl A(1,2) tk [OF A(3)]])
  then have "take k (vpre i) = take k (vpre j)"
    using i'(6) j'(6) ki by (metis min.absorb1 take_take)
  then show ?thesis using i(5) j(5) k by simp
qed

lemma stored_maximal:
  assumes L: "lab ps big S r pre vpre" and i: "S i = Some n" and u: "pre i = take (length (pre i)) u"
    and none: "\<And>j nj. S j = Some nj \<Longrightarrow> j \<noteq> r \<Longrightarrow> par S j = i \<Longrightarrow>
      take (length (pre i) + ps) (pre j) \<noteq> take (length (pre i) + ps) u"
    and k: "stored ps S pre vpre (take k u) v" "k \<le> length u" "ps dvd k"
  shows "k \<le> length (pre i)"
proof (rule ccontr)
  assume "\<not> k \<le> length (pre i)"
  then have less: "length (pre i) < k" by simp
  let ?m = "length (pre i)"
  have dvm: "ps dvd ?m" using lab_lengths [OF L i] by simp
  have mk: "?m + ps \<le> k" by (rule dvd_less_add [OF dvm k(3) less])
  from k(1,2) obtain x nx where x: "S x = Some nx" "k \<le> length (pre x)" "take k u = take k (pre x)"
    by (auto simp: stored_def) (metis length_take min.absorb2)
  have "?m < length (pre x)" using x(2) less by simp
  from lab_climb [OF L x(1) this] obtain j nj where j: "S j = Some nj" "j \<noteq> r"
    "length (pre (par S j)) \<le> ?m" "?m < length (pre j)" "pre j = take (length (pre j)) (pre x)"
    by blast
  have "ps dvd length (pre j)" using lab_lengths [OF L j(1)] by simp
  then have mj: "?m + ps \<le> length (pre j)" using dvd_less_add dvm j(4) by blast
  have agree: "take y (pre j) = take y u" if "y \<le> ?m + ps" for y
  proof -
    have "take y (pre j) = take y (pre x)" by (subst j(5)) (use that mj in \<open>simp add: min_def\<close>)
    also have "\<dots> = take y u" using x(3) mk that by (metis (no_types, lifting) le_trans take_eq_mono)
    finally show ?thesis .
  qed
  obtain pn where p: "S (par S j) = Some pn" "pre j = pre (par S j) @ tag (s_extra nj) (s_units nj)"
    by (rule lab_par [OF L j(1,2)])
  have pp: "pre (par S j) = take (length (pre (par S j))) u"
    using agree [of "length (pre (par S j))"] j(3) p(2) by simp
  show False
  proof (cases "length (pre (par S j)) = ?m")
    case True
    then have "pre (par S j) = pre i" using pp u by simp
    then have "par S j = i" by (rule lab_pre_inj [OF L p(1) i])
    then show False using none [OF j(1,2)] agree [of "?m + ps"] by simp
  next
    case False
    then have lt: "length (pre (par S j)) < ?m" using j(3) by simp
    have ir: "i \<noteq> r" using lt lab_pre_root(1) [OF L] by auto
    have pi: "length (pre (par S i)) < ?m" "length (pre (par S i)) + ps \<le> ?m"
      using lab_par [OF L i ir] by metis+
    have "length (pre (par S j)) + ps \<le> ?m"
      using dvd_less_add [OF _ dvm lt] lab_lengths [OF L p(1)] by simp
    then have A: "max (length (pre (par S i))) (length (pre (par S j))) + ps \<le> ?m"
      using pi by simp
    have "take y (pre i) = take y u" if "y \<le> ?m" for y using u that by (metis min.absorb1 take_take)
    then have "i = j"
      using lab_branch [OF L i j(1) ir j(2) refl] lt pi j(4) A agree by simp
    then show False using j(4) by simp
  qed
qed

section \<open>The four changes of a shape\<close>

lemma map_of_set: "distinct (map fst al) \<Longrightarrow> (k, v) \<in> set al \<longleftrightarrow> map_of al k = Some v"
  by (metis map_of_eq_Some_iff)

lemma lab_child_of:
  assumes L: "lab ps big S r pre vpre" and "S i = Some n" and "map_of (s_children n) k = Some j"
  obtains m where "S j = Some m" "j \<noteq> r" "s_parent m = Some i" "k = s_ck ps m" "par S j = i"
    "length (pre i) < length (pre j)"
proof -
  have "(k, j) \<in> set (s_children n)" using assms(3) by (rule map_of_SomeD)
  then obtain m where m: "S j = Some m" "j \<noteq> r" "s_parent m = Some i" "k = s_ck ps m"
    by (rule lab_child [OF L assms(2)])
  have "par S j = i" using m by (simp add: par_def)
  moreover have "length (pre (par S j)) < length (pre j)"
    by (rule lab_par [OF L m(1,2)]) simp
  ultimately show ?thesis using that m by simp
qed

definition sh_split :: "nat \<Rightarrow> nat \<Rightarrow> nat \<Rightarrow> nat \<Rightarrow> shape \<Rightarrow> shape" where
  "sh_split ps ch i m S =
     (case S ch of None \<Rightarrow> S | Some n \<Rightarrow> (case s_parent n of None \<Rightarrow> S | Some p \<Rightarrow> (case S p of
        None \<Rightarrow> S
      | Some pn \<Rightarrow>
          S(i \<mapsto> \<lparr>s_children = [((s_extra n, take ps (drop m (s_units n))), ch)], s_parent = Some p,
                 s_extra = s_extra n, s_big = s_big n, s_units = take m (s_units n),
                 s_value = map_option (take m) (s_value n), s_lock = s_lock n\<rparr>,
            ch \<mapsto> n\<lparr>s_parent := Some i, s_units := drop m (s_units n),
                    s_value := map_option (drop m) (s_value n)\<rparr>,
            p \<mapsto> pn\<lparr>s_children := AList.update (s_ck ps n) i (s_children pn)\<rparr>))))"

lemma lab_split:
  assumes L: "lab ps big S r pre vpre" and ch: "S ch = Some n" "ch \<noteq> r" and i: "S i = None"
    and m: "0 < m" "m < length (s_units n)" "ps dvd m"
  defines "a \<equiv> length (pre (par S ch)) + m"
  shows "lab ps big (sh_split ps ch i m S) r (pre(i := take a (pre ch))) (vpre(i := take a (vpre ch)))"
    (is "lab ps big ?S r ?pre ?vpre")
proof -
  let ?p = "par S ch"
  obtain pn v where n: "S ?p = Some pn" "s_parent n = Some ?p"
    "map_of (s_children pn) (s_ck ps n) = Some ch" "s_units n \<noteq> []" "ps dvd length (s_units n)"
    "s_value n = Some v" "length v = length (s_units n)"
    "pre ch = pre ?p @ tag (s_extra n) (s_units n)" "vpre ch = vpre ?p @ v"
    "length (pre ?p) < length (pre ch)"
    by (rule lab_par [OF L ch])
  have big: "s_big n = big" by (rule lab_node [OF L ch])
  have ps: "0 < ps" "ps \<le> m" using lab_ps [OF L] m by (auto simp: dvd_imp_le)
  have lv: "length (vpre ?p) = length (pre ?p)" using lab_lengths [OF L n(1)] by simp
  define nn where "nn = \<lparr>s_children = [((s_extra n, take ps (drop m (s_units n))), ch)],
    s_parent = Some ?p, s_extra = s_extra n, s_big = s_big n, s_units = take m (s_units n),
    s_value = map_option (take m) (s_value n), s_lock = s_lock n\<rparr>"
  define n' where "n' = n\<lparr>s_parent := Some i, s_units := drop m (s_units n),
    s_value := map_option (drop m) (s_value n)\<rparr>"
  define pn' where "pn' = pn\<lparr>s_children := AList.update (s_ck ps n) i (s_children pn)\<rparr>"
  have S': "?S = S(i \<mapsto> nn, ch \<mapsto> n', ?p \<mapsto> pn')"
    by (simp add: sh_split_def ch n(1,2) nn_def n'_def pn'_def)
  have ne: "i \<noteq> ch" "i \<noteq> ?p" "ch \<noteq> ?p" "i \<noteq> r"
    using i ch n(1,10) lab_root [OF L] by auto
  have at: "?S i = Some nn" "?S ch = Some n'" "?S ?p = Some pn'"
    "\<And>x. x \<noteq> i \<Longrightarrow> x \<noteq> ch \<Longrightarrow> x \<noteq> ?p \<Longrightarrow> ?S x = S x"
    using ne by (simp_all add: S')
  have ck: "s_ck ps nn = s_ck ps n" "s_ck ps pn' = s_ck ps pn"
    "s_ck ps n' = (s_extra n, take ps (drop m (s_units n)))"
    using ps by (simp_all add: s_ck_def nn_def n'_def pn'_def min_def)
  have pch: "map_of (s_children pn') = (map_of (s_children pn))(s_ck ps n \<mapsto> i)"
    by (simp add: pn'_def update_conv')
  have pre': "?pre i = pre ?p @ tag (s_extra n) (take m (s_units n))"
    "?vpre i = vpre ?p @ take m v"
    using n(8,9) lv by (simp_all add: a_def)
  show ?thesis
  proof (rule labI)
    show "0 < ps" by (rule ps(1))
    show "\<exists>rn. ?S r = Some rn \<and> s_parent rn = None \<and> s_units rn = [] \<and> s_value rn = Some []"
      using lab_root [OF L] at ch(2) ne(4) n(1) by (cases "r = ?p") (auto simp: pn'_def)
    show "?pre r = []" "?vpre r = []" using lab_pre_root [OF L] ne(4) by auto
  next
    fix x nx
    assume x: "?S x = Some nx" "x \<noteq> r"
    consider "x = i" | "x = ch" | "x = ?p" "x \<noteq> i" "x \<noteq> ch" | "x \<noteq> i" "x \<noteq> ch" "x \<noteq> ?p" by blast
    then show "\<exists>q qn w. s_parent nx = Some q \<and> ?S q = Some qn \<and>
        map_of (s_children qn) (s_ck ps nx) = Some x \<and> s_units nx \<noteq> [] \<and>
        ps dvd length (s_units nx) \<and> s_big nx = big \<and> s_value nx = Some w \<and>
        length w = length (s_units nx) \<and>
        ?pre x = ?pre q @ tag (s_extra nx) (s_units nx) \<and> ?vpre x = ?vpre q @ w"
    proof cases
      case 1
      then have "nx = nn" using x at by simp
      then show ?thesis using 1 at(3) ck pch pre' ne m n(4-7) big
        by (intro exI [of _ ?p] exI [of _ pn'] exI [of _ "take m v"]) (simp add: nn_def)
    next
      case 2
      then have "nx = n'" using x at by simp
      then show ?thesis using 2 at(1) ck(3) pre' ne m n(4-9) big
        by (intro exI [of _ i] exI [of _ nn] exI [of _ "drop m v"])
          (simp add: n'_def nn_def dvd_diff_nat flip: tag_simps(2))
    next
      case 3
      then have nx: "nx = pn'" using x at by simp
      obtain qn w where q: "S (par S ?p) = Some qn" "s_parent pn = Some (par S ?p)"
        "map_of (s_children qn) (s_ck ps pn) = Some ?p" "s_units pn \<noteq> []"
        "ps dvd length (s_units pn)" "s_value pn = Some w" "length w = length (s_units pn)"
        "pre ?p = pre (par S ?p) @ tag (s_extra pn) (s_units pn)" "vpre ?p = vpre (par S ?p) @ w"
        "length (pre (par S ?p)) < length (pre ?p)"
        by (rule lab_par [OF L n(1)]) (use 3 x(2) in auto)
      have "s_big pn = big" by (rule lab_node [OF L n(1)]) (use 3 x(2) in auto)
      moreover have "par S ?p \<noteq> i" "par S ?p \<noteq> ch" "par S ?p \<noteq> ?p" using q(1,10) i n(10) by auto
      ultimately show ?thesis using 3 q nx ck(2) at(4)
        by (intro exI [of _ "par S ?p"] exI [of _ qn] exI [of _ w]) (simp add: pn'_def)
    next
      case 4
      then have nx: "S x = Some nx" using x at by simp
      obtain qn w where q: "S (par S x) = Some qn" "s_parent nx = Some (par S x)"
        "map_of (s_children qn) (s_ck ps nx) = Some x" "s_units nx \<noteq> []"
        "ps dvd length (s_units nx)" "s_value nx = Some w" "length w = length (s_units nx)"
        "pre x = pre (par S x) @ tag (s_extra nx) (s_units nx)" "vpre x = vpre (par S x) @ w"
        by (rule lab_par [OF L nx x(2)])
      have b: "s_big nx = big" by (rule lab_node [OF L nx x(2)])
      have qi: "par S x \<noteq> i" using q(1) i by auto
      have "\<exists>qn'. ?S (par S x) = Some qn' \<and> map_of (s_children qn') (s_ck ps nx) = Some x"
      proof -
        consider "par S x = ?p" | "par S x = ch" | "par S x \<noteq> ?p" "par S x \<noteq> ch" by blast
        then show ?thesis
        proof cases
          case 1
          then have "s_ck ps nx \<noteq> s_ck ps n" using q(1,3) n(1,3) 4(2) by auto
          then show ?thesis using 1 q(1,3) n(1) at(3) pch by simp
        next
          case 2
          then show ?thesis using q(1,3) ch(1) at(2) by (simp add: n'_def)
        next
          case 3
          then show ?thesis using q(1,3) qi at(4) by simp
        qed
      qed
      then show ?thesis using q b 4 qi by auto
    qed
  next
    fix x nx k j
    assume x: "?S x = Some nx" and "(k, j) \<in> set (s_children nx)"
    have dst: "distinct (map fst (s_children pn'))"
      using lab_distinct [OF L n(1)] by (simp add: pn'_def distinct_update)
    consider "x = i" | "x = ?p" "x \<noteq> i" | "x \<noteq> i" "x \<noteq> ?p" by blast
    then show "\<exists>m. ?S j = Some m \<and> j \<noteq> r \<and> s_parent m = Some x \<and> k = s_ck ps m"
    proof cases
      case 1
      then show ?thesis using x at \<open>(k, j) \<in> _\<close> ch(2) ck(3) by (auto simp: nn_def n'_def)
    next
      case 2
      then have "map_of (s_children pn') k = Some j" using x at \<open>(k, j) \<in> _\<close> dst map_of_set by force
      then consider "k = s_ck ps n" "j = i" | "k \<noteq> s_ck ps n" "map_of (s_children pn) k = Some j"
        by (auto simp: pch split: if_splits)
      then show ?thesis
      proof cases
        case 1
        then show ?thesis using 2 at ck ne by (auto simp: nn_def)
      next
        case b: 2
        obtain mm where mm: "S j = Some mm" "j \<noteq> r" "s_parent mm = Some ?p" "k = s_ck ps mm"
          "length (pre ?p) < length (pre j)"
          by (rule lab_child_of [OF L n(1) b(2)])
        then have "j \<noteq> ch" "j \<noteq> i" "j \<noteq> ?p" using b(1) ch(1) i by auto
        then show ?thesis using mm 2 at(4) by simp
      qed
    next
      case 3
      obtain n0 where n0: "S x = Some n0" "s_children n0 = s_children nx"
        using 3 x at ch(1) by (cases "x = ch") (auto simp: n'_def)
      obtain mm where mm: "S j = Some mm" "j \<noteq> r" "s_parent mm = Some x" "k = s_ck ps mm"
        using lab_child [OF L n0(1)] \<open>(k, j) \<in> _\<close> n0(2) by metis
      have "j \<noteq> ch" "j \<noteq> i" using mm(1,3) n(2) ch(1) 3 i by auto
      then show ?thesis using mm at(3,4) n(1) ck(2) by (cases "j = ?p") (auto simp: pn'_def s_ck_def)
    qed
  next
    fix x nx
    assume x: "?S x = Some nx"
    show "distinct (map fst (s_children nx))"
      using x at ch(1) n(1) lab_distinct [OF L]
      by (cases "x = i"; cases "x = ch"; cases "x = ?p")
        (auto simp: nn_def n'_def pn'_def distinct_update)
  qed
qed

lemma stored_split:
  assumes L: "lab ps big S r pre vpre" and ch: "S ch = Some n" "ch \<noteq> r" and i: "S i = None"
  shows "stored ps (sh_split ps ch i m S) (pre(i := take a (pre ch))) (vpre(i := take a (vpre ch))) u v
         \<longleftrightarrow> stored ps S pre vpre u v"
proof -
  obtain pn where n: "S (par S ch) = Some pn" "s_parent n = Some (par S ch)"
    by (rule lab_par [OF L ch])
  have dom: "dom (sh_split ps ch i m S) = insert i (dom S)"
    using ch(1) n i by (auto simp: sh_split_def)
  have old: "x \<in> dom S \<Longrightarrow> (pre(i := take a (pre ch))) x = pre x" for x using i by auto
  have oldv: "x \<in> dom S \<Longrightarrow> (vpre(i := take a (vpre ch))) x = vpre x" for x using i by auto
  show ?thesis
  proof
    assume "stored ps (sh_split ps ch i m S) (pre(i := take a (pre ch))) (vpre(i := take a (vpre ch))) u v"
    then obtain x k where x: "x \<in> insert i (dom S)" "k \<le> length ((pre(i := take a (pre ch))) x)"
      "ps dvd k" "u = take k ((pre(i := take a (pre ch))) x)"
      "v = take k ((vpre(i := take a (vpre ch))) x)"
      unfolding stored_def dom by blast
    show "stored ps S pre vpre u v"
    proof (cases "x = i")
      case True
      then have "k \<le> a" "k \<le> length (pre ch)" using x(2) by simp_all
      moreover from this have "u = take k (pre ch)" "v = take k (vpre ch)"
        using x(4,5) True by (simp_all add: min_absorb1)
      ultimately show ?thesis using x(3) ch(1) unfolding stored_def by blast
    next
      case False
      then show ?thesis using x unfolding stored_def by auto
    qed
  next
    assume "stored ps S pre vpre u v"
    then obtain x k where x: "x \<in> dom S" "k \<le> length (pre x)" "ps dvd k" "u = take k (pre x)"
      "v = take k (vpre x)" unfolding stored_def by blast
    then show "stored ps (sh_split ps ch i m S) (pre(i := take a (pre ch)))
        (vpre(i := take a (vpre ch))) u v"
      unfolding stored_def dom using old [OF x(1)] oldv [OF x(1)]
      by (intro bexI [of _ x] exI [of _ k]) auto
  qed
qed

definition sh_add :: "nat \<Rightarrow> nat \<Rightarrow> nat \<Rightarrow> snode \<Rightarrow> shape \<Rightarrow> shape" where
  "sh_add ps p i leaf S =
     (case S p of
        None \<Rightarrow> S
      | Some pn \<Rightarrow>
          S(i \<mapsto> leaf, p \<mapsto> pn\<lparr>s_children := AList.update (s_ck ps leaf) i (s_children pn)\<rparr>))"

lemma lab_add:
  assumes L: "lab ps big S r pre vpre" and p: "S p = Some pn" and i: "S i = None"
    and leaf: "s_children leaf = []" "s_parent leaf = Some p" "s_units leaf \<noteq> []"
      "ps dvd length (s_units leaf)" "s_big leaf = big" "s_value leaf = Some v"
      "length v = length (s_units leaf)"
    and new: "map_of (s_children pn) (s_ck ps leaf) = None"
  shows "lab ps big (sh_add ps p i leaf S) r
           (pre(i := pre p @ tag (s_extra leaf) (s_units leaf))) (vpre(i := vpre p @ v))"
    (is "lab ps big ?S r ?pre ?vpre")
proof -
  define pn' where "pn' = pn\<lparr>s_children := AList.update (s_ck ps leaf) i (s_children pn)\<rparr>"
  have ne: "i \<noteq> p" "i \<noteq> r" using i p lab_root [OF L] by auto
  have S': "?S = S(i \<mapsto> leaf, p \<mapsto> pn')" by (simp add: sh_add_def p pn'_def)
  have at: "?S i = Some leaf" "?S p = Some pn'" "\<And>x. x \<noteq> i \<Longrightarrow> x \<noteq> p \<Longrightarrow> ?S x = S x"
    using ne by (simp_all add: S')
  have pch: "map_of (s_children pn') = (map_of (s_children pn))(s_ck ps leaf \<mapsto> i)"
    by (simp add: pn'_def update_conv')
  have eqs: "s_parent pn' = s_parent pn" "s_units pn' = s_units pn" "s_big pn' = s_big pn"
    "s_extra pn' = s_extra pn" "s_value pn' = s_value pn" "s_ck ps pn' = s_ck ps pn"
    by (simp_all add: pn'_def s_ck_def)
  have dst: "distinct (map fst (s_children pn'))"
    using lab_distinct [OF L p] by (simp add: pn'_def distinct_update)
  show ?thesis
  proof (rule labI)
    show "0 < ps" by (rule lab_ps [OF L])
    show "\<exists>rn. ?S r = Some rn \<and> s_parent rn = None \<and> s_units rn = [] \<and> s_value rn = Some []"
      using lab_root [OF L] at ne(2) p eqs by (cases "r = p") auto
    show "?pre r = []" "?vpre r = []" using lab_pre_root [OF L] ne(2) by auto
  next
    fix x nx
    assume x: "?S x = Some nx" "x \<noteq> r"
    show "\<exists>q qn w. s_parent nx = Some q \<and> ?S q = Some qn \<and>
        map_of (s_children qn) (s_ck ps nx) = Some x \<and> s_units nx \<noteq> [] \<and>
        ps dvd length (s_units nx) \<and> s_big nx = big \<and> s_value nx = Some w \<and>
        length w = length (s_units nx) \<and>
        ?pre x = ?pre q @ tag (s_extra nx) (s_units nx) \<and> ?vpre x = ?vpre q @ w"
    proof (cases "x = i")
      case True
      then show ?thesis using x at leaf pch ne
        by (intro exI [of _ p] exI [of _ pn'] exI [of _ v]) simp
    next
      case False
      then obtain n0 where n0: "S x = Some n0" "s_parent nx = s_parent n0" "s_units nx = s_units n0"
        "s_big nx = s_big n0" "s_extra nx = s_extra n0" "s_value nx = s_value n0"
        "s_ck ps nx = s_ck ps n0"
        using x at p eqs by (cases "x = p") auto
      obtain q qn w where q: "s_parent n0 = Some q" "S q = Some qn"
        "map_of (s_children qn) (s_ck ps n0) = Some x" "s_units n0 \<noteq> []" "ps dvd length (s_units n0)"
        "s_big n0 = big" "s_value n0 = Some w" "length w = length (s_units n0)"
        "pre x = pre q @ tag (s_extra n0) (s_units n0)" "vpre x = vpre q @ w"
        by (rule lab_node [OF L n0(1) x(2)])
      have qi: "q \<noteq> i" using q(2) i by auto
      have "\<exists>qn'. ?S q = Some qn' \<and> map_of (s_children qn') (s_ck ps n0) = Some x"
      proof (cases "q = p")
        case True
        then have "s_ck ps n0 \<noteq> s_ck ps leaf" using q(2,3) p new by auto
        then show ?thesis using True q(2,3) p at(2) pch by simp
      next
        case False
        then show ?thesis using q(2,3) at(3) qi by simp
      qed
      then show ?thesis using q n0 False qi by auto
    qed
  next
    fix x nx k j
    assume x: "?S x = Some nx" and kj: "(k, j) \<in> set (s_children nx)"
    show "\<exists>m. ?S j = Some m \<and> j \<noteq> r \<and> s_parent m = Some x \<and> k = s_ck ps m"
    proof (cases "x = p \<and> k = s_ck ps leaf")
      case True
      then have "map_of (s_children pn') k = Some j" using x at kj dst map_of_set by force
      then show ?thesis using True at leaf ne by (simp add: pch)
    next
      case False
      have "x \<noteq> i" using x at kj leaf(1) by auto
      have "\<exists>n0. S x = Some n0 \<and> (k, j) \<in> set (s_children n0)"
      proof (cases "x = p")
        case True
        then have "map_of (s_children pn') k = Some j" using x at kj dst map_of_set by force
        then have "map_of (s_children pn) k = Some j" using True False by (simp add: pch)
        then show ?thesis using True p map_of_SomeD by fast
      next
        case False
        then show ?thesis using x kj at(3) \<open>x \<noteq> i\<close> by simp
      qed
      then obtain n0 where n0: "S x = Some n0" "(k, j) \<in> set (s_children n0)" by blast
      obtain mm where mm: "S j = Some mm" "j \<noteq> r" "s_parent mm = Some x" "k = s_ck ps mm"
        by (rule lab_child [OF L n0])
      moreover have "j \<noteq> i" using mm(1) i by auto
      ultimately show ?thesis using at(2,3) p eqs by (cases "j = p") simp_all
    qed
  next
    fix x nx
    assume "?S x = Some nx"
    then show "distinct (map fst (s_children nx))"
      using at leaf(1) dst lab_distinct [OF L] by (cases "x = i"; cases "x = p") auto
  qed
qed

lemma stored_add:
  assumes L: "lab ps big S r pre vpre" and p: "S p = Some pn" and i: "S i = None"
    and dv: "ps dvd length (s_units leaf)" and lv: "length v = length (s_units leaf)"
  shows "stored ps (sh_add ps p i leaf S) (pre(i := pre p @ tag (s_extra leaf) (s_units leaf)))
           (vpre(i := vpre p @ v)) u w \<longleftrightarrow>
         stored ps S pre vpre u w \<or>
         (\<exists>k. 0 < k \<and> k \<le> length (s_units leaf) \<and> ps dvd k \<and>
            u = pre p @ tag (s_extra leaf) (take k (s_units leaf)) \<and> w = vpre p @ take k v)"
    (is "?new \<longleftrightarrow> ?old \<or> ?ext")
proof -
  have dom: "dom (sh_add ps p i leaf S) = insert i (dom S)" using p by (auto simp: sh_add_def)
  have len: "length (vpre p) = length (pre p)" "ps dvd length (pre p)"
    using lab_lengths [OF L p] by auto
  show ?thesis
  proof
    assume ?new
    then obtain x k where x: "x \<in> insert i (dom S)"
      "k \<le> length ((pre(i := pre p @ tag (s_extra leaf) (s_units leaf))) x)" "ps dvd k"
      "u = take k ((pre(i := pre p @ tag (s_extra leaf) (s_units leaf))) x)"
      "w = take k ((vpre(i := vpre p @ v)) x)"
      unfolding stored_def dom by blast
    show "?old \<or> ?ext"
    proof (cases "x = i")
      case False
      then show ?thesis using x unfolding stored_def by auto
    next
      case True
      show ?thesis
      proof (cases "k \<le> length (pre p)")
        case le: True
        then have "u = take k (pre p)" "w = take k (vpre p)" using x True len by simp_all
        then show ?thesis using le x(3) p unfolding stored_def by blast
      next
        case False
        then have "?ext" using x True len
          by (intro exI [of _ "k - length (pre p)"]) (simp add: dvd_diff_nat)
        then show ?thesis by blast
      qed
    qed
  next
    assume "?old \<or> ?ext"
    then show ?new
    proof
      assume ?old
      then obtain x k where x: "x \<in> dom S" "k \<le> length (pre x)" "ps dvd k" "u = take k (pre x)"
        "w = take k (vpre x)" unfolding stored_def by blast
      moreover have "x \<noteq> i" using x(1) i by auto
      ultimately show ?new unfolding stored_def dom by (intro bexI [of _ x] exI [of _ k]) auto
    next
      assume ?ext
      then obtain k where k: "0 < k" "k \<le> length (s_units leaf)" "ps dvd k"
        "u = pre p @ tag (s_extra leaf) (take k (s_units leaf))" "w = vpre p @ take k v" by blast
      then show ?new unfolding stored_def dom using len
        by (intro bexI [of _ i] exI [of _ "length (pre p) + k"]) auto
    qed
  qed
qed

definition sh_del :: "nat \<Rightarrow> nat \<Rightarrow> shape \<Rightarrow> shape" where
  "sh_del ps i S =
     (case S i of None \<Rightarrow> S | Some n \<Rightarrow> (case s_parent n of None \<Rightarrow> S | Some p \<Rightarrow> (case S p of
        None \<Rightarrow> S
      | Some pn \<Rightarrow> S(i := None, p \<mapsto> pn\<lparr>s_children := AList.delete (s_ck ps n) (s_children pn)\<rparr>))))"

lemma lab_del:
  assumes L: "lab ps big S r pre vpre" and i: "S i = Some n" "i \<noteq> r" and leaf: "s_children n = []"
  shows "lab ps big (sh_del ps i S) r pre vpre" (is "lab ps big ?S r pre vpre")
proof -
  let ?p = "par S i"
  obtain pn where p: "S ?p = Some pn" "s_parent n = Some ?p"
    "map_of (s_children pn) (s_ck ps n) = Some i" "length (pre ?p) < length (pre i)"
    by (rule lab_par [OF L i])
  define pn' where "pn' = pn\<lparr>s_children := AList.delete (s_ck ps n) (s_children pn)\<rparr>"
  have ne: "i \<noteq> ?p" using p(4) by auto
  have S': "?S = S(i := None, ?p \<mapsto> pn')" by (simp add: sh_del_def i p(1,2) pn'_def)
  have at: "?S i = None" "?S ?p = Some pn'" "\<And>x. x \<noteq> i \<Longrightarrow> x \<noteq> ?p \<Longrightarrow> ?S x = S x"
    using ne by (simp_all add: S')
  have pch: "map_of (s_children pn') = (map_of (s_children pn))(s_ck ps n := None)"
    by (simp add: pn'_def delete_conv')
  have eqs: "s_parent pn' = s_parent pn" "s_units pn' = s_units pn" "s_big pn' = s_big pn"
    "s_extra pn' = s_extra pn" "s_value pn' = s_value pn" "s_ck ps pn' = s_ck ps pn"
    by (simp_all add: pn'_def s_ck_def)
  have dst: "distinct (map fst (s_children pn'))"
    using lab_distinct [OF L p(1)] by (simp add: pn'_def distinct_delete)
  show ?thesis
  proof (rule labI)
    show "0 < ps" by (rule lab_ps [OF L])
    show "\<exists>rn. ?S r = Some rn \<and> s_parent rn = None \<and> s_units rn = [] \<and> s_value rn = Some []"
      using lab_root [OF L] at i(2) p(1) eqs by (cases "r = ?p") auto
    show "pre r = []" "vpre r = []" using lab_pre_root [OF L] by auto
  next
    fix x nx
    assume x: "?S x = Some nx" "x \<noteq> r"
    have xi: "x \<noteq> i" using x at by auto
    then obtain n0 where n0: "S x = Some n0" "s_parent nx = s_parent n0" "s_units nx = s_units n0"
        "s_big nx = s_big n0" "s_extra nx = s_extra n0" "s_value nx = s_value n0"
        "s_ck ps nx = s_ck ps n0"
      using x at p(1) eqs by (cases "x = ?p") auto
    obtain q qn w where q: "s_parent n0 = Some q" "S q = Some qn"
        "map_of (s_children qn) (s_ck ps n0) = Some x" "s_units n0 \<noteq> []" "ps dvd length (s_units n0)"
        "s_big n0 = big" "s_value n0 = Some w" "length w = length (s_units n0)"
        "pre x = pre q @ tag (s_extra n0) (s_units n0)" "vpre x = vpre q @ w"
      by (rule lab_node [OF L n0(1) x(2)])
    have qi: "q \<noteq> i" using q(2,3) i leaf by auto
    have "\<exists>qn'. ?S q = Some qn' \<and> map_of (s_children qn') (s_ck ps n0) = Some x"
    proof (cases "q = ?p")
      case True
      then have "s_ck ps n0 \<noteq> s_ck ps n" using q(2,3) p(1,3) xi by auto
      then show ?thesis using True q(2,3) p(1) at(2) pch by simp
    next
      case False
      then show ?thesis using q(2,3) at(3) qi by simp
    qed
    then show "\<exists>q qn w. s_parent nx = Some q \<and> ?S q = Some qn \<and>
        map_of (s_children qn) (s_ck ps nx) = Some x \<and> s_units nx \<noteq> [] \<and>
        ps dvd length (s_units nx) \<and> s_big nx = big \<and> s_value nx = Some w \<and>
        length w = length (s_units nx) \<and>
        pre x = pre q @ tag (s_extra nx) (s_units nx) \<and> vpre x = vpre q @ w"
      using q n0 by auto
  next
    fix x nx k j
    assume x: "?S x = Some nx" and kj: "(k, j) \<in> set (s_children nx)"
    have xi: "x \<noteq> i" using x at by auto
    have "\<exists>n0. S x = Some n0 \<and> (k, j) \<in> set (s_children n0) \<and> (x = ?p \<longrightarrow> k \<noteq> s_ck ps n)"
    proof (cases "x = ?p")
      case True
      then have "map_of (s_children pn') k = Some j" using x at kj dst map_of_set by force
      then have "map_of (s_children pn) k = Some j" "k \<noteq> s_ck ps n"
        by (auto simp: pch split: if_splits)
      then show ?thesis using True p(1) map_of_SomeD by fast
    next
      case False
      then show ?thesis using x kj at(3) xi by simp
    qed
    then obtain n0 where n0: "S x = Some n0" "(k, j) \<in> set (s_children n0)"
      "x = ?p \<longrightarrow> k \<noteq> s_ck ps n" by blast
    obtain mm where mm: "S j = Some mm" "j \<noteq> r" "s_parent mm = Some x" "k = s_ck ps mm"
      by (rule lab_child [OF L n0(1,2)])
    have "j \<noteq> i" using mm i p(2) n0(3) by auto
    then show "\<exists>m. ?S j = Some m \<and> j \<noteq> r \<and> s_parent m = Some x \<and> k = s_ck ps m"
      using mm at(2,3) p(1) eqs by (cases "j = ?p") simp_all
  next
    fix x nx
    assume "?S x = Some nx"
    then show "distinct (map fst (s_children nx))"
      using at dst lab_distinct [OF L] by (cases "x = i"; cases "x = ?p") auto
  qed
qed

lemma stored_del:
  assumes L: "lab ps big S r pre vpre" and i: "S i = Some n" "i \<noteq> r"
  shows "stored ps (sh_del ps i S) pre vpre u v \<Longrightarrow> stored ps S pre vpre u v"
    and "stored ps S pre vpre u v \<Longrightarrow>
      stored ps (sh_del ps i S) pre vpre u v \<or>
      (\<exists>k\<le>length (pre i). length (pre (par S i)) < k \<and> u = take k (pre i) \<and> v = take k (vpre i))"
proof -
  obtain pn w where p: "S (par S i) = Some pn" "s_parent n = Some (par S i)"
    "length w = length (s_units n)" "length (pre (par S i)) < length (pre i)"
    "pre i = pre (par S i) @ tag (s_extra n) (s_units n)" "vpre i = vpre (par S i) @ w"
    by (rule lab_par [OF L i])
  have dom: "dom (sh_del ps i S) = dom S - {i}"
    using i p by (auto simp: sh_del_def)
  show "stored ps (sh_del ps i S) pre vpre u v \<Longrightarrow> stored ps S pre vpre u v"
    unfolding stored_def dom by blast
  assume "stored ps S pre vpre u v"
  then obtain x k where x: "x \<in> dom S" "k \<le> length (pre x)" "ps dvd k" "u = take k (pre x)"
    "v = take k (vpre x)" unfolding stored_def by blast
  show "stored ps (sh_del ps i S) pre vpre u v \<or>
      (\<exists>k\<le>length (pre i). length (pre (par S i)) < k \<and> u = take k (pre i) \<and> v = take k (vpre i))"
  proof (cases "x = i \<and> length (pre (par S i)) < k")
    case True
    then show ?thesis using x by blast
  next
    case False
    have "\<exists>y\<in>dom S - {i}. k \<le> length (pre y) \<and> u = take k (pre y) \<and> v = take k (vpre y)"
    proof (cases "x = i")
      case True
      then have "k \<le> length (pre (par S i))" using False by simp
      moreover have "length (vpre (par S i)) = length (pre (par S i))"
        using lab_lengths [OF L p(1)] by simp
      moreover have "par S i \<in> dom S - {i}" using p(1,4) by auto
      ultimately show ?thesis using x True p(5,6) by (intro bexI [of _ "par S i"]) simp_all
    next
      case False
      then show ?thesis using x by blast
    qed
    then show ?thesis using x(3) unfolding stored_def dom by blast
  qed
qed

text \<open>Changing a lock count touches neither the tree nor what it stores.\<close>

definition sh_lock :: "nat \<Rightarrow> int \<Rightarrow> shape \<Rightarrow> shape" where
  "sh_lock i d S = (case S i of None \<Rightarrow> S | Some n \<Rightarrow> S(i \<mapsto> n\<lparr>s_lock := s_lock n + d\<rparr>))"

lemma sh_lock_at:
  "sh_lock i d S x = map_option (\<lambda>n. n\<lparr>s_lock := s_lock n + (if x = i then d else 0)\<rparr>) (S x)"
  by (cases "S i"; cases "S x") (auto simp: sh_lock_def)

lemma dom_sh_lock [simp]: "dom (sh_lock i d S) = dom S"
  by (auto simp: sh_lock_at)

lemma lab_lock:
  assumes L: "lab ps big S r pre vpre"
  shows "lab ps big (sh_lock i d S) r pre vpre"
proof -
  have eqs: "\<exists>n. S x = Some n \<and> nx = n\<lparr>s_lock := s_lock nx\<rparr>" if "sh_lock i d S x = Some nx" for x nx
    using that by (auto simp: sh_lock_at)
  have ck: "s_ck ps (n\<lparr>s_lock := z\<rparr>) = s_ck ps n" for n z by (simp add: s_ck_def)
  have fwd: "\<exists>nx. sh_lock i d S x = Some nx \<and> s_children nx = s_children n \<and>
      s_parent nx = s_parent n \<and> s_ck ps nx = s_ck ps n" if "S x = Some n" for x n
    using that by (simp add: sh_lock_at ck)
  show ?thesis
  proof (rule labI)
    show "0 < ps" by (rule lab_ps [OF L])
    show "\<exists>rn. sh_lock i d S r = Some rn \<and> s_parent rn = None \<and> s_units rn = [] \<and>
        s_value rn = Some []"
      using lab_root [OF L] by (auto simp: sh_lock_at)
    show "pre r = []" "vpre r = []" using lab_pre_root [OF L] by auto
  next
    fix x nx
    assume x: "sh_lock i d S x = Some nx" "x \<noteq> r"
    then obtain n where n: "S x = Some n" "nx = n\<lparr>s_lock := s_lock nx\<rparr>" using eqs by blast
    have eq1: "s_ck ps nx = s_ck ps n" by (subst n(2)) (simp add: ck)
    have eq2: "s_parent nx = s_parent n" "s_units nx = s_units n" "s_big nx = s_big n"
      "s_value nx = s_value n" "s_extra nx = s_extra n" by (subst n(2), simp)+
    show "\<exists>q qn w. s_parent nx = Some q \<and> sh_lock i d S q = Some qn \<and>
        map_of (s_children qn) (s_ck ps nx) = Some x \<and> s_units nx \<noteq> [] \<and>
        ps dvd length (s_units nx) \<and> s_big nx = big \<and> s_value nx = Some w \<and>
        length w = length (s_units nx) \<and>
        pre x = pre q @ tag (s_extra nx) (s_units nx) \<and> vpre x = vpre q @ w"
      unfolding eq1 eq2 by (rule lab_node [OF L n(1) x(2)]) (use fwd in fastforce)
  next
    fix x nx k j
    assume x: "sh_lock i d S x = Some nx" and kj: "(k, j) \<in> set (s_children nx)"
    then obtain n where n: "S x = Some n" "nx = n\<lparr>s_lock := s_lock nx\<rparr>" using eqs by blast
    have "(k, j) \<in> set (s_children n)" using kj by (subst (asm) n(2)) simp
    then show "\<exists>m. sh_lock i d S j = Some m \<and> j \<noteq> r \<and> s_parent m = Some x \<and> k = s_ck ps m"
      by (rule lab_child [OF L n(1)]) (use fwd in fastforce)
  next
    fix x nx
    assume "sh_lock i d S x = Some nx"
    then show "distinct (map fst (s_children nx))"
      using eqs lab_distinct [OF L] by (auto simp: sh_lock_at)
  qed
qed

lemma stored_lock [simp]: "stored ps (sh_lock i d S) pre vpre u v = stored ps S pre vpre u v"
  by (simp add: stored_def)

end
