(* ===== verification/Radix_Account.thy ===== *)
theory Radix_Account
  imports Radix_Shape
begin

text \<open>
  The book-keeping of the radix tree on shapes: lock counts, the two size counters and the set
  of evictable leaves.

  \<open>holds i\<close> is the number of outstanding \<open>inc_lock_ref\<close> calls on node \<open>i\<close> (each running request
  holds one on its \<open>last_node\<close>). \<open>locks\<close> says that the lock count of a node is the number of
  outstanding locks at or below it; while a lock operation walks towards the root the equation
  is off by \<open>d\<close> at the node \<open>x\<close> it has reached. \<open>acct\<close> says that the evictable and protected
  sizes are the unit totals of the unlocked and the locked nodes, and that the leaf set is
  exactly the unlocked leaves. Lemmas: each of the four shape changes keeps them.
\<close>

definition lockof :: "shape \<Rightarrow> nat \<Rightarrow> int" where
  "lockof S i = (case S i of None \<Rightarrow> 0 | Some n \<Rightarrow> s_lock n)"

definition child_locks :: "shape \<Rightarrow> snode \<Rightarrow> int" where
  "child_locks S n = sum_list (map (\<lambda>(k, j). lockof S j) (s_children n))"

definition locks :: "shape \<Rightarrow> nat \<Rightarrow> (nat \<Rightarrow> nat) \<Rightarrow> nat \<Rightarrow> int \<Rightarrow> bool" where
  "locks S r holds x d \<longleftrightarrow>
     lockof S r = 1 \<and>
     (\<forall>i. 0 \<le> lockof S i) \<and>
     (\<forall>i. S i = None \<longrightarrow> holds i = 0) \<and>
     (\<forall>i n. S i = Some n \<and> i \<noteq> r \<longrightarrow>
        s_lock n = int (holds i) + child_locks S n + (if i = x then d else 0))"

definition weight :: "shape \<Rightarrow> nat \<Rightarrow> int" where
  "weight S i = (case S i of None \<Rightarrow> 0 | Some n \<Rightarrow> int (length (s_units n)))"

definition ev_size :: "shape \<Rightarrow> nat \<Rightarrow> int" where
  "ev_size S r = (\<Sum>i\<in>dom S - {r}. if lockof S i = 0 then weight S i else 0)"

definition pr_size :: "shape \<Rightarrow> nat \<Rightarrow> int" where
  "pr_size S r = (\<Sum>i\<in>dom S - {r}. if lockof S i = 0 then 0 else weight S i)"

definition free_leaf :: "shape \<Rightarrow> nat \<Rightarrow> bool" where
  "free_leaf S i \<longleftrightarrow> (\<exists>n. S i = Some n \<and> s_lock n = 0 \<and> s_children n = [])"

definition acct :: "shape \<Rightarrow> nat \<Rightarrow> int \<Rightarrow> int \<Rightarrow> nat list \<Rightarrow> bool" where
  "acct S r ev pr leaves \<longleftrightarrow>
     finite (dom S) \<and> ev = ev_size S r \<and> pr = pr_size S r \<and>
     distinct leaves \<and> (\<forall>i. i \<in> set leaves \<longleftrightarrow> free_leaf S i)"

lemma locks_0: "locks S r holds x 0 = locks S r holds y 0"
  by (simp add: locks_def)

lemma child_locks_cong:
  "s_children n = s_children m \<Longrightarrow> (\<And>k j. (k, j) \<in> set (s_children m) \<Longrightarrow> lockof S j = lockof S' j) \<Longrightarrow>
   child_locks S n = child_locks S' m"
  unfolding child_locks_def by (intro arg_cong [where f = sum_list]) (auto intro!: map_cong)

lemma child_locks_nonneg: "(\<forall>i. 0 \<le> lockof S i) \<Longrightarrow> 0 \<le> child_locks S n"
  unfolding child_locks_def by (rule sum_list_nonneg) auto

text \<open>Updating one entry of an association list changes the sum by the difference; deleting an
  entry of weight zero changes nothing.\<close>

lemma sum_update:
  "distinct (map fst al) \<Longrightarrow> map_of al k = Some j \<Longrightarrow>
   sum_list (map (\<lambda>(k, j). f j) (AList.update k i al)) =
   sum_list (map (\<lambda>(k, j). f j) al) - f j + (f i :: int)"
proof (induction al)
  case Nil
  then show ?case by simp
next
  case (Cons a al)
  then show ?case by (cases a) auto
qed

lemma sum_update_new:
  "map_of al k = None \<Longrightarrow>
   sum_list (map (\<lambda>(k, j). f j) (AList.update k i al)) = sum_list (map (\<lambda>(k, j). f j) al) + (f i :: int)"
  by (induction al) (auto split: if_splits)

lemma sum_delete:
  "distinct (map fst al) \<Longrightarrow> map_of al k = Some j \<Longrightarrow>
   sum_list (map (\<lambda>(k, j). f j) (AList.delete k al)) =
   sum_list (map (\<lambda>(k, j). f j) al) - (f j :: int)"
proof (induction al)
  case Nil
  then show ?case by simp
next
  case (Cons a al)
  obtain k' j' where a: "a = (k', j')" by (cases a)
  show ?case
  proof (cases "k' = k")
    case True
    then show ?thesis using Cons.prems a by (simp add: delete_notin_dom)
  next
    case False
    then show ?thesis using Cons a by simp
  qed
qed

lemma sum_bump:
  "distinct (map fst al) \<Longrightarrow> (k0, i) \<in> set al \<Longrightarrow> \<forall>k j. (k, j) \<in> set al \<longrightarrow> (j = i \<longleftrightarrow> k = k0) \<Longrightarrow>
   sum_list (map (\<lambda>(k, j). f j + (if j = i then d else 0)) al) =
   sum_list (map (\<lambda>(k, j). f j) al) + (d :: int)"
proof (induction al)
  case Nil
  then show ?case by simp
next
  case (Cons a al)
  obtain k' j' where a: "a = (k', j')" by (cases a)
  show ?case
  proof (cases "k' = k0")
    case True
    then have "j' = i" using Cons.prems(3) a by auto
    have "j \<noteq> i" if "(k, j) \<in> set al" for k j
    proof
      assume "j = i"
      then have "k = k0" using Cons.prems(3) that by auto
      then show False using Cons.prems(1) a True that by force
    qed
    then have "map (\<lambda>(k, j). f j + (if j = i then d else 0)) al = map (\<lambda>(k, j). f j) al" by auto
    then show ?thesis using a \<open>j' = i\<close> by (simp del: map_eq_conv)
  next
    case False
    then have "j' \<noteq> i" using Cons.prems(3) a by auto
    then show ?thesis using Cons False a by simp
  qed
qed

section \<open>Locks\<close>

lemma locksD:
  assumes "locks S r holds x d"
  shows "lockof S r = 1" "0 \<le> lockof S i" "S i = None \<Longrightarrow> holds i = 0"
    "S i = Some n \<Longrightarrow> i \<noteq> r \<Longrightarrow>
       s_lock n = int (holds i) + child_locks S n + (if i = x then d else 0)"
  using assms unfolding locks_def by blast+

lemma locksI:
  assumes "lockof S r = 1" "\<And>i. 0 \<le> lockof S i" "\<And>i. S i = None \<Longrightarrow> holds i = 0"
    "\<And>i n. S i = Some n \<Longrightarrow> i \<noteq> r \<Longrightarrow>
       s_lock n = int (holds i) + child_locks S n + (if i = x then d else 0)"
  shows "locks S r holds x d"
  using assms unfolding locks_def by blast

lemma lockof_sh_lock: "lockof (sh_lock i d S) x = lockof S x + (if x = i \<and> S i \<noteq> None then d else 0)"
  by (cases "S x") (auto simp: lockof_def sh_lock_at)

text \<open>One step of a walk towards the root: the imbalance moves from a node to its parent.\<close>

lemma locks_step:
  assumes L: "lab ps big S r pre vpre" and K: "locks S r holds i (- d)"
    and i: "S i = Some n" "i \<noteq> r" and pos: "0 \<le> s_lock n + d"
  shows "locks (sh_lock i d S) r holds (par S i) (- d)" (is "locks ?S r holds ?p _")
proof (rule locksI)
  obtain pn where p: "S ?p = Some pn" "s_parent n = Some ?p"
    "map_of (s_children pn) (s_ck ps n) = Some i" "length (pre ?p) < length (pre i)"
    by (rule lab_par [OF L i])
  show "lockof ?S r = 1" using locksD(1) [OF K] i(2) by (simp add: lockof_sh_lock)
  show "0 \<le> lockof ?S x" for x
    using locksD(2) [OF K, of x] pos i(1) by (auto simp: lockof_sh_lock) (simp add: lockof_def)
  show "?S x = None \<Longrightarrow> holds x = 0" for x using locksD(3) [OF K] by (simp add: sh_lock_at)
  fix x nx
  assume x: "?S x = Some nx" "x \<noteq> r"
  then obtain n0 where n0: "S x = Some n0" "nx = n0\<lparr>s_lock := s_lock n0 + (if x = i then d else 0)\<rparr>"
    by (auto simp: sh_lock_at)
  have sl: "s_lock nx = s_lock n0 + (if x = i then d else 0)" and sc: "s_children nx = s_children n0"
    by (simp_all add: n0(2))
  have cl: "child_locks ?S nx = child_locks S n0 + (if x = ?p then d else 0)"
  proof (cases "x = ?p")
    case True
    then have pn: "pn = n0" using p(1) n0(1) by simp
    have dst: "distinct (map fst (s_children n0))" by (rule lab_distinct [OF L n0(1)])
    have ki: "(s_ck ps n, i) \<in> set (s_children n0)" using p(3) pn map_of_SomeD by fast
    have "j = i \<longleftrightarrow> k = s_ck ps n" if kj: "(k, j) \<in> set (s_children n0)" for k j
    proof
      assume "j = i"
      then show "k = s_ck ps n" using i(1) by (rule_tac lab_child [OF L n0(1) kj]) simp
    next
      assume "k = s_ck ps n"
      then have "map_of (s_children n0) (s_ck ps n) = Some j" using kj map_of_set [OF dst] by blast
      then show "j = i" using p(3) pn by simp
    qed
    then have "sum_list (map (\<lambda>(k, j). lockof S j + (if j = i then d else 0)) (s_children n0))
        = sum_list (map (\<lambda>(k, j). lockof S j) (s_children n0)) + d"
      using sum_bump [OF dst ki, of "lockof S" d] by blast
    then show ?thesis using True i(1) sc by (simp add: child_locks_def lockof_sh_lock)
  next
    case False
    have "j \<noteq> i" if "(k, j) \<in> set (s_children n0)" for k j
      by (rule lab_child [OF L n0(1) that]) (use i(1) p(2) False in auto)
    then show ?thesis using False child_locks_cong [OF sc, of ?S S] by (simp add: lockof_sh_lock)
  qed
  have "s_lock n0 = int (holds x) + child_locks S n0 + (if x = i then - d else 0)"
    by (rule locksD(4) [OF K n0(1) x(2)])
  moreover have "i \<noteq> ?p" using p(4) by auto
  ultimately show "s_lock nx = int (holds x) + child_locks ?S nx + (if x = ?p then - d else 0)"
    using sl cl by auto
qed

lemma locks_hold:
  assumes "locks S r holds x 0" and "S i = Some n"
  shows "locks S r (holds(i := holds i + 1)) i (- 1)"
  using assms by (auto simp: locks_def)

lemma locks_release:
  assumes "locks S r holds x 0" and "0 < holds i"
  shows "locks S r (holds(i := holds i - 1)) i 1"
  using assms by (auto simp: locks_def of_nat_diff)

lemma locks_root: "locks S r holds r d \<Longrightarrow> locks S r holds x 0"
  by (auto simp: locks_def)

text \<open>Splitting a node, adding an unlocked leaf and removing an unlocked leaf leave the lock
  equation balanced.\<close>

lemma sh_split_at:
  assumes "S ch = Some n" "s_parent n = Some p" "S p = Some pn" "i \<noteq> ch" "i \<noteq> p" "ch \<noteq> p"
  shows "sh_split ps ch i m S ch = Some (n\<lparr>s_parent := Some i, s_units := drop m (s_units n),
                    s_value := map_option (drop m) (s_value n)\<rparr>)"
    "sh_split ps ch i m S i = Some \<lparr>s_children = [((s_extra n, take ps (drop m (s_units n))), ch)],
       s_parent = Some p, s_extra = s_extra n, s_big = s_big n, s_units = take m (s_units n),
       s_value = map_option (take m) (s_value n), s_lock = s_lock n\<rparr>"
    "sh_split ps ch i m S p = Some (pn\<lparr>s_children := AList.update (s_ck ps n) i (s_children pn)\<rparr>)"
    "x \<noteq> i \<Longrightarrow> x \<noteq> ch \<Longrightarrow> x \<noteq> p \<Longrightarrow> sh_split ps ch i m S x = S x"
  using assms by (simp_all add: sh_split_def)

lemma split_par:
  assumes L: "lab ps big S r pre vpre" and ch: "S ch = Some n" "ch \<noteq> r" and i: "S i = None"
  obtains pn where "S (par S ch) = Some pn" "s_parent n = Some (par S ch)"
    "map_of (s_children pn) (s_ck ps n) = Some ch" "i \<noteq> ch" "i \<noteq> par S ch" "ch \<noteq> par S ch" "i \<noteq> r"
proof -
  obtain pn where p: "S (par S ch) = Some pn" "s_parent n = Some (par S ch)"
    "map_of (s_children pn) (s_ck ps n) = Some ch" "length (pre (par S ch)) < length (pre ch)"
    by (rule lab_par [OF L ch])
  have "i \<noteq> ch" "i \<noteq> par S ch" "ch \<noteq> par S ch" "i \<noteq> r"
    using p ch i lab_root [OF L] by auto
  then show ?thesis using that p by blast
qed

lemma lockof_split:
  assumes L: "lab ps big S r pre vpre" and ch: "S ch = Some n" "ch \<noteq> r" and i: "S i = None"
  shows "lockof (sh_split ps ch i m S) x = (if x = i then s_lock n else lockof S x)"
proof -
  obtain pn where p: "S (par S ch) = Some pn" "s_parent n = Some (par S ch)"
    "i \<noteq> ch" "i \<noteq> par S ch" "ch \<noteq> par S ch"
    by (rule split_par [OF L ch i])
  note at = sh_split_at [OF ch(1) p(2,1,3,4,5), where ps = ps and m = m]
  show ?thesis
    using at ch(1) p(1,3,4)
    by (cases "x = i"; cases "x = ch"; cases "x = par S ch") (simp_all add: lockof_def)
qed

lemma locks_split:
  assumes L: "lab ps big S r pre vpre" and K: "locks S r holds y 0"
    and ch: "S ch = Some n" "ch \<noteq> r" and i: "S i = None"
  shows "locks (sh_split ps ch i m S) r holds y 0" (is "locks ?S r holds y 0")
proof (rule locksI)
  obtain pn where p: "S (par S ch) = Some pn" "s_parent n = Some (par S ch)"
    "map_of (s_children pn) (s_ck ps n) = Some ch" "i \<noteq> ch" "i \<noteq> par S ch" "ch \<noteq> par S ch" "i \<noteq> r"
    by (rule split_par [OF L ch i])
  note at = sh_split_at [OF ch(1) p(2,1,4,5,6), where ps = ps and m = m]
  note lk = lockof_split [OF L ch i, of m]
  have chl: "lockof S ch = s_lock n" using ch by (simp add: lockof_def)
  show "lockof ?S r = 1" using locksD(1) [OF K] p(7) lk by simp
  show "0 \<le> lockof ?S x" for x using locksD(2) [OF K] chl lk by (metis (full_types))
  show "?S x = None \<Longrightarrow> holds x = 0" for x
    using locksD(3) [OF K, of x] at by (cases "x = i"; cases "x = ch"; cases "x = par S ch") auto
  fix x nx
  assume x: "?S x = Some nx" "x \<noteq> r"
  have ifree: "j \<noteq> i" if "S z = Some nz" "(k, j) \<in> set (s_children nz)" for z nz k j
    by (rule lab_child [OF L that]) (use i in auto)
  consider "x = i" | "x = par S ch" | "x \<noteq> i" "x \<noteq> par S ch" by blast
  then show "s_lock nx = int (holds x) + child_locks ?S nx + (if x = y then 0 else 0)"
  proof cases
    case 1
    then show ?thesis using x at(2) locksD(3) [OF K i] lk chl p(4) by (auto simp: child_locks_def)
  next
    case 2
    then have nx: "nx = pn\<lparr>s_children := AList.update (s_ck ps n) i (s_children pn)\<rparr>"
      using x at(3) by simp
    have "child_locks ?S nx = sum_list (map (\<lambda>(k, j). lockof ?S j) (s_children pn))
        - lockof ?S ch + lockof ?S i"
      using sum_update [OF lab_distinct [OF L p(1)] p(3), of "lockof ?S" i]
      by (simp add: child_locks_def nx)
    also have "\<dots> = child_locks ?S pn" using lk p(4) chl by (simp add: child_locks_def)
    also have "\<dots> = child_locks S pn" using ifree [OF p(1)] lk by (intro child_locks_cong) auto
    finally show ?thesis using locksD(4) [OF K p(1)] 2 x(2) nx by simp
  next
    case 3
    then obtain n0 where n0: "S x = Some n0" "s_children nx = s_children n0" "s_lock nx = s_lock n0"
      using x at(1,4) ch(1) by (cases "x = ch") auto
    have "child_locks ?S nx = child_locks S n0"
      using ifree [OF n0(1)] lk by (intro child_locks_cong [OF n0(2)]) auto
    then show ?thesis using locksD(4) [OF K n0(1) x(2)] n0(3) by simp
  qed
qed

lemma locks_add:
  assumes L: "lab ps big S r pre vpre" and K: "locks S r holds y 0" and p: "S p = Some pn"
    and i: "S i = None" and leaf: "s_children leaf = []" "s_lock leaf = 0"
    and new: "map_of (s_children pn) (s_ck ps leaf) = None"
  shows "locks (sh_add ps p i leaf S) r holds y 0" (is "locks ?S r holds y 0")
proof (rule locksI)
  have ne: "i \<noteq> p" "i \<noteq> r" using i p lab_root [OF L] by auto
  have at: "?S i = Some leaf"
    "?S p = Some (pn\<lparr>s_children := AList.update (s_ck ps leaf) i (s_children pn)\<rparr>)"
    "\<And>x. x \<noteq> i \<Longrightarrow> x \<noteq> p \<Longrightarrow> ?S x = S x"
    using ne p by (simp_all add: sh_add_def)
  have lk: "lockof ?S x = lockof S x" for x
    using at p i leaf by (cases "x = i"; cases "x = p") (auto simp: lockof_def)
  show "lockof ?S r = 1" "0 \<le> lockof ?S x" for x using locksD(1,2) [OF K] lk by simp_all
  show "?S x = None \<Longrightarrow> holds x = 0" for x
    using locksD(3) [OF K, of x] at by (cases "x = i"; cases "x = p") auto
  fix x nx
  assume x: "?S x = Some nx" "x \<noteq> r"
  show "s_lock nx = int (holds x) + child_locks ?S nx + (if x = y then 0 else 0)"
  proof (cases "x = i")
    case True
    then show ?thesis using x at(1) leaf locksD(3) [OF K i] by (simp add: child_locks_def)
  next
    case False
    have "lockof S i = 0" using i by (simp add: lockof_def)
    then have "x = p \<Longrightarrow> child_locks ?S nx = child_locks S pn"
      using x at(2) sum_update_new [OF new, of "lockof ?S" i] lk by (auto simp: child_locks_def)
    with False obtain n0 where n0: "S x = Some n0" "s_lock nx = s_lock n0"
      "child_locks ?S nx = child_locks S n0"
      using x at p lk by (cases "x = p") (auto simp: child_locks_def)
    then show ?thesis using locksD(4) [OF K n0(1) x(2)] by simp
  qed
qed

lemma locks_del:
  assumes L: "lab ps big S r pre vpre" and K: "locks S r holds y 0"
    and i: "S i = Some n" "i \<noteq> r" and leaf: "s_children n = []" "s_lock n = 0"
  shows "locks (sh_del ps i S) r holds y 0" (is "locks ?S r holds y 0")
proof (rule locksI)
  obtain pn where p: "S (par S i) = Some pn" "s_parent n = Some (par S i)"
    "map_of (s_children pn) (s_ck ps n) = Some i" "length (pre (par S i)) < length (pre i)"
    by (rule lab_par [OF L i])
  have ne: "i \<noteq> par S i" using p(4) by auto
  have at: "?S i = None"
    "?S (par S i) = Some (pn\<lparr>s_children := AList.delete (s_ck ps n) (s_children pn)\<rparr>)"
    "\<And>x. x \<noteq> i \<Longrightarrow> x \<noteq> par S i \<Longrightarrow> ?S x = S x"
    using ne i p by (simp_all add: sh_del_def)
  have lk: "lockof ?S x = lockof S x" for x
    using at p(1) i leaf by (cases "x = i"; cases "x = par S i") (auto simp: lockof_def)
  have hi: "holds i = 0" using locksD(4) [OF K i] leaf by (simp add: child_locks_def)
  show "lockof ?S r = 1" "0 \<le> lockof ?S x" for x using locksD(1,2) [OF K] lk by simp_all
  show "?S x = None \<Longrightarrow> holds x = 0" for x
    using locksD(3) [OF K, of x] at hi by (cases "x = i"; cases "x = par S i") auto
  fix x nx
  assume x: "?S x = Some nx" "x \<noteq> r"
  have "lockof S i = 0" using i leaf by (simp add: lockof_def)
  then have "x = par S i \<Longrightarrow> child_locks ?S nx = child_locks S pn"
    using x at(2) sum_delete [OF lab_distinct [OF L p(1)] p(3), of "lockof ?S"] lk
    by (auto simp: child_locks_def)
  then obtain n0 where n0: "S x = Some n0" "s_lock nx = s_lock n0"
      "child_locks ?S nx = child_locks S n0"
    using x at p(1) lk by (cases "x = i"; cases "x = par S i") (auto simp: child_locks_def)
  then show "s_lock nx = int (holds x) + child_locks ?S nx + (if x = y then 0 else 0)"
    using locksD(4) [OF K n0(1) x(2)] by simp
qed

section \<open>Sizes and leaves\<close>

lemma acctD:
  assumes "acct S r ev pr leaves"
  shows "finite (dom S)" "ev = ev_size S r" "pr = pr_size S r" "distinct leaves"
    "i \<in> set leaves \<longleftrightarrow> free_leaf S i"
  using assms by (simp_all add: acct_def)

lemma sum_replace:
  fixes f f' :: "nat \<Rightarrow> int"
  assumes "finite D" and "i \<notin> D" and "ch \<in> D" and "\<And>x. x \<in> D \<Longrightarrow> x \<noteq> ch \<Longrightarrow> f' x = f x"
    and "f' i + f' ch = f ch"
  shows "sum f' (insert i D) = sum f D"
proof -
  have "sum f' D = f' ch + sum f' (D - {ch})" using assms(1,3) by (rule sum.remove)
  moreover have "sum f D = f ch + sum f (D - {ch})" using assms(1,3) by (rule sum.remove)
  moreover have "sum f' (D - {ch}) = sum f (D - {ch})" using assms(4) by (intro sum.cong) auto
  ultimately show ?thesis using assms(1,2,5) by simp
qed

lemma sum_change:
  fixes f f' :: "nat \<Rightarrow> int"
  assumes "finite D" and "i \<in> D" and "\<And>x. x \<in> D \<Longrightarrow> x \<noteq> i \<Longrightarrow> f' x = f x"
  shows "sum f' D = sum f D - f i + f' i"
proof -
  have "sum f' D = f' i + sum f' (D - {i})" using assms(1,2) by (rule sum.remove)
  moreover have "sum f D = f i + sum f (D - {i})" using assms(1,2) by (rule sum.remove)
  moreover have "sum f' (D - {i}) = sum f (D - {i})" using assms(3) by (intro sum.cong) auto
  ultimately show ?thesis by simp
qed

lemma acct_split:
  assumes L: "lab ps big S r pre vpre" and A: "acct S r ev pr leaves"
    and ch: "S ch = Some n" "ch \<noteq> r" and i: "S i = None" and m: "m \<le> length (s_units n)"
  shows "acct (sh_split ps ch i m S) r ev pr leaves" (is "acct ?S r ev pr leaves")
proof -
  obtain pn where p: "S (par S ch) = Some pn" "s_parent n = Some (par S ch)"
    "map_of (s_children pn) (s_ck ps n) = Some ch" "i \<noteq> ch" "i \<noteq> par S ch" "ch \<noteq> par S ch" "i \<noteq> r"
    by (rule split_par [OF L ch i])
  note at = sh_split_at [OF ch(1) p(2,1,4,5,6), where ps = ps and m = m]
  note lk = lockof_split [OF L ch i, of m]
  have chl: "lockof S ch = s_lock n" using ch by (simp add: lockof_def)
  have dom: "dom ?S - {r} = insert i (dom S - {r})"
    using at ch(1) p(1,7) by (auto simp: sh_split_def p(2))
  have fin: "finite (dom S)" using acctD(1) [OF A] .
  have w: "weight ?S i = int m" "weight ?S ch = int (length (s_units n)) - int m"
    "weight S ch = int (length (s_units n))"
    using at(1,2) ch(1) m by (simp_all add: weight_def of_nat_diff)
  have w': "weight ?S x = weight S x" if "x \<noteq> i" "x \<noteq> ch" for x
    using that at(3,4) p(1) by (cases "x = par S ch") (simp_all add: weight_def)
  have "ev_size ?S r = ev_size S r" "pr_size ?S r = pr_size S r"
    unfolding ev_size_def pr_size_def dom
    using fin i ch w w' lk chl p(4) by (intro sum_replace [of _ i ch]; auto)+
  moreover have "free_leaf ?S x \<longleftrightarrow> free_leaf S x" for x
  proof -
    have "s_children (pn\<lparr>s_children := AList.update (s_ck ps n) i (s_children pn)\<rparr>) \<noteq> []"
      "s_children pn \<noteq> []" using p(3) by (auto simp: update_nonempty)
    then show ?thesis using at ch(1) p(1) i
      by (cases "x = i"; cases "x = ch"; cases "x = par S ch") (auto simp: free_leaf_def)
  qed
  moreover have "finite (dom ?S)" using fin dom by (metis finite_insert finite_Diff_insert Diff_empty)
  ultimately show ?thesis using A by (simp add: acct_def)
qed

lemma acct_add:
  assumes L: "lab ps big S r pre vpre" and A: "acct S r ev pr leaves" and p: "S p = Some pn"
    and i: "S i = None" and leaf: "s_children leaf = []" "s_lock leaf = 0"
    and leaves: "distinct leaves'" "\<And>x. x \<in> set leaves' \<longleftrightarrow> x = i \<or> x \<in> set leaves \<and> x \<noteq> p"
  shows "acct (sh_add ps p i leaf S) r (ev + int (length (s_units leaf))) pr leaves'"
    (is "acct ?S r _ pr leaves'")
proof -
  have ne: "i \<noteq> p" "i \<noteq> r" using i p lab_root [OF L] by auto
  have at: "?S i = Some leaf"
    "?S p = Some (pn\<lparr>s_children := AList.update (s_ck ps leaf) i (s_children pn)\<rparr>)"
    "\<And>x. x \<noteq> i \<Longrightarrow> x \<noteq> p \<Longrightarrow> ?S x = S x"
    using ne p by (simp_all add: sh_add_def)
  have lk: "lockof ?S x = lockof S x" for x
    using at p i leaf by (cases "x = i"; cases "x = p") (auto simp: lockof_def)
  have w: "weight ?S i = int (length (s_units leaf))" using at(1) by (simp add: weight_def)
  have w': "weight ?S x = weight S x" if "x \<noteq> i" for x
    using that at(2,3) p by (cases "x = p") (simp_all add: weight_def)
  have dom: "dom ?S - {r} = insert i (dom S - {r})" using p ne by (auto simp: sh_add_def)
  have fin: "finite (dom S)" using acctD(1) [OF A] .
  have li: "lockof S i = 0" using i by (simp add: lockof_def)
  have nin: "i \<notin> dom S - {r}" using i by auto
  have same: "sum f (dom S - {r}) = sum g (dom S - {r})" if "\<And>x. x \<noteq> i \<Longrightarrow> f x = g x" for f g :: "nat \<Rightarrow> int"
    by (intro sum.cong refl that) (use nin in auto)
  have "(\<Sum>x\<in>dom S - {r}. if lockof ?S x = 0 then weight ?S x else 0) = ev_size S r"
    "(\<Sum>x\<in>dom S - {r}. if lockof ?S x = 0 then 0 else weight ?S x) = pr_size S r"
    unfolding ev_size_def pr_size_def by (rule same; simp add: lk w')+
  then have "ev_size ?S r = int (length (s_units leaf)) + ev_size S r" "pr_size ?S r = pr_size S r"
    unfolding ev_size_def [of ?S] pr_size_def [of ?S] dom using fin nin lk w li by simp_all
  moreover have "free_leaf ?S x \<longleftrightarrow> x = i \<or> free_leaf S x \<and> x \<noteq> p" for x
  proof -
    have "s_children (pn\<lparr>s_children := AList.update (s_ck ps leaf) i (s_children pn)\<rparr>) \<noteq> []"
      by (simp add: update_nonempty)
    then show ?thesis using at p i leaf by (cases "x = i"; cases "x = p") (auto simp: free_leaf_def)
  qed
  moreover have "finite (dom ?S)" using fin dom by (metis finite_insert finite_Diff_insert Diff_empty)
  ultimately show ?thesis using A leaves by (simp add: acct_def)
qed

lemma acct_del:
  assumes L: "lab ps big S r pre vpre" and A: "acct S r ev pr leaves"
    and i: "S i = Some n" "i \<noteq> r" and leaf: "s_children n = []" "s_lock n = 0"
    and leaves: "distinct leaves'"
      "\<And>x. x \<in> set leaves' \<longleftrightarrow> (if x = par S i then free_leaf (sh_del ps i S) x
                             else x \<in> set leaves \<and> x \<noteq> i)"
  shows "acct (sh_del ps i S) r (ev - int (length (s_units n))) pr leaves'" (is "acct ?S r _ pr leaves'")
proof -
  obtain pn where p: "S (par S i) = Some pn" "s_parent n = Some (par S i)"
    "map_of (s_children pn) (s_ck ps n) = Some i" "length (pre (par S i)) < length (pre i)"
    by (rule lab_par [OF L i])
  have ne: "i \<noteq> par S i" using p(4) by auto
  have at: "?S i = None"
    "?S (par S i) = Some (pn\<lparr>s_children := AList.delete (s_ck ps n) (s_children pn)\<rparr>)"
    "\<And>x. x \<noteq> i \<Longrightarrow> x \<noteq> par S i \<Longrightarrow> ?S x = S x"
    using ne i p by (simp_all add: sh_del_def)
  have lk: "lockof ?S x = lockof S x" for x
    using at p(1) i leaf by (cases "x = i"; cases "x = par S i") (auto simp: lockof_def)
  have w: "weight S i = int (length (s_units n))" "x \<noteq> i \<Longrightarrow> weight ?S x = weight S x" for x
    using at p(1) i by (cases "x = par S i"; auto simp: weight_def)+
  have dom: "dom S - {r} = insert i (dom ?S - {r})" "i \<notin> dom ?S - {r}"
    using i p ne by (auto simp: sh_del_def)
  have fin: "finite (dom S)" using acctD(1) [OF A] .
  then have fin': "finite (dom ?S)" using dom by (metis finite_insert finite_Diff_insert Diff_empty)
  have li: "lockof S i = 0" using i leaf by (simp add: lockof_def)
  have same: "sum f (dom ?S - {r}) = sum g (dom ?S - {r})" if "\<And>x. x \<noteq> i \<Longrightarrow> f x = g x"
    for f g :: "nat \<Rightarrow> int"
    by (intro sum.cong refl that) (use dom(2) in auto)
  have "(\<Sum>x\<in>dom ?S - {r}. if lockof S x = 0 then weight S x else 0) = ev_size ?S r"
    "(\<Sum>x\<in>dom ?S - {r}. if lockof S x = 0 then 0 else weight S x) = pr_size ?S r"
    unfolding ev_size_def pr_size_def by (rule same; simp add: lk w)+
  then have "ev_size S r = int (length (s_units n)) + ev_size ?S r" "pr_size ?S r = pr_size S r"
    unfolding ev_size_def [of S] pr_size_def [of S] dom(1) using fin' dom(2) w li by simp_all
  moreover have "x \<noteq> par S i \<Longrightarrow> free_leaf ?S x \<longleftrightarrow> free_leaf S x \<and> x \<noteq> i" for x
    using at by (cases "x = i") (auto simp: free_leaf_def)
  ultimately show ?thesis using A leaves fin' by (auto simp: acct_def)
qed

lemma acct_lock:
  assumes A: "acct S r ev pr leaves" and i: "S i = Some n" "i \<noteq> r"
    and leaves: "distinct leaves'"
      "\<And>x. x \<in> set leaves' \<longleftrightarrow> (if x = i then free_leaf (sh_lock i d S) i else x \<in> set leaves)"
  defines "len \<equiv> int (length (s_units n))"
  shows "acct (sh_lock i d S) r
           (ev + (if s_lock n + d = 0 then len else 0) - (if s_lock n = 0 then len else 0))
           (pr + (if s_lock n + d = 0 then 0 else len) - (if s_lock n = 0 then 0 else len)) leaves'"
proof -
  have w: "weight (sh_lock i d S) x = weight S x" for x
    by (cases "S x") (auto simp: weight_def sh_lock_at)
  have wi: "weight S i = len" "lockof S i = s_lock n"
    using i by (simp_all add: weight_def len_def lockof_def)
  have lk: "lockof (sh_lock i d S) x = lockof S x + (if x = i then d else 0)" for x
    using i by (simp add: lockof_sh_lock)
  have fin: "finite (dom S - {r})" "i \<in> dom S - {r}" using acctD(1) [OF A] i by auto
  have "ev_size (sh_lock i d S) r =
      ev_size S r - (if s_lock n = 0 then len else 0) + (if s_lock n + d = 0 then len else 0)"
    unfolding ev_size_def dom_sh_lock
    by (subst sum_change [OF fin, where f = "\<lambda>x. if lockof S x = 0 then weight S x else 0"])
      (simp_all add: w wi lk)
  moreover have "pr_size (sh_lock i d S) r =
      pr_size S r - (if s_lock n = 0 then 0 else len) + (if s_lock n + d = 0 then 0 else len)"
    unfolding pr_size_def dom_sh_lock
    by (subst sum_change [OF fin, where f = "\<lambda>x. if lockof S x = 0 then 0 else weight S x"])
      (simp_all add: w wi lk)
  moreover have "x \<noteq> i \<Longrightarrow> free_leaf (sh_lock i d S) x = free_leaf S x" for x
    by (cases "S x") (auto simp: free_leaf_def sh_lock_at)
  ultimately show ?thesis using A leaves by (auto simp: acct_def)
qed

section \<open>Slots\<close>

text \<open>The KV slots the nodes of a tree hold, with multiplicity.\<close>

definition node_slots :: "shape \<Rightarrow> nat \<Rightarrow> nat multiset" where
  "node_slots S i = (case S i of None \<Rightarrow> {#} | Some n \<Rightarrow> (case s_value n of None \<Rightarrow> {#} | Some v \<Rightarrow> mset v))"

definition slots :: "shape \<Rightarrow> nat multiset" where
  "slots S = (\<Sum>i\<in>dom S. node_slots S i)"

lemma slots_lock [simp]: "slots (sh_lock i d S) = slots S"
  unfolding slots_def dom_sh_lock by (intro sum.cong) (auto simp: node_slots_def sh_lock_at)

lemma slots_split:
  assumes L: "lab ps big S r pre vpre" and fin: "finite (dom S)"
    and ch: "S ch = Some n" "ch \<noteq> r" and i: "S i = None"
  shows "slots (sh_split ps ch i m S) = slots S"
proof -
  let ?S = "sh_split ps ch i m S"
  obtain pn where p: "S (par S ch) = Some pn" "s_parent n = Some (par S ch)"
    "i \<noteq> ch" "i \<noteq> par S ch" "ch \<noteq> par S ch"
    by (rule split_par [OF L ch i])
  obtain v where v: "s_value n = Some v" by (rule lab_par [OF L ch])
  note at = sh_split_at [OF ch(1) p(2,1,3,4,5), where ps = ps and m = m]
  have dom: "dom ?S = insert i (insert ch (dom S - {ch}))"
    using ch p by (auto simp: sh_split_def)
  have same: "node_slots ?S x = node_slots S x" if "x \<in> dom S - {ch}" for x
  proof -
    have "x \<noteq> i" using that i by auto
    then show ?thesis using that at p(1) by (cases "x = par S ch") (auto simp: node_slots_def)
  qed
  have "node_slots ?S i + node_slots ?S ch = node_slots S ch"
    using at(1,2) ch(1) v by (simp add: node_slots_def flip: mset_append)
  moreover have "sum (node_slots ?S) (dom S - {ch}) = sum (node_slots S) (dom S - {ch})"
    by (intro sum.cong refl same)
  then have "slots ?S = node_slots ?S i + (node_slots ?S ch + sum (node_slots S) (dom S - {ch}))"
    unfolding slots_def dom using fin i p(3)
    by (subst sum.insert) (auto simp del: insert_Diff_single)
  moreover have "slots S = node_slots S ch + sum (node_slots S) (dom S - {ch})"
    unfolding slots_def using fin ch(1) by (intro sum.remove) auto
  ultimately show ?thesis by (simp add: ac_simps)
qed

lemma slots_add:
  assumes fin: "finite (dom S)" and p: "S p = Some pn" and i: "S i = None" and v: "s_value leaf = Some v"
  shows "slots (sh_add ps p i leaf S) = slots S + mset v"
proof -
  let ?S = "sh_add ps p i leaf S"
  have ne: "i \<noteq> p" using i p by auto
  have dom: "dom ?S = insert i (dom S)" using p by (auto simp: sh_add_def)
  have "node_slots ?S x = node_slots S x" if "x \<in> dom S" for x
    using that p i by (cases "x = p"; cases "x = i") (auto simp: node_slots_def sh_add_def)
  then have "sum (node_slots ?S) (dom S) = slots S" unfolding slots_def by (intro sum.cong) auto
  moreover have "node_slots ?S i = mset v" using p ne v by (simp add: node_slots_def sh_add_def)
  ultimately show ?thesis unfolding slots_def [of ?S] dom using fin i by (simp add: domIff ac_simps)
qed

lemma slots_del:
  assumes L: "lab ps big S r pre vpre" and fin: "finite (dom S)" and i: "S i = Some n" "i \<noteq> r"
    and v: "s_value n = Some v"
  shows "slots S = slots (sh_del ps i S) + mset v"
proof -
  let ?S = "sh_del ps i S"
  obtain pn where p: "S (par S i) = Some pn" "s_parent n = Some (par S i)"
    "length (pre (par S i)) < length (pre i)"
    by (rule lab_par [OF L i])
  have ne: "i \<noteq> par S i" using p(3) by auto
  have dom: "dom ?S = dom S - {i}" using i p ne by (auto simp: sh_del_def)
  have "node_slots ?S x = node_slots S x" if "x \<in> dom S - {i}" for x
    using that p i ne by (cases "x = par S i") (auto simp: node_slots_def sh_del_def)
  then have "slots ?S = sum (node_slots S) (dom S - {i})" unfolding slots_def dom by (intro sum.cong) auto
  moreover have "slots S = node_slots S i + sum (node_slots S) (dom S - {i})"
    unfolding slots_def using fin i(1) by (intro sum.remove) auto
  moreover have "node_slots S i = mset v" using i v by (simp add: node_slots_def)
  ultimately show ?thesis by (simp add: ac_simps)
qed

end
