(* ===== verification/Radix_Match.thy ===== *)
theory Radix_Match
  imports Radix_Ops
begin

text \<open>
  Prefix matching and insertion. \<open>stops_at\<close> is what both descents establish for a unit sequence
  \<open>U\<close>: the cache was only refined, the node reached carries a prefix of \<open>U\<close>, and no longer
  prefix of \<open>U\<close> is stored. Lemmas: one step of the descent (\<open>descend\<close>), the two loops, the leaf
  that insertion hangs below the node it stopped at (\<open>add_child_spec\<close>), and the two public
  operations.
\<close>

lemma shape_field_upd [simp]:
  "shape (c\<lparr>evictable_leaves := a\<rparr>) = shape c" "shape (c\<lparr>evictable_sz := b\<rparr>) = shape c"
  "shape (c\<lparr>protected_sz := b\<rparr>) = shape c" "shape (c\<lparr>ticks := d\<rparr>) = shape c"
  "shape (c\<lparr>kv_event_queue := e\<rparr>) = shape c" "shape (c\<lparr>session_leaves := f\<rparr>) = shape c"
  "shape (c\<lparr>closed_session_ids := g\<rparr>) = shape c" "shape (c\<lparr>node_counter := d\<rparr>) = shape c"
  by (simp_all add: shape_def fun_eq_iff)

section \<open>One step down\<close>

lemma floor_pages: "0 < (d::nat) \<Longrightarrow> d dvd m \<Longrightarrow> m \<le> x \<Longrightarrow> m \<le> x div d * d"
  by (metis div_le_mono dvd_div_mult_self mult_le_mono1)

lemma descend:
  assumes I: "cache_inv cfg holds c pre vpre" and n: "nodes c i = Some n"
    and ch: "map_of (children n) (extra_key k, take (page_size cfg) (units k)) = Some ch"
    and k: "is_bigram k = is_eagle cfg" "page_size cfg dvd key_len k" "0 < key_len k"
  obtains m v q where "nodes c ch = Some m" "ch \<noteq> root_node c" "par (shape c) ch = i"
    "nvalue m = Some v" "length v = key_len (nkey m)" "page_size cfg dvd key_len (nkey m)"
    "extra_key (nkey m) = extra_key k" "pre ch = pre i @ tag (extra_key k) (units (nkey m))"
    "vpre ch = vpre i @ v" "key_match (nkey m) k (page_size cfg) = Inr q"
    "page_size cfg \<le> q" "page_size cfg dvd q" "q \<le> key_len (nkey m)" "q \<le> key_len k"
    "take q (units (nkey m)) = take q (units k)"
    "q + page_size cfg \<le> key_len k \<Longrightarrow> q + page_size cfg \<le> key_len (nkey m) \<Longrightarrow>
     take (q + page_size cfg) (units (nkey m)) \<noteq> take (q + page_size cfg) (units k)"
proof -
  let ?ps = "page_size cfg" and ?S = "shape c"
  note L = invD(1) [OF I]
  have ps: "0 < ?ps" by (rule lab_ps [OF L])
  have "map_of (s_children (skel n)) (extra_key k, take ?ps (units k)) = Some ch" using ch by simp
  then obtain s where s: "?S ch = Some s" "ch \<noteq> root_node c" "par ?S ch = i"
    "(extra_key k, take ?ps (units k)) = s_ck ?ps s"
    using lab_child_of [OF L shape_Some [OF n]] by metis
  obtain m where m: "nodes c ch = Some m" "s = skel m" using s(1) by (auto simp: shape_Some_iff)
  obtain v where v: "nvalue m = Some v" "length v = key_len (nkey m)" "?ps dvd key_len (nkey m)"
    "units (nkey m) \<noteq> []" "pre ch = pre i @ tag (extra_key (nkey m)) (units (nkey m))"
    "vpre ch = vpre i @ v"
    by (rule lab_par [OF L s(1,2)]) (simp add: m(2) s(3))
  have big: "is_bigram (nkey m) = is_eagle cfg" by (rule lab_node [OF L s(1,2)]) (simp add: m(2))
  have e: "extra_key (nkey m) = extra_key k" "take ?ps (units (nkey m)) = take ?ps (units k)"
    using s(4) by (simp_all add: s_ck_def m(2))
  let ?l = "lcp (units (nkey m)) (units k)"
  define q where "q = ?l div ?ps * ?ps"
  have km: "key_match (nkey m) k ?ps = Inr q"
    using key_match_lcp [OF e(1) _ ps] big k(1) by (simp add: q_def)
  have "key_len (nkey m) \<noteq> 0" using v(4) by (metis key_len_units length_0_conv)
  then have pl: "?ps \<le> key_len k" "?ps \<le> key_len (nkey m)"
    using k(2,3) v(3) by (auto simp: dvd_imp_le)
  then have "?ps \<le> ?l" using e(2) by (simp add: le_lcp_iff)
  then have "?ps \<le> q" using floor_pages [OF ps dvd_refl] by (simp add: q_def)
  moreover have "q \<le> ?l" by (simp add: q_def)
  then have "q \<le> key_len (nkey m)" "q \<le> key_len k" "take q (units (nkey m)) = take q (units k)"
    by (simp_all add: le_lcp_iff)
  moreover have "?ps dvd q" by (simp add: q_def)
  moreover have "take (q + ?ps) (units (nkey m)) \<noteq> take (q + ?ps) (units k)"
    if "q + ?ps \<le> key_len k" "q + ?ps \<le> key_len (nkey m)"
  proof
    assume "take (q + ?ps) (units (nkey m)) = take (q + ?ps) (units k)"
    then have "q + ?ps \<le> ?l" using that by (simp add: le_lcp_iff)
    then have "q + ?ps \<le> q" using floor_pages [OF ps, of "q + ?ps" ?l] by (simp add: q_def)
    then show False using ps by simp
  qed
  ultimately show ?thesis
    using that [OF m(1) s(2,3) v(1-3) e(1) _ v(6) km] v(5) e(1) by simp
qed

section \<open>Where a descent stops\<close>

definition stops_at ::
  "radix_config \<Rightarrow> (nat \<Rightarrow> nat) \<Rightarrow> radix_cache \<Rightarrow> (nat \<Rightarrow> tunit list) \<Rightarrow> (nat \<Rightarrow> nat list) \<Rightarrow>
   tunit list \<Rightarrow> radix_cache \<Rightarrow> (nat \<Rightarrow> tunit list) \<Rightarrow> (nat \<Rightarrow> nat list) \<Rightarrow> nat \<Rightarrow> bool" where
  "stops_at cfg holds c pre vpre U c' pre' vpre' j \<longleftrightarrow>
     refines cfg holds c pre vpre c' pre' vpre' \<and> nodes c' j \<noteq> None \<and>
     pre' j = take (length (pre' j)) U \<and>
     (\<forall>k v. k \<le> length U \<and> page_size cfg dvd k \<and>
        stored (page_size cfg) (shape c') pre' vpre' (take k U) v \<longrightarrow> k \<le> length (pre' j))"

lemma stops_at_trans:
  assumes "refines cfg holds c pre vpre c1 pre1 vpre1" "stops_at cfg holds c1 pre1 vpre1 U c' pre' vpre' j"
  shows "stops_at cfg holds c pre vpre U c' pre' vpre' j"
  using assms refines_trans unfolding stops_at_def by blast

text \<open>A descent may stop at a node when the key is used up or no child starts with its next page.\<close>

lemma stops_atI:
  assumes R: "refines cfg holds c pre vpre c' pre' vpre'" and j: "nodes c' j = Some n"
    and U: "U = pre' j @ tag e us"
    and none: "us = [] \<or> map_of (children n) (e, take (page_size cfg) us) = None"
  shows "stops_at cfg holds c pre vpre U c' pre' vpre' j"
proof -
  note I = refines_inv [OF R]
  note L = invD(1) [OF I]
  let ?ps = "page_size cfg" and ?S = "shape c'"
  have U': "pre' j = take (length (pre' j)) U" by (simp add: U)
  have "k \<le> length (pre' j)" if k: "k \<le> length U" "?ps dvd k" "stored ?ps ?S pre' vpre' (take k U) v" for k v
  proof (cases "us = []")
    case True
    then show ?thesis using k U by simp
  next
    case False
    show ?thesis
    proof (rule stored_maximal [OF L shape_Some [OF j] U' _ k(3,1,2)])
      fix x nx
      assume x: "?S x = Some nx" "x \<noteq> root_node c'" "par ?S x = j"
      obtain pn where p: "?S j = Some pn" "map_of (s_children pn) (s_ck ?ps nx) = Some x"
        "pre' x = pre' j @ tag (s_extra nx) (s_units nx)" "s_units nx \<noteq> []"
        by (rule lab_par [OF L x(1,2)]) (use x(3) in simp)
      show "take (length (pre' j) + ?ps) (pre' x) \<noteq> take (length (pre' j) + ?ps) U"
      proof
        assume "take (length (pre' j) + ?ps) (pre' x) = take (length (pre' j) + ?ps) U"
        then have "tag (s_extra nx) (take ?ps (s_units nx)) = tag e (take ?ps us)"
          using p(3) U by simp
        moreover have "take ?ps (s_units nx) \<noteq> []" using p(4) lab_ps [OF L] by simp
        ultimately have "s_ck ?ps nx = (e, take ?ps us)" by (auto simp: tag_eq_iff s_ck_def)
        then show False using p(1,2) none False j by auto
      qed
    qed
  qed
  then show ?thesis using R j U' by (auto simp: stops_at_def)
qed

text \<open>Splitting a child at the end of the common prefix exposes such a node.\<close>

lemma split_stops:
  assumes I: "cache_inv cfg holds c pre vpre" and m: "nodes c ch = Some m" "ch \<noteq> root_node c"
    "par (shape c) ch = i" "nvalue m = Some v" "length v = key_len (nkey m)"
    and e: "extra_key (nkey m) = extra_key k" "pre ch = pre i @ tag (extra_key k) (units (nkey m))"
    "vpre ch = vpre i @ v" and i: "nodes c i \<noteq> None"
    and q: "page_size cfg \<le> q" "page_size cfg dvd q" "q < key_len (nkey m)" "q \<le> key_len k"
    "take q (units (nkey m)) = take q (units k)" "page_size cfg dvd key_len k"
    "page_size cfg dvd key_len (nkey m)"
    "q + page_size cfg \<le> key_len k \<Longrightarrow> q + page_size cfg \<le> key_len (nkey m) \<Longrightarrow>
     take (q + page_size cfg) (units (nkey m)) \<noteq> take (q + page_size cfg) (units k)"
  obtains j c' pre' vpre' nn where "split_node cfg (nkey m) ch q c = Inr (j, c')"
    "refines cfg holds c pre vpre c' pre' vpre'" "nodes c' j = Some nn" "nvalue nn = Some (take q v)"
    "pre' j = pre i @ tag (extra_key k) (take q (units k))" "vpre' j = vpre i @ take q v"
    "drop q (units k) = [] \<or>
     map_of (children nn) (extra_key k, take (page_size cfg) (drop q (units k))) = None"
proof -
  let ?ps = "page_size cfg"
  have ps: "0 < ?ps" by (rule lab_ps [OF invD(1) [OF I]])
  let ?a = "length (pre (par (shape c) ch)) + q" and ?j = "node_counter c"
  obtain c' nn w where s: "split_node cfg (nkey m) ch q c = Inr (?j, c')"
    "refines cfg holds c pre vpre c' (pre(?j := take ?a (pre ch))) (vpre(?j := take ?a (vpre ch)))"
    "nodes c' ?j = Some nn" "nvalue nn = Some (take q w)" "nvalue m = Some w"
    "children nn = [((extra_key (nkey m), take ?ps (drop q (units (nkey m)))), ch)]"
    using split_node_spec [OF I m(1,2) _ q(3,2)] q(1) ps by (metis gr0I leD)
  have lv: "length (vpre i) = length (pre i)"
    using lab_lengths [OF invD(1) [OF I]] i by (metis not_None_eq shape_Some)
  have "drop q (units k) = [] \<or>
      map_of (children nn) (extra_key k, take ?ps (drop q (units k))) = None"
  proof (rule disjCI)
    assume ne: "map_of (children nn) (extra_key k, take ?ps (drop q (units k))) \<noteq> None"
    show "drop q (units k) = []"
    proof (rule ccontr)
      assume "drop q (units k) \<noteq> []"
      then have less: "q < key_len k" by simp
      have le: "q + ?ps \<le> key_len k" "q + ?ps \<le> key_len (nkey m)"
        using dvd_less_add [OF q(2,6) less] dvd_less_add [OF q(2,7,3)] by auto
      have "take ?ps (drop q (units (nkey m))) = take ?ps (drop q (units k))"
        using ne s(6) by (simp split: if_splits)
      then have "take (q + ?ps) (units (nkey m)) = take (q + ?ps) (units k)"
        using q(5) by (simp add: take_add)
      then show False using q(8) le by simp
    qed
  qed
  moreover have "w = v" using s(5) m(4) by simp
  ultimately show ?thesis
    using that [OF s(1,2,3)] s(4) m(3) e lv q(5) by simp
qed

section \<open>The matching loop\<close>

lemma key_rest_sel [simp]:
  "extra_key (key_rest m k) = extra_key k" "is_bigram (key_rest m k) = is_bigram k"
  "units (key_rest m k) = drop m (units k)"
  by (simp_all add: key_rest_def units_key_drop)

lemma key_len_rest [simp]: "key_len (key_rest m k) = key_len k - m"
  by (metis key_len_units key_rest_sel(3) length_drop)

lemma next_child_key:
  assumes "0 < page_size cfg" "page_size cfg dvd key_len k"
  shows "0 < key_len k \<Longrightarrow>
    lift_py (child_key (page_size cfg) k) = Inr (extra_key k, take (page_size cfg) (units k))"
  using child_key_units [OF assms(1)] assms(2) by (simp add: dvd_imp_le)

text \<open>The loop invariant: the part of \<open>U\<close> already matched is the label of the current node and
  the rest is the remaining key.\<close>

definition descending :: "radix_config \<Rightarrow> tunit list \<Rightarrow> (nat \<Rightarrow> tunit list) \<Rightarrow> nat \<Rightarrow> radix_key \<Rightarrow> ckey \<Rightarrow> bool" where
  "descending cfg U pre i k ck \<longleftrightarrow>
     U = pre i @ tag (extra_key k) (units k) \<and> is_bigram k = is_eagle cfg \<and>
     page_size cfg dvd key_len k \<and>
     (0 < key_len k \<longrightarrow> ck = (extra_key k, take (page_size cfg) (units k)))"

lemma descending_rest:
  assumes D: "descending cfg U pre i k ck" and ps: "0 < page_size cfg"
    and q: "page_size cfg dvd q" "q \<le> key_len k"
    and j: "pre' j = pre i @ tag (extra_key k) (take q (units k))"
  obtains ck' where
    "(if 0 < key_len (key_rest q k) then lift_py (child_key (page_size cfg) (key_rest q k)) else Inr ck)
       = Inr ck'" "descending cfg U pre' j (key_rest q k) ck'"
proof -
  have dv: "page_size cfg dvd key_len (key_rest q k)"
    using D q by (simp add: descending_def dvd_diff_nat)
  let ?ck = "if 0 < key_len (key_rest q k)
    then (extra_key k, take (page_size cfg) (drop q (units k))) else ck"
  have "(if 0 < key_len (key_rest q k) then lift_py (child_key (page_size cfg) (key_rest q k))
      else Inr ck) = Inr ?ck"
    using next_child_key [OF ps dv] by simp
  moreover have "tag (extra_key k) (take q (units k)) @ tag (extra_key k) (drop q (units k)) =
      tag (extra_key k) (units k)"
    by (simp flip: tag_simps(2))
  then have "descending cfg U pre' j (key_rest q k) ?ck"
    using D dv j by (simp add: descending_def)
  ultimately show ?thesis using that by blast
qed

lemma match_loop_spec:
  assumes "cache_inv cfg holds c pre vpre" and "nodes c i = Some n" and "descending cfg U pre i k ck"
    and "key_len k < fuel" and "concat acc = vpre i"
  shows "\<exists>vals j c' pre' vpre'. match_loop cfg fuel i k ck t acc c = Inr ((vals, j), c') \<and>
    stops_at cfg holds c pre vpre U c' pre' vpre' j \<and> concat vals = vpre' j"
  using assms
proof (induction fuel arbitrary: i n k ck acc c pre vpre)
  case 0
  then show ?case by simp
next
  case (Suc fuel)
  note I = Suc.prems(1) and n = Suc.prems(2) and D = Suc.prems(3)
  have U: "U = pre i @ tag (extra_key k) (units k)" and big: "is_bigram k = is_eagle cfg"
    and dv: "page_size cfg dvd key_len k"
    and ck: "0 < key_len k \<Longrightarrow> ck = (extra_key k, take (page_size cfg) (units k))"
    using D by (auto simp: descending_def)
  let ?ps = "page_size cfg" and ?next = "if 0 < key_len k then map_of (children n) ck else None"
  have ps: "0 < ?ps" by (rule lab_ps [OF invD(1) [OF I]])
  show ?case
  proof (cases ?next)
    case None
    then have "units k = [] \<or> map_of (children n) (extra_key k, take ?ps (units k)) = None"
      using ck by (auto split: if_splits simp flip: length_0_conv)
    moreover have "refines cfg holds c pre vpre c pre vpre"
      by (rule refines_same [OF I]) simp_all
    ultimately have "stops_at cfg holds c pre vpre U c pre vpre i" using stops_atI n U by blast
    moreover have "match_loop cfg (Suc fuel) i k ck t acc c = Inr ((acc, i), c)" using n None by simp
    ultimately show ?thesis using Suc.prems(5) by blast
  next
    case (Some ch)
    define c1 where "c1 = upd_node ch (\<lambda>m. m\<lparr>last_access_time := t\<rparr>) c"
    have R1: "refines cfg holds c pre vpre c1 pre vpre"
      unfolding c1_def by (rule refines_upd_same [OF I]) (simp_all add: skel_def node_hash_ok_iff)
    note I1 = refines_inv [OF R1]
    have pos: "0 < key_len k" "map_of (children n) (extra_key k, take ?ps (units k)) = Some ch"
      using Some ck by (auto split: if_splits)
    obtain n1 where n1: "nodes c1 i = Some n1" "children n1 = children n"
      using n by (cases "i = ch") (auto simp: c1_def)
    obtain m v q where m: "nodes c1 ch = Some m" "ch \<noteq> root_node c1" "par (shape c1) ch = i"
      "nvalue m = Some v" "length v = key_len (nkey m)" "?ps dvd key_len (nkey m)"
      "extra_key (nkey m) = extra_key k" "pre ch = pre i @ tag (extra_key k) (units (nkey m))"
      "vpre ch = vpre i @ v" "key_match (nkey m) k ?ps = Inr q" "?ps \<le> q" "?ps dvd q"
      "q \<le> key_len (nkey m)" "q \<le> key_len k" "take q (units (nkey m)) = take q (units k)"
      "q + ?ps \<le> key_len k \<Longrightarrow> q + ?ps \<le> key_len (nkey m) \<Longrightarrow>
       take (q + ?ps) (units (nkey m)) \<noteq> take (q + ?ps) (units k)"
      using descend [OF I1 n1(1) _ big dv pos(1)] pos(2) n1(2) by metis
    have unf: "match_loop cfg (Suc fuel) i k ck t acc c =
        (if q < key_len (nkey m)
         then rbind (split_node cfg (nkey m) ch q c1) (\<lambda>(new_node, c2).
              rbind (get_node new_node c2) (\<lambda>nn.
              rbind (get_value nn) (\<lambda>v. Inr ((acc @ [v], new_node), c2))))
         else rbind (if 0 < key_len (key_rest q k) then lift_py (child_key ?ps (key_rest q k)) else Inr ck)
                (\<lambda>ck'. match_loop cfg fuel ch (key_rest q k) ck' t (acc @ [v]) c1))"
      using n Some m(1,4,10) by (simp add: c1_def [symmetric] Let_def)
    show ?thesis
    proof (cases "q < key_len (nkey m)")
      case True
      have "nodes c1 i \<noteq> None" using n1 by simp
      from split_stops [OF I1 m(1-5,7-9) this m(11,12) True m(14,15) dv m(6,16)]
      obtain j c' pre' vpre' nn where s: "split_node cfg (nkey m) ch q c1 = Inr (j, c')"
        "refines cfg holds c1 pre vpre c' pre' vpre'" "nodes c' j = Some nn"
        "nvalue nn = Some (take q v)" "pre' j = pre i @ tag (extra_key k) (take q (units k))"
        "vpre' j = vpre i @ take q v"
        "drop q (units k) = [] \<or> map_of (children nn) (extra_key k, take ?ps (drop q (units k))) = None"
        by metis
      have "U = pre' j @ tag (extra_key k) (drop q (units k))"
        using U s(5) by (simp flip: tag_simps(2))
      then have "stops_at cfg holds c pre vpre U c' pre' vpre' j"
        using stops_atI [OF refines_trans [OF R1 s(2)] s(3)] s(7) by blast
      moreover have "match_loop cfg (Suc fuel) i k ck t acc c = Inr ((acc @ [take q v], j), c')"
        using unf True s by simp
      ultimately show ?thesis using s(6) Suc.prems(5) by fastforce
    next
      case False
      then have q: "q = key_len (nkey m)" using m(13) by simp
      then have um: "units (nkey m) = take q (units k)" using m(15) by simp
      then have "pre ch = pre i @ tag (extra_key k) (take q (units k))" using m(8) by simp
      then obtain ck' where ck': "(if 0 < key_len (key_rest q k)
          then lift_py (child_key ?ps (key_rest q k)) else Inr ck) = Inr ck'"
        "descending cfg U pre ch (key_rest q k) ck'"
        using descending_rest [OF D ps m(12,14)] by metis
      have "key_len (key_rest q k) < fuel" using Suc.prems(4) m(11,14) ps by simp
      from Suc.IH [OF I1 m(1) ck'(2) this, of "acc @ [v]"] obtain vals j c' pre' vpre' where
        "match_loop cfg fuel ch (key_rest q k) ck' t (acc @ [v]) c1 = Inr ((vals, j), c')"
        "stops_at cfg holds c1 pre vpre U c' pre' vpre' j" "concat vals = vpre' j"
        using Suc.prems(5) m(9) by auto
      then show ?thesis using unf False ck'(1) stops_at_trans [OF R1] by fastforce
    qed
  qed
qed

section \<open>The insertion loop\<close>

lemma touch_node_ok:
  "skel (inc_hit_count chunked (raise_priority prio n)) = skel n"
  "node_hash_ok ps (inc_hit_count chunked (raise_priority prio n)) = node_hash_ok ps n"
  "children (inc_hit_count chunked (raise_priority prio n)) = children n"
  by (simp_all add: inc_hit_count_def raise_priority_def skel_def node_hash_ok_iff)

lemma insert_loop_spec:
  assumes "cache_inv cfg holds c pre vpre" and "nodes c i = Some n" and "descending cfg U pre i k ck"
    and "key_len k < fuel"
  shows "\<exists>j k' ck' m c' pre' vpre' nj.
    insert_loop cfg fuel i k val prio chunked ck t total_prefix c =
      Inr ((j, k', drop m val, ck', total_prefix + m), c') \<and>
    stops_at cfg holds c pre vpre U c' pre' vpre' j \<and> descending cfg U pre' j k' ck' \<and>
    extra_key k' = extra_key k \<and>
    length (pre' j) = length (pre i) + m \<and> nodes c' j = Some nj \<and>
    (key_len k' = 0 \<or> map_of (children nj) ck' = None)"
  using assms
proof (induction fuel arbitrary: i n k ck val total_prefix c pre vpre)
  case 0
  then show ?case by simp
next
  case (Suc fuel)
  note I = Suc.prems(1) and n = Suc.prems(2) and D = Suc.prems(3)
  have U: "U = pre i @ tag (extra_key k) (units k)" and big: "is_bigram k = is_eagle cfg"
    and dv: "page_size cfg dvd key_len k"
    and ck: "0 < key_len k \<Longrightarrow> ck = (extra_key k, take (page_size cfg) (units k))"
    using D by (auto simp: descending_def)
  let ?ps = "page_size cfg" and ?next = "if 0 < key_len k then map_of (children n) ck else None"
  have ps: "0 < ?ps" by (rule lab_ps [OF invD(1) [OF I]])
  show ?case
  proof (cases ?next)
    case None
    then have "units k = [] \<or> map_of (children n) (extra_key k, take ?ps (units k)) = None"
      using ck by (auto split: if_splits simp flip: length_0_conv)
    moreover have "refines cfg holds c pre vpre c pre vpre"
      by (rule refines_same [OF I]) simp_all
    ultimately have "stops_at cfg holds c pre vpre U c pre vpre i" using stops_atI n U by blast
    moreover have "insert_loop cfg (Suc fuel) i k val prio chunked ck t total_prefix c =
        Inr ((i, k, drop 0 val, ck, total_prefix + 0), c)" using n None by simp
    moreover have "key_len k = 0 \<or> map_of (children n) ck = None" using None by (auto split: if_splits)
    ultimately show ?thesis using D n by (metis add.right_neutral)
  next
    case (Some ch)
    define c1 where "c1 = upd_node ch (\<lambda>m. m\<lparr>last_access_time := t\<rparr>) c"
    have R1: "refines cfg holds c pre vpre c1 pre vpre"
      unfolding c1_def by (rule refines_upd_same [OF I]) (simp_all add: skel_def node_hash_ok_iff)
    note I1 = refines_inv [OF R1]
    have pos: "0 < key_len k" "map_of (children n) (extra_key k, take ?ps (units k)) = Some ch"
      using Some ck by (auto split: if_splits)
    obtain n1 where n1: "nodes c1 i = Some n1" "children n1 = children n"
      using n by (cases "i = ch") (auto simp: c1_def)
    obtain m v q where m: "nodes c1 ch = Some m" "ch \<noteq> root_node c1" "par (shape c1) ch = i"
      "nvalue m = Some v" "length v = key_len (nkey m)" "?ps dvd key_len (nkey m)"
      "extra_key (nkey m) = extra_key k" "pre ch = pre i @ tag (extra_key k) (units (nkey m))"
      "vpre ch = vpre i @ v" "key_match (nkey m) k ?ps = Inr q" "?ps \<le> q" "?ps dvd q"
      "q \<le> key_len (nkey m)" "q \<le> key_len k" "take q (units (nkey m)) = take q (units k)"
      "q + ?ps \<le> key_len k \<Longrightarrow> q + ?ps \<le> key_len (nkey m) \<Longrightarrow>
       take (q + ?ps) (units (nkey m)) \<noteq> take (q + ?ps) (units k)"
      using descend [OF I1 n1(1) _ big dv pos(1)] pos(2) n1(2) by metis
    have "nodes c1 i \<noteq> None" using n1 by simp
    note split = split_stops [OF I1 m(1-5,7-9) this m(11,12) _ m(14,15) dv m(6,16)]
    obtain j c2 pre2 vpre2 nj where j:
      "(if q < key_len (nkey m) then split_node cfg (nkey m) ch q c1 else Inr (ch, c1)) = Inr (j, c2)"
      "refines cfg holds c1 pre vpre c2 pre2 vpre2" "nodes c2 j = Some nj"
      "pre2 j = pre i @ tag (extra_key k) (take q (units k))"
    proof (cases "q < key_len (nkey m)")
      case True
      then show ?thesis using split [OF True] that by metis
    next
      case False
      then have "units (nkey m) = take q (units k)" using m(13,15) by simp
      moreover have "refines cfg holds c1 pre vpre c1 pre vpre" by (rule refines_same [OF I1]) simp_all
      ultimately show ?thesis using that [of ch c1 pre vpre m] False m(1,8) by simp
    qed
    define c3 where "c3 = upd_node j (\<lambda>m. inc_hit_count chunked (raise_priority prio m)) c2"
    have R3: "refines cfg holds c2 pre2 vpre2 c3 pre2 vpre2"
      unfolding c3_def
      by (rule refines_upd_same [OF refines_inv [OF j(2)]]) (simp_all add: touch_node_ok)
    note R = refines_trans [OF R1 refines_trans [OF j(2) R3]]
    obtain ck' where ck': "(if 0 < key_len (key_rest q k)
        then lift_py (child_key ?ps (key_rest q k)) else Inr ck) = Inr ck'"
      "descending cfg U pre2 j (key_rest q k) ck'"
      using descending_rest [OF D ps m(12,14), of pre2 j] j(4) by metis
    have unf: "insert_loop cfg (Suc fuel) i k val prio chunked ck t total_prefix c =
        insert_loop cfg fuel j (key_rest q k) (drop q val) prio chunked ck' t (total_prefix + q) c3"
      using n Some m(1,10) j(1) ck'(1) by (simp add: c1_def [symmetric] c3_def [symmetric] Let_def)
    have n3: "nodes c3 j = Some (inc_hit_count chunked (raise_priority prio nj))"
      using j(3) by (simp add: c3_def)
    have lt: "key_len (key_rest q k) < fuel" using Suc.prems(4) m(11,14) ps by simp
    from Suc.IH [OF refines_inv [OF R3] n3 ck'(2) lt, of "drop q val" "total_prefix + q"]
    obtain j' k' ckk m' c' pre' vpre' nj' where
      "insert_loop cfg fuel j (key_rest q k) (drop q val) prio chunked ck' t (total_prefix + q) c3 =
         Inr ((j', k', drop m' (drop q val), ckk, total_prefix + q + m'), c')"
      "stops_at cfg holds c3 pre2 vpre2 U c' pre' vpre' j'" "descending cfg U pre' j' k' ckk"
      "extra_key k' = extra_key k" "length (pre' j') = length (pre2 j) + m'"
      "nodes c' j' = Some nj'" "key_len k' = 0 \<or> map_of (children nj') ckk = None"
      by auto
    then show ?thesis using unf stops_at_trans [OF R] j(4) m(14)
      by (intro exI [of _ j'] exI [of _ k'] exI [of _ ckk] exI [of _ "q + m'"] exI [of _ c']
          exI [of _ pre'] exI [of _ vpre'] exI [of _ nj']) (simp add: add.commute add.left_commute)
  qed
qed

section \<open>Adding a leaf\<close>

text \<open>What the cache relies on in the native hash: one hexadecimal digest per page.\<close>

definition hasher_ok :: "radix_config \<Rightarrow> bool" where
  "hasher_ok cfg \<longleftrightarrow>
     (\<forall>k ph. length (get_hash_str cfg k ph (page_size cfg)) =
              (key_len k + page_size cfg - 1) div page_size cfg \<and>
            (\<forall>h\<in>set (get_hash_str cfg k ph (page_size cfg)). \<exists>v. hash_str_to_int64 h = Inr v))"

lemma pages_exact: "0 < (ps::nat) \<Longrightarrow> ps dvd n \<Longrightarrow> (n + ps - 1) div ps = n div ps"
  by (auto elim!: dvdE intro!: div_nat_eqI simp: algebra_simps)

lemma hasher_hashes_for:
  assumes "hasher_ok cfg" "0 < page_size cfg" "page_size cfg dvd key_len k"
  shows "hashes_for (page_size cfg) (key_len k) (Some (get_hash_str cfg k ph (page_size cfg)))"
  using assms pages_exact by (auto simp: hasher_ok_def hashes_for_def)

lemma store_events_total:
  assumes "\<forall>h\<in>set hs. \<exists>v. hash_str_to_int64 h = Inr v" and "idx + length starts \<le> length hs"
  shows "\<exists>evs. store_events k ps hs ph starts idx = Inr evs"
  using assms(2)
proof (induction starts arbitrary: ph idx)
  case Nil
  then show ?case by simp
next
  case (Cons start starts)
  obtain v where v: "hash_str_to_int64 (hs ! idx) = Inr v" using Cons.prems assms(1) by fastforce
  have "\<exists>evs. store_events k ps hs (Some v) starts (idx + 1) = Inr evs"
    "\<exists>evs. store_events k ps hs ph starts idx = Inr evs"
    using Cons.IH [where idx = "idx + 1"] Cons.IH [where idx = idx] Cons.prems by auto
  then show ?case using v Cons.prems by (auto simp: Let_def)
qed

lemma record_store_event_spec:
  assumes I: "cache_inv cfg holds c pre vpre" and i: "nodes c i = Some n"
    and h: "enable_kv_cache_events cfg \<longrightarrow> hasher_ok cfg"
  obtains c' where "record_store_event cfg i c = Inr c'" "cache_inv cfg holds c' pre vpre"
    "shape c' = shape c" "root_node c' = root_node c" "evictable_sz c' = evictable_sz c"
    "protected_sz c' = protected_sz c" "evictable_leaves c' = evictable_leaves c"
    "node_counter c' = node_counter c" "session_leaves c' = session_leaves c"
    "closed_session_ids c' = closed_session_ids c"
proof (cases "enable_kv_cache_events cfg")
  case False
  then show ?thesis using that [of c] I by (simp add: record_store_event_def)
next
  case True
  note L = invD(1) [OF I]
  let ?ps = "page_size cfg"
  have ps: "0 < ?ps" by (rule lab_ps [OF L])
  have dv: "?ps dvd key_len (nkey n)"
  proof (cases "i = root_node c")
    case True
    then show ?thesis using lab_root [OF L] i by (metis dvd_0_right key_len_units list.size(3)
        option.inject shape_Some skel_sel(5))
  next
    case False
    then show ?thesis by (rule_tac lab_par [OF L shape_Some [OF i]]) simp_all
  qed
  define hs where "hs = (case hash_value n of None \<Rightarrow> compute_node_hash_values cfg n c | Some hs \<Rightarrow> hs)"
  have hs: "hashes_for ?ps (key_len (nkey n)) (Some hs)"
    using invD(5) [OF I i] hasher_hashes_for [OF _ ps dv] h True
    by (auto simp: hs_def node_hash_ok_iff compute_node_hash_values_def split: option.split)
  then have len: "length hs = key_len (nkey n) div ?ps" and
    good: "\<forall>h\<in>set hs. \<exists>v. hash_str_to_int64 h = Inr v"
    using ps by (auto simp: hashes_for_def) (metis div_mult_self_is_m)
  define c1 where "c1 = upd_node i (\<lambda>n. n\<lparr>hash_value := Some hs\<rparr>) c"
  define phs where "phs = (case parent n of None \<Rightarrow> []
      | Some p \<Rightarrow> if p = root_node c then []
               else (case nodes c1 p of None \<Rightarrow> []
                     | Some pn \<Rightarrow> (case hash_value pn of None \<Rightarrow> [] | Some ph \<Rightarrow> ph)))"
  have hk: "node_hash_ok ?ps x" if "nodes c1 j = Some x" for j x
    using that invD(5) [OF I] hs i by (auto simp: c1_def node_hash_ok_iff split: if_splits)
  have good': "\<exists>v. hash_str_to_int64 h = Inr v"
    if "nodes c1 j = Some x" "hash_value x = Some xs" "h \<in> set xs" for j x xs h
    using hk [OF that(1)] that(2,3) by (simp add: node_hash_ok_iff hashes_for_def)
  have "\<forall>h\<in>set phs. \<exists>v. hash_str_to_int64 h = Inr v"
    unfolding phs_def by (auto split: option.splits if_splits dest: good' [OF sym sym])
  then obtain ph where ph: "(if phs = [] then Inr None
      else lift_py (rbind (hash_str_to_int64 (last phs)) (\<lambda>h. Inr (Some h)))) = Inr ph"
    by (cases "phs = []") (auto dest!: last_in_set)
  have "length (page_starts ?ps (key_len (nkey n))) = length hs"
    using pages_exact [OF ps dv] len by (simp add: page_starts_def)
  then obtain evs where evs: "store_events (nkey n) ?ps hs ph
      (page_starts ?ps (key_len (nkey n))) 0 = Inr evs"
    using store_events_total [OF good] by (metis add_0 order_refl)
  define c' where "c' = c1\<lparr>kv_event_queue := kv_event_queue c1 @ evs\<rparr>"
  have "record_store_event cfg i c =
      rbind (if phs = [] then Inr None
             else lift_py (rbind (hash_str_to_int64 (last phs)) (\<lambda>h. Inr (Some h)))) (\<lambda>ph.
      rbind (lift_py (store_events (nkey n) ?ps hs ph (page_starts ?ps (key_len (nkey n))) 0)) (\<lambda>evs.
      Inr (c1\<lparr>kv_event_queue := kv_event_queue c1 @ evs\<rparr>)))"
    using True by (simp only: record_store_event_def get_node_Some [OF i] rbind_simps Let_def
        hs_def c1_def phs_def simp_thms if_False)
  then have eq: "record_store_event cfg i c = Inr c'"
    unfolding ph rbind_simps evs lift_py_simps c'_def .
  have sh: "shape c' = shape c"
    using shape_cong [of c' c1] shape_upd_same [of c i "\<lambda>n. n\<lparr>hash_value := Some hs\<rparr>"]
    by (simp add: c'_def c1_def skel_def)
  have "cache_inv cfg holds c' pre vpre"
    by (rule inv_same [OF I sh]) (use hk in \<open>auto simp: c'_def c1_def\<close>)
  then show ?thesis using that [OF eq] sh by (simp add: c'_def c1_def)
qed

lemma set_set_add [simp]: "set (set_add x xs) = insert x (set xs)"
  and set_set_discard [simp]: "set (set_discard x xs) = set xs - {x}"
  and distinct_set_add: "distinct xs \<Longrightarrow> distinct (set_add x xs)"
  and distinct_set_discard: "distinct xs \<Longrightarrow> distinct (set_discard x xs)"
  by (auto simp: set_add_def set_discard_def)

text \<open>\<open>_update_leaf_status\<close> enters or removes the node according to whether it is an unlocked
  leaf.\<close>

lemma update_leaf_status_spec:
  assumes L: "lab ps big (shape c) r pre vpre" and i: "nodes c i = Some n" and nn: "0 \<le> lock_ref n"
  shows "update_leaf_status i c = Inr (c\<lparr>evictable_leaves :=
    (if free_leaf (shape c) i then set_add i else set_discard i) (evictable_leaves c)\<rparr>)"
proof -
  have val: "\<not> evicted m" if "nodes c x = Some m" for x m
    using lab_root [OF L] lab_node [OF L shape_Some [OF that]] that
    by (cases "x = r") (fastforce simp: evicted_def)+
  have "(\<exists>(k, j)\<in>set (children n). case nodes c j of None \<Rightarrow> False | Some m \<Rightarrow> \<not> evicted m) \<longleftrightarrow>
      children n \<noteq> []"
  proof
    assume "children n \<noteq> []"
    then obtain k j where kj: "(k, j) \<in> set (children n)" by (cases "children n") auto
    then obtain s where "shape c j = Some s"
      using lab_child [OF L shape_Some [OF i]] by (metis skel_sel(1))
    then obtain m where "nodes c j = Some m" by (auto simp: shape_Some_iff)
    then show "\<exists>(k, j)\<in>set (children n). case nodes c j of None \<Rightarrow> False | Some m \<Rightarrow> \<not> evicted m"
      using kj val by (intro bexI [of _ "(k, j)"]) simp_all
  qed auto
  moreover have "free_leaf (shape c) i \<longleftrightarrow> lock_ref n = 0 \<and> children n = []"
    using i by (simp add: free_leaf_def)
  ultimately show ?thesis using i val [OF i] nn by (auto simp: update_leaf_status_def)
qed

lemma add_child_spec:
  assumes I: "cache_inv cfg holds c pre vpre" and i: "nodes c i = Some n"
    and k: "is_bigram k = is_eagle cfg" "page_size cfg dvd key_len k" "0 < key_len k"
      "length val = key_len k"
    and ck: "ck = (extra_key k, take (page_size cfg) (units k))" "map_of (children n) ck = None"
    and h: "enable_kv_cache_events cfg \<longrightarrow> hasher_ok cfg"
  defines "j \<equiv> node_counter c" and "U \<equiv> pre i @ tag (extra_key k) (units k)"
  obtains c' where "add_child cfg i ck k val prio chunked c = Inr (j, c')"
    "cache_inv cfg holds c' (pre(j := U)) (vpre(j := vpre i @ val))"
    "\<And>u w. stored (page_size cfg) (shape c') (pre(j := U)) (vpre(j := vpre i @ val)) u w \<longleftrightarrow>
       stored (page_size cfg) (shape c) pre vpre u w \<or>
       (\<exists>m. 0 < m \<and> m \<le> key_len k \<and> page_size cfg dvd m \<and>
          u = pre i @ tag (extra_key k) (take m (units k)) \<and> w = vpre i @ take m val)"
    "root_node c' = root_node c" "evictable_sz c' = evictable_sz c + int (key_len k)"
    "protected_sz c' = protected_sz c" "nodes c' j \<noteq> None" "j \<noteq> root_node c"
    "\<And>x. nodes c x \<noteq> None \<Longrightarrow> nodes c' x \<noteq> None \<and> x \<noteq> j"
    "dom (shape c') = insert j (dom (shape c))" "slots (shape c') = slots (shape c) + mset val"
    "session_leaves c' = session_leaves c" "closed_session_ids c' = closed_session_ids c"
proof -
  let ?ps = "page_size cfg" and ?S = "shape c"
  note L = invD(1) [OF I]
  have S: "?S i = Some (skel n)" and j: "?S j = None" using i invD(6) [OF I] by (auto simp: j_def)
  define new where "new = inc_hit_count chunked
    ((fst (snd (TreeNode cfg prio c)))\<lparr>parent := Some i, nkey := k, nvalue := Some val\<rparr>)"
  define leaf where "leaf = skel new"
  have leaf: "s_children leaf = []" "s_parent leaf = Some i" "s_units leaf = units k"
    "s_extra leaf = extra_key k" "s_big leaf = is_eagle cfg" "s_value leaf = Some val"
    "s_lock leaf = 0"
    using k(1) by (simp_all add: leaf_def new_def inc_hit_count_def TreeNode_def)
  have ckl: "ck = s_ck ?ps leaf" using ck(1) leaf by (simp add: s_ck_def)
  define c4 where "c4 = (upd_node i (\<lambda>n. n\<lparr>children := AList.update ck j (children n)\<rparr>)
     (c\<lparr>node_counter := node_counter c + 1, ticks := ticks c + 2, nodes := (nodes c)(j \<mapsto> new)\<rparr>))
     \<lparr>evictable_sz := evictable_sz c + int (key_len k)\<rparr>"
  have ij: "i \<noteq> j" using i j by auto
  have nd: "nodes c4 j = Some new"
    "nodes c4 i = Some (n\<lparr>children := AList.update ck j (children n)\<rparr>)"
    "\<And>x. x \<noteq> i \<Longrightarrow> x \<noteq> j \<Longrightarrow> nodes c4 x = nodes c x"
    using i ij by (simp_all add: c4_def)
  have sh: "shape c4 = sh_add ?ps i j leaf ?S"
  proof
    fix x
    have skn: "skel (n\<lparr>children := al\<rparr>) = (skel n)\<lparr>s_children := al\<rparr>" for al by (simp add: skel_def)
    have at: "sh_add ?ps i j leaf ?S j = Some leaf"
      "sh_add ?ps i j leaf ?S i = Some ((skel n)\<lparr>s_children := AList.update ck j (children n)\<rparr>)"
      "x \<noteq> i \<Longrightarrow> x \<noteq> j \<Longrightarrow> sh_add ?ps i j leaf ?S x = ?S x"
      using S ij ckl by (simp_all add: sh_add_def)
    have "x \<noteq> i \<Longrightarrow> x \<noteq> j \<Longrightarrow> shape c4 x = ?S x" using nd(3) by (metis shape_def)
    then show "shape c4 x = sh_add ?ps i j leaf ?S x"
      using shape_Some [OF nd(1)] shape_Some [OF nd(2)] at skn
      by (cases "x = i"; cases "x = j") (simp_all add: leaf_def)
  qed
  have ne: "units k \<noteq> []" using k(3) by (metis key_len_units length_greater_0_conv)
  have new: "map_of (s_children (skel n)) (s_ck ?ps leaf) = None" using ck(2) ckl by simp
  have lab4: "lab ?ps (is_eagle cfg) (shape c4) (root_node c) (pre(j := U)) (vpre(j := vpre i @ val))"
    using lab_add [OF L S j, of leaf val] leaf k ne new by (simp add: sh U_def)
  have locks4: "locks (shape c4) (root_node c) holds x 0" for x
    unfolding sh by (rule locks_add [OF L invD(2) [OF I] S j leaf(1,7) new])
  have nonneg: "0 \<le> lock_ref m" if "nodes c4 x = Some m" for x m
    using locksD(2) [OF locks4, of x] that by (simp add: lockof_def)
  note uls = update_leaf_status_spec
  define c5 where "c5 = c4\<lparr>evictable_leaves := set_discard i (evictable_leaves c)\<rparr>"
  have "\<not> free_leaf (shape c4) i" using nd(2) by (simp add: free_leaf_def update_nonempty)
  then have u5: "update_leaf_status i c4 = Inr c5"
    using uls [OF lab4 nd(2) nonneg [OF nd(2)]] by (simp add: c5_def c4_def)
  have s5: "nodes c5 = nodes c4" "shape c5 = shape c4" by (simp_all add: c5_def)
  define c6 where "c6 = c5\<lparr>evictable_leaves := set_add j (evictable_leaves c5)\<rparr>"
  have "free_leaf (shape c4) j"
    using nd(1) leaf(1,7) unfolding leaf_def free_leaf_def by simp
  then have u6: "update_leaf_status j c5 = Inr c6"
    using uls [of ?ps "is_eagle cfg" c5] lab4 nd(1) nonneg s5 by (simp add: c6_def)
  have s6: "shape c6 = shape c4" "nodes c6 = nodes c4" using s5 by (simp_all add: c6_def)
  have lv: "distinct (evictable_leaves c6)"
    "x \<in> set (evictable_leaves c6) \<longleftrightarrow> x = j \<or> x \<in> set (evictable_leaves c) \<and> x \<noteq> i" for x
    using acctD(4) [OF invD(3) [OF I]]
    by (auto simp: c6_def c5_def distinct_set_add distinct_set_discard)
  have acct6: "acct (shape c6) (root_node c) (evictable_sz c + int (key_len k)) (protected_sz c)
      (evictable_leaves c6)"
    using acct_add [OF L invD(3) [OF I] S j leaf(1,7) lv] leaf(3) by (simp add: s6 sh)
  have sel: "root_node c6 = root_node c" "evictable_sz c6 = evictable_sz c + int (key_len k)"
    "protected_sz c6 = protected_sz c" "node_counter c6 = node_counter c + 1"
    "session_leaves c6 = session_leaves c" "closed_session_ids c6 = closed_session_ids c"
    by (simp_all add: c6_def c5_def c4_def)
  have "node_hash_ok ?ps new" "node_hash_ok ?ps (n\<lparr>children := al\<rparr>)" for al
    using invD(5) [OF I i]
    by (simp_all add: new_def inc_hit_count_def TreeNode_def node_hash_ok_iff hashes_for_def)
  then have ok6: "x < node_counter c6 \<and> node_hash_ok ?ps m" if "nodes c6 x = Some m" for x m
    using that nd invD(4,5) [OF I] i sel(4) s6(2)
    by (cases "x = i"; cases "x = j") (auto simp: j_def less_Suc_eq)
  have I6: "cache_inv cfg holds c6 (pre(j := U)) (vpre(j := vpre i @ val))"
    using lab4 locks4 acct6 ok6 sel s6(1) by (simp add: cache_inv_def)
  obtain c' where c': "record_store_event cfg j c6 = Inr c'"
    "cache_inv cfg holds c' (pre(j := U)) (vpre(j := vpre i @ val))"
    "shape c' = shape c6" "root_node c' = root_node c6" "evictable_sz c' = evictable_sz c6"
    "protected_sz c' = protected_sz c6" "session_leaves c' = session_leaves c6"
    "closed_session_ids c' = closed_session_ids c6"
    using record_store_event_spec [OF I6 _ h] nd(1) s6(2) by metis
  have dom: "dom (shape c') = insert j (dom ?S)" using c'(3) s6(1) sh S by (auto simp: sh_add_def)
  have sl: "slots (shape c') = slots ?S + mset val"
    using slots_add [OF acctD(1) [OF invD(3) [OF I]] S j leaf(6)] c'(3) s6(1) sh by simp
  have eq: "add_child cfg i ck k val prio chunked c = Inr (j, c')"
    using u5 u6 c'(1)
    by (simp add: add_child_def TreeNode_def Let_def c4_def new_def j_def)
  show ?thesis
  proof (rule that [OF eq c'(2)])
    fix u w
    show "stored ?ps (shape c') (pre(j := U)) (vpre(j := vpre i @ val)) u w \<longleftrightarrow>
       stored ?ps ?S pre vpre u w \<or>
       (\<exists>m. 0 < m \<and> m \<le> key_len k \<and> ?ps dvd m \<and>
          u = pre i @ tag (extra_key k) (take m (units k)) \<and> w = vpre i @ take m val)"
      using stored_add [OF L S j, of leaf val u w] leaf k c'(3) s6(1) sh by (simp add: U_def)
  next
    show "nodes c x \<noteq> None \<Longrightarrow> nodes c' x \<noteq> None \<and> x \<noteq> j" for x
      using dom j by (metis domIff insertCI shape_None)
    show "nodes c' j \<noteq> None" using dom by (metis domIff insertI1 shape_None)
    show "j \<noteq> root_node c" using lab_root [OF L] j by (auto simp: shape_Some_iff)
  qed (use c' sel dom sl in simp_all)
qed

end
