(* ===== verification/Radix_Spec.thy ===== *)
theory Radix_Spec
  imports Radix_Match
begin

text \<open>
  The contract of the radix cache in terms a client can see: \<open>node_path c i u v\<close> follows the
  parent links of a cache from node \<open>i\<close> to the root and collects the units \<open>u\<close> and the KV
  indices \<open>v\<close> along them; \<open>cached cfg c u v\<close> says that the cache answers \<open>v\<close> for the
  page-aligned unit sequence \<open>u\<close>; \<open>wf_cache\<close> hides the ghost labels of the invariant. The
  abstract specification is a partial function from unit sequences to index lists, closed under
  page-aligned prefixes. Properties: \<open>match_prefix\<close> returns its value on the longest prefix in
  its domain and changes nothing, \<open>insert\<close> extends it by exactly the prefixes of the new key.
\<close>

inductive node_path :: "radix_cache \<Rightarrow> nat \<Rightarrow> tunit list \<Rightarrow> nat list \<Rightarrow> bool" for c where
  root: "node_path c (root_node c) [] []"
| step: "node_path c p u v \<Longrightarrow> nodes c i = Some n \<Longrightarrow> i \<noteq> root_node c \<Longrightarrow> parent n = Some p \<Longrightarrow>
    nvalue n = Some w \<Longrightarrow> node_path c i (u @ tag (extra_key (nkey n)) (units (nkey n))) (v @ w)"

definition cached :: "radix_config \<Rightarrow> radix_cache \<Rightarrow> tunit list \<Rightarrow> nat list \<Rightarrow> bool" where
  "cached cfg c u v \<longleftrightarrow>
     (\<exists>i u' v' k. node_path c i u' v' \<and> k \<le> length u' \<and> page_size cfg dvd k \<and>
        u = take k u' \<and> v = take k v')"

definition wf_cache :: "radix_config \<Rightarrow> (nat \<Rightarrow> nat) \<Rightarrow> radix_cache \<Rightarrow> bool" where
  "wf_cache cfg holds c \<longleftrightarrow> (\<exists>pre vpre. cache_inv cfg holds c pre vpre)"

text \<open>The key a lookup really uses: bigram view and page alignment applied.\<close>

definition lookup_key :: "radix_config \<Rightarrow> radix_key \<Rightarrow> radix_key" where
  "lookup_key cfg k =
     page_aligned (page_size cfg) (fst (maybe_to_bigram_view (is_eagle cfg) k (None :: nat list option)))"

definition lookup_units :: "radix_config \<Rightarrow> radix_key \<Rightarrow> tunit list" where
  "lookup_units cfg k = tag (extra_key k) (units (lookup_key cfg k))"

section \<open>Paths and labels\<close>

lemma node_path_label:
  assumes I: "cache_inv cfg holds c pre vpre"
  shows "node_path c i u v \<longleftrightarrow> nodes c i \<noteq> None \<and> u = pre i \<and> v = vpre i"
proof
  note L = invD(1) [OF I]
  show "node_path c i u v \<Longrightarrow> nodes c i \<noteq> None \<and> u = pre i \<and> v = vpre i"
  proof (induction rule: node_path.induct)
    case root
    then show ?case using lab_root [OF L] lab_pre_root [OF L] by (auto simp: shape_Some_iff)
  next
    case (step p u v i n w)
    show ?case
      by (rule lab_node [OF L shape_Some [OF step.hyps(2)] step.hyps(3)]) (use step in simp)
  qed
  show "nodes c i \<noteq> None \<and> u = pre i \<and> v = vpre i \<Longrightarrow> node_path c i u v"
  proof (induction "length (pre i)" arbitrary: i u v rule: less_induct)
    case less
    then obtain n where n: "nodes c i = Some n" by blast
    show ?case
    proof (cases "i = root_node c")
      case True
      then show ?thesis using less.prems lab_pre_root [OF L] node_path.root by simp
    next
      case False
      obtain p s w where p: "s_parent (skel n) = Some p" "shape c p = Some s"
        "s_units (skel n) \<noteq> []" "s_value (skel n) = Some w"
        "pre i = pre p @ tag (s_extra (skel n)) (s_units (skel n))" "vpre i = vpre p @ w"
        by (rule lab_node [OF L shape_Some [OF n] False])
      have "0 < key_len (nkey n)" using p(3) by (metis key_len_units length_greater_0_conv skel_sel(5))
      then have "node_path c p (pre p) (vpre p)"
        using less.hyps [of p] p(2,5) by (auto simp: shape_Some_iff)
      from node_path.step [OF this n False] p show ?thesis using less.prems by simp
    qed
  qed
qed

lemma cached_stored:
  assumes "cache_inv cfg holds c pre vpre"
  shows "cached cfg c u v \<longleftrightarrow> stored (page_size cfg) (shape c) pre vpre u v"
  unfolding cached_def stored_def node_path_label [OF assms] dom_shape by blast

lemma cached_unique: "wf_cache cfg holds c \<Longrightarrow> cached cfg c u v \<Longrightarrow> cached cfg c u w \<Longrightarrow> v = w"
  unfolding wf_cache_def by (metis cached_stored invD(1) stored_unique)

lemma cached_length:
  assumes "wf_cache cfg holds c" and "cached cfg c u v"
  shows "length v = length u"
proof -
  obtain pre vpre where I: "cache_inv cfg holds c pre vpre" using assms(1) by (auto simp: wf_cache_def)
  then show ?thesis using assms(2) lab_lengths [OF invD(1) [OF I]]
    unfolding cached_stored [OF I] stored_def by fastforce
qed

lemma cached_prefix:
  assumes "cached cfg c u v" and "k \<le> length u" and "page_size cfg dvd k"
  shows "cached cfg c (take k u) (take k v)"
proof -
  obtain i u' v' m where u: "node_path c i u' v'" "m \<le> length u'" "u = take m u'" "v = take m v'"
    using assms(1) unfolding cached_def by blast
  moreover have "k \<le> m" using assms(2) u(2,3) by simp
  ultimately show ?thesis unfolding cached_def using assms(3)
    by (intro exI [of _ i] exI [of _ u'] exI [of _ v'] exI [of _ k]) (simp add: min_absorb1)
qed

lemma cached_Nil: "cached cfg c [] []"
  unfolding cached_def by (intro exI [of _ "root_node c"] exI [of _ "[]"] exI [of _ 0])
    (simp add: node_path.root)

lemma cached_node_path:
  assumes "wf_cache cfg holds c" and "node_path c i u v"
  shows "cached cfg c u v"
proof -
  obtain pre vpre where I: "cache_inv cfg holds c pre vpre" using assms(1) by (auto simp: wf_cache_def)
  have "nodes c i \<noteq> None" "u = pre i" "v = vpre i" using assms(2) node_path_label [OF I] by auto
  then have "length v = length u" "page_size cfg dvd length u"
    using lab_lengths [OF invD(1) [OF I]] by (metis not_None_eq shape_Some)+
  then show ?thesis using assms(2) unfolding cached_def
    by (intro exI [of _ i] exI [of _ u] exI [of _ v] exI [of _ "length u"]) simp
qed

section \<open>Keys\<close>

lemma lookup_key_sel [simp]:
  "extra_key (lookup_key cfg k) = extra_key k"
  "is_bigram (lookup_key cfg k) = (is_eagle cfg \<or> is_bigram k)"
  by (auto simp: lookup_key_def maybe_to_bigram_view_def Let_def)

lemma lookup_key_len: "0 < page_size cfg \<Longrightarrow> page_size cfg dvd key_len (lookup_key cfg k)"
  by (simp add: lookup_key_def key_len_page_aligned)

lemma lookup_units_length [simp]: "length (lookup_units cfg k) = key_len (lookup_key cfg k)"
  by (simp add: lookup_units_def)

lemma wf_page: "wf_cache cfg holds c \<Longrightarrow> 0 < page_size cfg"
  using lab_ps [OF invD(1)] unfolding wf_cache_def by blast

lemma match_prefix_unfold:
  "\<not> disable cfg \<Longrightarrow> 0 < page_size cfg \<Longrightarrow>
   match_prefix cfg k c =
     (if key_len (lookup_key cfg k) = 0 then Inr (([], root_node c), c)
      else rbind (match_prefix_helper cfg (root_node c) (lookup_key cfg k) c)
             (\<lambda>((vals, last_node), c'). Inr ((concat vals, last_node), c')))"
  by (auto simp: match_prefix_def lookup_key_def Let_def key_len_page_aligned split: prod.split)

lemma inv_touch:
  assumes "cache_inv cfg holds c pre vpre" "\<And>n. skel (f n) = skel n"
    "\<And>n. node_hash_ok (page_size cfg) (f n) = node_hash_ok (page_size cfg) n"
  shows "refines cfg holds c pre vpre (upd_node i f (c\<lparr>ticks := t\<rparr>)) pre vpre"
proof -
  have "cache_inv cfg holds (c\<lparr>ticks := t\<rparr>) pre vpre"
    by (rule inv_same [OF assms(1)]) (use invD(5) [OF assms(1)] in auto)
  moreover from this have "refines cfg holds c pre vpre (c\<lparr>ticks := t\<rparr>) pre vpre"
    by (rule refines_same) simp_all
  ultimately show ?thesis using refines_trans refines_upd_same assms(2,3) by blast
qed

lemma match_prefix_spec:
  assumes I: "cache_inv cfg holds c pre vpre" and "\<not> disable cfg" and "is_bigram k \<longrightarrow> is_eagle cfg"
  obtains node c' pre' vpre' where "match_prefix cfg k c = Inr ((vpre' node, node), c')"
    "stops_at cfg holds c pre vpre (lookup_units cfg k) c' pre' vpre' node"
proof (cases "key_len (lookup_key cfg k) = 0")
  case True
  note L = invD(1) [OF I]
  have "lookup_units cfg k = pre (root_node c) @ tag (extra_key k) []"
    using True lab_pre_root [OF L] by (metis append_Nil length_0_conv lookup_units_length tag_simps(3))
  moreover obtain n where "nodes c (root_node c) = Some n"
    using lab_root [OF L] by (auto simp: shape_Some_iff)
  moreover have "refines cfg holds c pre vpre c pre vpre" by (rule refines_same [OF I]) simp_all
  ultimately have "stops_at cfg holds c pre vpre (lookup_units cfg k) c pre vpre (root_node c)"
    using stops_atI by blast
  then show ?thesis using that [of vpre "root_node c" c pre] True assms(2) lab_ps [OF L] lab_pre_root [OF L]
    by (simp add: match_prefix_unfold)
next
  case False
  note L = invD(1) [OF I]
  let ?k = "lookup_key cfg k" and ?r = "root_node c" and ?t = "monotonic cfg (ticks c)"
  have ps: "0 < page_size cfg" by (rule lab_ps [OF L])
  define c2 where "c2 = upd_node ?r (\<lambda>n. n\<lparr>last_access_time := ?t\<rparr>) (c\<lparr>ticks := ticks c + 1\<rparr>)"
  have R: "refines cfg holds c pre vpre c2 pre vpre"
    unfolding c2_def by (rule inv_touch [OF I]) (simp_all add: skel_def node_hash_ok_iff)
  note I2 = refines_inv [OF R]
  have dv: "page_size cfg dvd key_len ?k" by (rule lookup_key_len [OF ps])
  obtain n where n: "nodes c2 ?r = Some n"
    using lab_root [OF L] by (auto simp: c2_def shape_Some_iff)
  have ck: "lift_py (child_key (page_size cfg) ?k) = Inr (extra_key k, take (page_size cfg) (units ?k))"
    using next_child_key [OF ps dv] False by simp
  have D: "descending cfg (lookup_units cfg k) pre ?r ?k (extra_key k, take (page_size cfg) (units ?k))"
    using assms(3) dv lab_pre_root [OF L] by (auto simp: descending_def lookup_units_def)
  from match_loop_spec [OF I2 n D, of "Suc (key_len ?k)" "[]" ?t]
  obtain vals j c' pre' vpre' where m: "match_loop cfg (Suc (key_len ?k)) ?r ?k
      (extra_key k, take (page_size cfg) (units ?k)) ?t [] c2 = Inr ((vals, j), c')"
    "stops_at cfg holds c2 pre vpre (lookup_units cfg k) c' pre' vpre' j" "concat vals = vpre' j"
    using lab_pre_root [OF L] by auto
  have "match_prefix cfg k c = Inr ((vpre' j, j), c')"
    using m(1,3) ck False assms(2) ps
    by (simp add: match_prefix_unfold match_prefix_helper_def read_clock_def c2_def)
  then show ?thesis using that stops_at_trans [OF R m(2)] by blast
qed

section \<open>Insertion\<close>

lemma radix_insert_unfold:
  assumes "\<not> disable cfg" "0 < page_size cfg"
  shows "radix_insert cfg k (Some val) prio chunked c =
    rbind (insert_helper cfg (root_node c) (lookup_key cfg k)
             (take (key_len (lookup_key cfg k)) val) prio chunked c) (\<lambda>((m, j), c').
      Inr ((m, Some j), c'))"
proof -
  let ?k1 = "fst (maybe_to_bigram_view (is_eagle cfg) k (Some val))"
  have "fst (maybe_to_bigram_view (is_eagle cfg) k (None :: nat list option)) = ?k1"
    by (simp add: maybe_to_bigram_view_def Let_def)
  then have k: "lookup_key cfg k = page_aligned (page_size cfg) ?k1" by (simp add: lookup_key_def)
  have "key_len (lookup_key cfg k) \<le> key_len ?k1" using assms(2) by (simp add: k key_len_page_aligned)
  then have "take (key_len (lookup_key cfg k)) (the (snd (maybe_to_bigram_view (is_eagle cfg) k (Some val))))
      = take (key_len (lookup_key cfg k)) val"
    by (auto simp: maybe_to_bigram_view_def Let_def min_absorb1)
  moreover obtain k1 v1 where b: "maybe_to_bigram_view (is_eagle cfg) k (Some val) = (k1, Some v1)"
    by (cases "is_eagle cfg \<and> \<not> is_bigram k") (auto simp: maybe_to_bigram_view_def Let_def)
  ultimately show ?thesis
    using assms(1) k by (simp add: radix_insert_def Let_def)
qed

text \<open>What an insertion of the units \<open>U\<close> with the indices \<open>V\<close> does, when \<open>m\<close> units were already
  there: \<open>c'\<close> stores in addition the longer prefixes of \<open>U\<close>, the old indices \<open>mv\<close> in front.\<close>

definition inserted ::
  "radix_config \<Rightarrow> (nat \<Rightarrow> nat) \<Rightarrow> radix_cache \<Rightarrow> tunit list \<Rightarrow> nat list \<Rightarrow> nat \<Rightarrow> nat list \<Rightarrow>
   radix_cache \<Rightarrow> nat \<Rightarrow> bool" where
  "inserted cfg holds c U V m mv c' j \<longleftrightarrow>
     wf_cache cfg holds c' \<and> m \<le> length U \<and> page_size cfg dvd m \<and>
     cached cfg c (take m U) mv \<and>
     (\<forall>k v. k \<le> length U \<and> page_size cfg dvd k \<and> cached cfg c (take k U) v \<longrightarrow> k \<le> m) \<and>
     (\<forall>u w. cached cfg c' u w \<longleftrightarrow> cached cfg c u w \<or>
        (\<exists>n. m < n \<and> n \<le> length U \<and> page_size cfg dvd n \<and> u = take n U \<and>
             w = mv @ drop m (take n V))) \<and>
     node_path c' j U (mv @ drop m V) \<and> root_node c' = root_node c \<and>
     evictable_sz c' = evictable_sz c + int (length U - m) \<and> protected_sz c' = protected_sz c \<and>
     slots (shape c') = slots (shape c) + mset (drop m V) \<and>
     (\<forall>i u v. node_path c i u v \<longrightarrow> node_path c' i u v) \<and>
     session_leaves c' = session_leaves c \<and> closed_session_ids c' = closed_session_ids c"

lemma refines_node_path:
  assumes "cache_inv cfg holds c pre vpre" "refines cfg holds c pre vpre c' pre' vpre'" "node_path c i u v"
  shows "node_path c' i u v"
  using assms node_path_label [OF assms(1)] node_path_label [OF refines_inv [OF assms(2)]]
  unfolding refines_def by metis

lemma stops_at_facts:
  assumes I: "cache_inv cfg holds c pre vpre" and S: "stops_at cfg holds c pre vpre U c' pre' vpre' j"
  shows "wf_cache cfg holds c'" "cached cfg c' u v \<longleftrightarrow> cached cfg c u v"
    "node_path c' j (take (length (pre' j)) U) (vpre' j)"
    "cached cfg c (take (length (pre' j)) U) (vpre' j)"
    "length (pre' j) \<le> length U" "page_size cfg dvd length (pre' j)"
    "length (vpre' j) = length (pre' j)"
    "k \<le> length U \<Longrightarrow> page_size cfg dvd k \<Longrightarrow> cached cfg c (take k U) v \<Longrightarrow> k \<le> length (pre' j)"
proof -
  have R: "refines cfg holds c pre vpre c' pre' vpre'" and j: "nodes c' j \<noteq> None"
    and pj: "pre' j = take (length (pre' j)) U"
    and mx: "\<And>k v. k \<le> length U \<Longrightarrow> page_size cfg dvd k \<Longrightarrow>
      stored (page_size cfg) (shape c') pre' vpre' (take k U) v \<Longrightarrow> k \<le> length (pre' j)"
    using S unfolding stops_at_def by blast+
  note I' = refines_inv [OF R]
  show wf: "wf_cache cfg holds c'" using I' by (auto simp: wf_cache_def)
  show same: "cached cfg c' u v \<longleftrightarrow> cached cfg c u v" for u v
    using cached_stored [OF I] cached_stored [OF I'] R by (simp add: refines_def)
  show path: "node_path c' j (take (length (pre' j)) U) (vpre' j)"
    using j pj node_path_label [OF I'] by simp
  then show "cached cfg c (take (length (pre' j)) U) (vpre' j)" using same cached_node_path [OF wf] by blast
  show "length (pre' j) \<le> length U" using pj by (metis length_take min.cobounded1)
  show "page_size cfg dvd length (pre' j)" "length (vpre' j) = length (pre' j)"
    using lab_lengths [OF invD(1) [OF I']] j by (metis not_None_eq shape_Some)+
  show "k \<le> length U \<Longrightarrow> page_size cfg dvd k \<Longrightarrow> cached cfg c (take k U) v \<Longrightarrow> k \<le> length (pre' j)"
    using mx same cached_stored [OF I'] by blast
qed

text \<open>The prefixes of \<open>U\<close> beyond its first \<open>m\<close> units, counted from the start and from \<open>m\<close>.\<close>

lemma prefixes_beyond:
  assumes "ps dvd m" and U: "U = p @ tag e us" and m: "length p = m"
  shows "(\<exists>q. 0 < q \<and> q \<le> length us \<and> ps dvd q \<and> u = p @ tag e (take q us) \<and>
            w = v @ take q (drop m val)) \<longleftrightarrow>
         (\<exists>n. m < n \<and> n \<le> length U \<and> ps dvd n \<and> u = take n U \<and> w = v @ drop m (take n val))"
    (is "(\<exists>q. ?P q) \<longleftrightarrow> (\<exists>n. ?Q n)")
proof
  assume "\<exists>q. ?P q"
  then obtain q where "?P q" by blast
  then have "?Q (m + q)" using assms by (simp add: take_drop add.commute)
  then show "\<exists>n. ?Q n" by blast
next
  assume "\<exists>n. ?Q n"
  then obtain n where "?Q n" by blast
  then have "?P (n - m)" using assms by (auto simp: drop_take dvd_diff_nat)
  then show "\<exists>q. ?P q" by blast
qed

lemma insert_helper_spec:
  assumes I: "cache_inv cfg holds c pre vpre" and k: "is_bigram k = is_eagle cfg"
    "page_size cfg dvd key_len k" "length val = key_len k"
    and h: "enable_kv_cache_events cfg \<longrightarrow> hasher_ok cfg"
  defines "U \<equiv> tag (extra_key k) (units k)"
  shows "\<exists>m mv j c'. insert_helper cfg (root_node c) k val prio chunked c = Inr ((m, j), c') \<and>
    inserted cfg holds c U val m mv c' j"
proof -
  note L = invD(1) [OF I]
  let ?r = "root_node c" and ?t = "monotonic cfg (ticks c)" and ?ps = "page_size cfg"
  have ps: "0 < ?ps" by (rule lab_ps [OF L])
  have lU: "length U = key_len k" by (simp add: U_def)
  define c2 where "c2 = upd_node ?r (\<lambda>n. raise_priority prio (n\<lparr>last_access_time := ?t\<rparr>))
    (c\<lparr>ticks := ticks c + 1\<rparr>)"
  have R: "refines cfg holds c pre vpre c2 pre vpre"
    unfolding c2_def by (rule inv_touch [OF I]) (simp_all add: skel_def node_hash_ok_iff raise_priority_def)
  note I2 = refines_inv [OF R]
  obtain n where n: "nodes c2 ?r = Some n" using lab_root [OF L] by (auto simp: c2_def shape_Some_iff)
  let ?ck = "(extra_key k, take ?ps (units k))"
  have D: "descending cfg U pre ?r k ?ck"
    using k lab_pre_root [OF L] by (auto simp: descending_def U_def)
  from insert_loop_spec [OF I2 n D, of "Suc (key_len k)" val prio chunked ?t 0]
  obtain j k' ck' m c3 pre' vpre' nj where lp:
    "insert_loop cfg (Suc (key_len k)) ?r k val prio chunked ?ck ?t 0 c2 =
       Inr ((j, k', drop m val, ck', m), c3)"
    "stops_at cfg holds c2 pre vpre U c3 pre' vpre' j" "descending cfg U pre' j k' ck'"
    "extra_key k' = extra_key k" "length (pre' j) = m" "nodes c3 j = Some nj"
    "key_len k' = 0 \<or> map_of (children nj) ck' = None"
    using lab_pre_root [OF L] by auto
  note S = stops_at_trans [OF R lp(2)]
  note F = stops_at_facts [OF I S, unfolded lp(5)]
  have R3: "refines cfg holds c pre vpre c3 pre' vpre'" using S by (simp add: stops_at_def)
  note I3 = refines_inv [OF R3]
  have U': "U = pre' j @ tag (extra_key k) (units k')" and len': "key_len k' = length U - m"
    and ck': "0 < key_len k' \<Longrightarrow> ck' = (extra_key k', take ?ps (units k'))"
    and k': "is_bigram k' = is_eagle cfg" "?ps dvd key_len k'"
    using lp(3-5) by (auto simp: descending_def)
  have old: "node_path c3 i u v" if "node_path c i u v" for i u v
    by (rule refines_node_path [OF I R3 that])
  have sel: "root_node c3 = ?r" "evictable_sz c3 = evictable_sz c" "protected_sz c3 = protected_sz c"
    "session_leaves c3 = session_leaves c" "closed_session_ids c3 = closed_session_ids c"
    "slots (shape c3) = slots (shape c)"
    using R3 by (auto simp: refines_def)
  have helper: "insert_helper cfg ?r k val prio chunked c =
      (if 0 < key_len k' then rbind (add_child cfg j ck' k' (drop m val) prio chunked c3)
          (\<lambda>(new_node, c4). Inr ((m, new_node), c4)) else Inr ((m, j), c3))"
    if "0 < key_len k"
    using that lp(1) next_child_key [OF ps k(2)]
    by (simp add: insert_helper_def read_clock_def c2_def)
  show ?thesis
  proof (cases "0 < key_len k'")
    case False
    then have m: "m = length U" using len' F(5) by simp
    then have ins: "inserted cfg holds c U val m (vpre' j) c3 j"
      using F old sel k(3) lU unfolding inserted_def by auto
    show ?thesis
    proof (cases "key_len k = 0")
      case False
      then show ?thesis using helper ins \<open>\<not> 0 < key_len k'\<close> by auto
    next
      case True
      have "U = []" using True lU by simp
      note F2 = stops_at_facts [OF I]
      have "stops_at cfg holds c pre vpre U c2 pre vpre ?r"
        using stops_atI [OF R n, of U "extra_key k" "[]"] \<open>U = []\<close> lab_pre_root [OF L] by simp
      note F2 = stops_at_facts [OF I this]
      have "inserted cfg holds c U val 0 [] c2 ?r"
        using F2 refines_node_path [OF I R] R k(3) True \<open>U = []\<close> lab_pre_root [OF L]
        unfolding inserted_def refines_def by simp
      then show ?thesis using True by (auto simp: insert_helper_def read_clock_def c2_def)
    qed
  next
    case True
    have lv: "length (drop m val) = key_len k'" using k(3) len' lU by simp
    have none: "map_of (children nj) ck' = None" using lp(7) True by simp
    let ?j = "node_counter c3"
    obtain c4 where a: "add_child cfg j ck' k' (drop m val) prio chunked c3 = Inr (?j, c4)"
      "cache_inv cfg holds c4 (pre'(?j := U)) (vpre'(?j := vpre' j @ drop m val))"
      "\<And>u w. stored ?ps (shape c4) (pre'(?j := U)) (vpre'(?j := vpre' j @ drop m val)) u w \<longleftrightarrow>
         stored ?ps (shape c3) pre' vpre' u w \<or>
         (\<exists>q. 0 < q \<and> q \<le> key_len k' \<and> ?ps dvd q \<and>
            u = pre' j @ tag (extra_key k) (take q (units k')) \<and> w = vpre' j @ take q (drop m val))"
      "root_node c4 = root_node c3" "evictable_sz c4 = evictable_sz c3 + int (key_len k')"
      "protected_sz c4 = protected_sz c3" "nodes c4 ?j \<noteq> None"
      "\<And>x. nodes c3 x \<noteq> None \<Longrightarrow> nodes c4 x \<noteq> None \<and> x \<noteq> ?j"
      "session_leaves c4 = session_leaves c3" "closed_session_ids c4 = closed_session_ids c3"
      "slots (shape c4) = slots (shape c3) + mset (drop m val)"
      by (rule add_child_spec [OF I3 lp(6) k' True lv ck' [OF True] none h, of prio chunked,
            unfolded lp(4), folded U'], rule that; (assumption | blast))
    note ext = prefixes_beyond [OF F(6) U' lp(5), where v = "vpre' j" and val = val]
    have "cached cfg c4 u w \<longleftrightarrow> cached cfg c u w \<or>
        (\<exists>n. m < n \<and> n \<le> length U \<and> ?ps dvd n \<and> u = take n U \<and> w = vpre' j @ drop m (take n val))" for u w
      using cached_stored [OF a(2)] cached_stored [OF I3] a(3) ext F(2) by simp
    moreover have "node_path c4 ?j U (vpre' j @ drop m val)"
      using node_path_label [OF a(2)] a(7) by simp
    moreover have "node_path c4 i u v" if "node_path c i u v" for i u v
      using old [OF that] node_path_label [OF I3] node_path_label [OF a(2)] a(8) [of i] by auto
    ultimately have "inserted cfg holds c U val m (vpre' j) c4 ?j"
      using F a(2,4-6,9-11) sel len' k(3) lU unfolding inserted_def wf_cache_def by auto
    moreover have "insert_helper cfg ?r k val prio chunked c = Inr ((m, ?j), c4)"
      using helper True a(1) len' lU by simp
    ultimately show ?thesis by blast
  qed
qed

lemma radix_insert_spec:
  assumes "wf_cache cfg holds c" and "\<not> disable cfg" and "is_bigram k \<longrightarrow> is_eagle cfg"
    and "length (lookup_units cfg k) \<le> length val"
    and "enable_kv_cache_events cfg \<longrightarrow> hasher_ok cfg"
  shows "\<exists>m mv j c'. radix_insert cfg k (Some val) prio chunked c = Inr ((m, Some j), c') \<and>
    inserted cfg holds c (lookup_units cfg k) (take (length (lookup_units cfg k)) val) m mv c' j"
proof -
  obtain pre vpre where I: "cache_inv cfg holds c pre vpre" using assms(1) by (auto simp: wf_cache_def)
  have ps: "0 < page_size cfg" by (rule wf_page [OF assms(1)])
  let ?V = "take (key_len (lookup_key cfg k)) val"
  have "is_bigram (lookup_key cfg k) = is_eagle cfg" using assms(3) by auto
  moreover have "length ?V = key_len (lookup_key cfg k)" using assms(4) by simp
  ultimately obtain m mv j c' where
    ins: "insert_helper cfg (root_node c) (lookup_key cfg k) ?V prio chunked c = Inr ((m, j), c')"
    "inserted cfg holds c (tag (extra_key (lookup_key cfg k)) (units (lookup_key cfg k))) ?V m mv c' j"
    using insert_helper_spec [OF I _ lookup_key_len [OF ps] _ assms(5)] by blast
  have "radix_insert cfg k (Some val) prio chunked c = Inr ((m, Some j), c')"
    unfolding radix_insert_unfold [OF assms(2) ps] ins(1) by simp
  moreover have "inserted cfg holds c (lookup_units cfg k) (take (length (lookup_units cfg k)) val) m mv c' j"
    using ins(2) unfolding lookup_units_length by (simp add: lookup_units_def)
  ultimately show ?thesis by blast
qed

section \<open>The empty cache\<close>

lemma reset_inv:
  assumes "0 < page_size cfg"
  shows "cache_inv cfg (\<lambda>_. 0) (reset cfg c) (\<lambda>_. []) (\<lambda>_. [])"
proof -
  let ?c = "reset cfg c" and ?i = "node_counter c"
  obtain n where n: "nodes ?c = [?i \<mapsto> n]" "root_node ?c = ?i" "children n = []" "parent n = None"
    "nkey n = empty_key" "nvalue n = Some []" "lock_ref n = 1" "hash_value n = Some []"
    "evictable_sz ?c = 0" "protected_sz ?c = 0" "evictable_leaves ?c = []"
    "node_counter ?c = ?i + 1"
    by (simp add: reset_def TreeNode_def record_all_cleared_event_def Let_def)
  have sh: "shape ?c x = (if x = ?i then Some (skel n) else None)" for x by (simp add: shape_def n(1))
  have u: "units (nkey n) = []" "key_len (nkey n) = 0"
    by (simp_all add: n(5) empty_key_def units_def raw_len_def)
  have "lab (page_size cfg) (is_eagle cfg) (shape ?c) (root_node ?c) (\<lambda>_. []) (\<lambda>_. [])"
    by (rule labI) (use assms sh n u in \<open>auto split: if_splits\<close>)
  moreover have "locks (shape ?c) (root_node ?c) (\<lambda>_. 0) 0 0"
    by (rule locksI) (use sh n in \<open>auto simp: lockof_def split: if_splits\<close>)
  moreover have "dom (shape ?c) - {?i} = {}" using sh by (auto split: if_splits)
  then have "acct (shape ?c) (root_node ?c) (evictable_sz ?c) (protected_sz ?c) (evictable_leaves ?c)"
    using sh n by (auto simp: acct_def ev_size_def pr_size_def free_leaf_def dom_shape)
  moreover have "node_hash_ok (page_size cfg) n" using n(8) u by (simp add: node_hash_ok_iff hashes_for_def)
  ultimately show ?thesis using n(1,12) by (simp add: cache_inv_def)
qed

lemma reset_wf: "0 < page_size cfg \<Longrightarrow> wf_cache cfg (\<lambda>_. 0) (reset cfg c)"
  using reset_inv unfolding wf_cache_def by blast

text \<open>A cache used by the examples: page size two, one sequence stored.\<close>

definition demo_cfg :: radix_config where
  "demo_cfg = \<lparr>disable = False, page_size = 2, enable_kv_cache_events = False,
     enable_session_radix_cache = False, is_eagle = False, disable_finished_insert = False,
     strategy = LRU, monotonic = int, get_hash_str = (\<lambda>_ _ _. [])\<rparr>"

definition blank_cache :: radix_cache where
  "blank_cache = \<lparr>nodes = Map.empty, root_node = 0, node_counter = 0, ticks = 0, evictable_sz = 0,
     protected_sz = 0, evictable_leaves = [], kv_event_queue = [], session_leaves = [],
     closed_session_ids = []\<rparr>"

definition demo_cache :: radix_cache where
  "demo_cache = (case radix_insert demo_cfg (RadixKey [1, 2, 3, 4] None False None)
      (Some [10, 11, 12, 13]) 0 False (reset demo_cfg blank_cache) of
        Inr (_, c) \<Rightarrow> c | Inl _ \<Rightarrow> blank_cache)"

lemma demo_cache_wf: "wf_cache demo_cfg (\<lambda>_. 0) demo_cache"
proof -
  have "wf_cache demo_cfg (\<lambda>_. 0) (reset demo_cfg blank_cache)"
    by (rule reset_wf) (simp add: demo_cfg_def)
  moreover have "length (lookup_units demo_cfg (RadixKey [1, 2, 3, 4] None False None)) = 4"
    by code_simp
  ultimately show ?thesis
    using radix_insert_spec [of demo_cfg "\<lambda>_. 0" "reset demo_cfg blank_cache"
        "RadixKey [1, 2, 3, 4] None False None" "[10, 11, 12, 13]" 0 False]
    by (auto simp: demo_cache_def inserted_def demo_cfg_def)
qed

section \<open>Properties\<close>

text \<open>C4: \<open>match_prefix\<close> returns the longest cached prefix. On a well-formed cache it never
  raises; the indices it returns are the ones stored for a page-aligned prefix of the key, no
  longer prefix of the key is stored, the node it returns ends exactly there, and the contents
  of the cache are unchanged although nodes may have been split.\<close>

theorem match_prefix_longest:
  assumes "wf_cache cfg holds c" and "\<not> disable cfg" and "is_bigram k \<longrightarrow> is_eagle cfg"
  shows "\<exists>idx node c'. match_prefix cfg k c = Inr ((idx, node), c') \<and> wf_cache cfg holds c' \<and>
    cached cfg c (take (length idx) (lookup_units cfg k)) idx \<and>
    (\<forall>m v. m \<le> length (lookup_units cfg k) \<and> page_size cfg dvd m \<and>
       cached cfg c (take m (lookup_units cfg k)) v \<longrightarrow> m \<le> length idx) \<and>
    node_path c' node (take (length idx) (lookup_units cfg k)) idx \<and>
    (\<forall>u v. cached cfg c' u v = cached cfg c u v)"
proof -
  obtain pre vpre where I: "cache_inv cfg holds c pre vpre" using assms(1) by (auto simp: wf_cache_def)
  obtain node c' pre' vpre' where m: "match_prefix cfg k c = Inr ((vpre' node, node), c')"
    "stops_at cfg holds c pre vpre (lookup_units cfg k) c' pre' vpre' node"
    by (rule match_prefix_spec [OF I assms(2,3)])
  note F = stops_at_facts [OF I m(2)]
  show ?thesis using m(1) F(1-4,7,8) by auto
qed

theorem match_prefix_longest_witness:
  "\<exists>idx node c'. match_prefix demo_cfg (RadixKey [1, 2, 3, 5, 6] None False None) demo_cache =
       Inr ((idx, node), c') \<and> wf_cache demo_cfg (\<lambda>_. 0) c' \<and> idx = [10, 11]"
proof -
  let ?k = "RadixKey [1, 2, 3, 5, 6] None False None"
  have run: "rbind (match_prefix demo_cfg ?k demo_cache) (\<lambda>((idx, node), c'). Inr (idx, node)) =
      Inr ([10, 11], 2)"
    by code_simp
  have "\<not> disable demo_cfg" "is_bigram ?k \<longrightarrow> is_eagle demo_cfg" by (simp_all add: demo_cfg_def)
  from match_prefix_longest [OF demo_cache_wf this] run show ?thesis by (auto simp: rbind_Inr_iff)
qed

text \<open>C5: \<open>insert\<close> extends the cache by exactly the new prefixes. On a well-formed cache it never
  raises; it returns the length \<open>m\<close> of the longest prefix that was already stored; afterwards
  the cache answers as before, and in addition for every longer page-aligned prefix of the key,
  with the old indices in front of the new ones; the returned node carries the whole key, every
  old node is still there, and the tree owns exactly the indices of the new units in addition.\<close>

theorem insert_extends:
  assumes "wf_cache cfg holds c" and "\<not> disable cfg" and "is_bigram k \<longrightarrow> is_eagle cfg"
    and "length (lookup_units cfg k) \<le> length val"
    and "enable_kv_cache_events cfg \<longrightarrow> hasher_ok cfg"
  defines "U \<equiv> lookup_units cfg k"
  shows "\<exists>m mv j c'. radix_insert cfg k (Some val) prio chunked c = Inr ((m, Some j), c') \<and>
    wf_cache cfg holds c' \<and> cached cfg c (take m U) mv \<and>
    (\<forall>n v. n \<le> length U \<and> page_size cfg dvd n \<and> cached cfg c (take n U) v \<longrightarrow> n \<le> m) \<and>
    (\<forall>u w. cached cfg c' u w \<longleftrightarrow> cached cfg c u w \<or>
       (\<exists>n. m < n \<and> n \<le> length U \<and> page_size cfg dvd n \<and> u = take n U \<and>
            w = mv @ drop m (take n val))) \<and>
    node_path c' j U (mv @ drop m (take (length U) val)) \<and>
    (\<forall>i u v. node_path c i u v \<longrightarrow> node_path c' i u v) \<and>
    evictable_sz c' = evictable_sz c + int (length U - m) \<and>
    slots (shape c') = slots (shape c) + mset (drop m (take (length U) val))"
proof -
  obtain m mv j c' where ins: "radix_insert cfg k (Some val) prio chunked c = Inr ((m, Some j), c')"
    "inserted cfg holds c U (take (length U) val) m mv c' j"
    using radix_insert_spec [OF assms(1-5)] unfolding U_def by blast
  have "n \<le> length U \<Longrightarrow> take n (take (length U) val) = take n val" for n by (simp add: min_def)
  then have "(\<exists>n. m < n \<and> n \<le> length U \<and> page_size cfg dvd n \<and> u = take n U \<and>
        w = mv @ drop m (take n (take (length U) val))) \<longleftrightarrow>
      (\<exists>n. m < n \<and> n \<le> length U \<and> page_size cfg dvd n \<and> u = take n U \<and>
        w = mv @ drop m (take n val))" for u w
    by metis
  then show ?thesis using ins unfolding inserted_def by (intro exI [of _ m] exI [of _ mv] exI [of _ j]
        exI [of _ c']) simp
qed

theorem insert_extends_witness:
  "\<exists>m j c'. radix_insert demo_cfg (RadixKey [1, 2, 7, 8] None False None) (Some [20, 21, 22, 23]) 0 False
       demo_cache = Inr ((m, Some j), c') \<and> wf_cache demo_cfg (\<lambda>_. 0) c' \<and> m = 2 \<and>
     evictable_sz c' = evictable_sz demo_cache + 2"
proof -
  let ?k = "RadixKey [1, 2, 7, 8] None False None"
  have run: "rbind (radix_insert demo_cfg ?k (Some [20, 21, 22, 23]) 0 False demo_cache)
      (\<lambda>((m, j), c'). Inr m) = Inr 2"
    by code_simp
  have "length (lookup_units demo_cfg ?k) = 4" by code_simp
  then show ?thesis
    using insert_extends [OF demo_cache_wf, of ?k "[20, 21, 22, 23]" 0 False] run
    by (auto simp: rbind_Inr_iff demo_cfg_def)
qed

end
