(* ===== verification/Radix_Locks.thy ===== *)
theory Radix_Locks
  imports Radix_Spec "HOL-Library.Sublist"
begin

text \<open>
  \<open>inc_lock_ref\<close> and \<open>dec_lock_ref\<close> of the radix cache. Both walk from a node to the root; the
  lemmas show that the walk ends within the fuel (the number of nodes above a node is below the
  class counter), that it changes the reference counts of exactly the nodes on the path, moves
  their length between the evictable and the protected size, and keeps the set of evictable
  leaves exact. \<open>holds i\<close> counts the requests that hold node \<open>i\<close>.
\<close>

section \<open>The nodes above a node\<close>

lemma prefix_par:
  assumes L: "lab ps big S r pre vpre" and i: "S i = Some n" "i \<noteq> r" and x: "S x = Some m" "x \<noteq> i"
    and pf: "prefix (pre x) (pre i)"
  shows "prefix (pre x) (pre (par S i))"
proof (cases "x = r")
  case True
  then show ?thesis using lab_pre_root [OF L] by simp
next
  case False
  obtain pn where p: "S (par S i) = Some pn" "pre i = pre (par S i) @ tag (s_extra n) (s_units n)"
    "length (pre (par S i)) < length (pre i)"
    by (rule lab_par [OF L i])
  obtain pm where q: "S (par S x) = Some pm" "length (pre (par S x)) < length (pre x)"
    by (rule lab_par [OF L x(1) False])
  have le: "length (pre x) \<le> length (pre i)" and tk: "pre x = take (length (pre x)) (pre i)"
    using pf by (auto simp: prefix_def)
  show ?thesis
  proof (cases "length (pre x) \<le> length (pre (par S i))")
    case True
    then show ?thesis using tk p(2) by (metis take_append append_Nil2 diff_is_0_eq' take_0 take_is_prefix)
  next
    case False
    let ?A = "max (length (pre (par S i))) (length (pre (par S x)))"
    have "ps dvd ?A" using lab_lengths [OF L p(1)] lab_lengths [OF L q(1)] by (simp add: max_def)
    then have A: "?A < length (pre x)" "?A + ps \<le> length (pre x)"
      using dvd_less_add lab_lengths [OF L x(1)] False q(2) by auto
    then have "take (?A + ps) (pre i) = take (?A + ps) (pre x)"
      using tk by (metis min.absorb1 take_take)
    then have "i = x" using lab_branch [OF L i(1) x(1) i(2) \<open>x \<noteq> r\<close> refl] A le by simp
    then show ?thesis using x(2) by simp
  qed
qed

definition on_path :: "(nat \<Rightarrow> tunit list) \<Rightarrow> nat \<Rightarrow> nat \<Rightarrow> nat \<Rightarrow> bool" where
  "on_path pre r i x \<longleftrightarrow> x \<noteq> r \<and> prefix (pre x) (pre i)"

lemma on_path_root: "lab ps big S r pre vpre \<Longrightarrow> S x = Some n \<Longrightarrow> \<not> on_path pre r r x"
  unfolding on_path_def using lab_pre_root(1) lab_pre_nonempty by fastforce

lemma on_path_step:
  assumes L: "lab ps big S r pre vpre" and i: "S i = Some n" "i \<noteq> r" and x: "S x = Some m"
  shows "on_path pre r i x \<longleftrightarrow> x = i \<or> on_path pre r (par S i) x"
proof -
  obtain pn where p: "pre i = pre (par S i) @ tag (s_extra n) (s_units n)" by (rule lab_par [OF L i])
  show ?thesis
    using prefix_par [OF L i x] i(2) unfolding on_path_def p by (cases "x = i") (auto simp: p)
qed

lemma on_path_par:
  assumes L: "lab ps big S r pre vpre" and i: "S i = Some n" "i \<noteq> r"
  shows "\<not> on_path pre r (par S i) i"
proof -
  obtain pn where "length (pre (par S i)) < length (pre i)" by (rule lab_par [OF L i])
  then show ?thesis unfolding on_path_def by (auto dest: prefix_length_le)
qed

text \<open>The number of nodes nearer to the root bounds the length of the walk.\<close>

definition nearer :: "(nat \<rightharpoonup> 'n) \<Rightarrow> (nat \<Rightarrow> tunit list) \<Rightarrow> nat \<Rightarrow> nat set" where
  "nearer N pre i = {j \<in> dom N. length (pre j) < length (pre i)}"

lemma nearer_step:
  assumes "finite (dom N)" and "N p \<noteq> None" and "length (pre p) < length (pre i)"
  shows "card (nearer N pre p) < card (nearer N pre i)"
proof (rule psubset_card_mono)
  show "finite (nearer N pre i)" using assms(1) unfolding nearer_def by simp
  show "nearer N pre p \<subset> nearer N pre i" using assms(2,3) unfolding nearer_def by auto
qed

section \<open>One step of a walk\<close>

text \<open>The state of a walk that has reached \<open>i\<close>: the counts of the nodes above are still short of
  \<open>d\<close>.\<close>

definition walking ::
  "radix_config \<Rightarrow> (nat \<Rightarrow> nat) \<Rightarrow> radix_cache \<Rightarrow> nat \<Rightarrow> int \<Rightarrow> (nat \<Rightarrow> tunit list) \<Rightarrow> (nat \<Rightarrow> nat list) \<Rightarrow> bool" where
  "walking cfg holds c i d pre vpre \<longleftrightarrow>
     lab (page_size cfg) (is_eagle cfg) (shape c) (root_node c) pre vpre \<and>
     locks (shape c) (root_node c) holds i (- d) \<and>
     acct (shape c) (root_node c) (evictable_sz c) (protected_sz c) (evictable_leaves c) \<and>
     (\<forall>i n. nodes c i = Some n \<longrightarrow> i < node_counter c \<and> node_hash_ok (page_size cfg) n)"

lemma walkingD:
  assumes "walking cfg holds c i d pre vpre"
  shows "lab (page_size cfg) (is_eagle cfg) (shape c) (root_node c) pre vpre"
    "locks (shape c) (root_node c) holds i (- d)"
    "acct (shape c) (root_node c) (evictable_sz c) (protected_sz c) (evictable_leaves c)"
    "finite (dom (nodes c))" "nodes c x = Some n \<Longrightarrow> x < node_counter c"
  using assms acctD(1) [of "shape c"] unfolding walking_def dom_shape by blast+

lemma walking_end: "walking cfg holds c (root_node c) d pre vpre \<Longrightarrow> cache_inv cfg holds c pre vpre"
  unfolding walking_def cache_inv_def using locks_root by blast

lemma walking_inc:
  assumes "cache_inv cfg holds c pre vpre" and "nodes c i \<noteq> None"
  shows "walking cfg (holds(i := holds i + 1)) c i 1 pre vpre"
proof -
  obtain n where "nodes c i = Some n" using assms(2) by blast
  then have "locks (shape c) (root_node c) (holds(i := holds i + 1)) i (- 1)"
    using locks_hold [OF invD(2) [OF assms(1)] shape_Some] by blast
  then show ?thesis using assms(1) unfolding walking_def cache_inv_def by blast
qed

lemma walking_dec:
  assumes "cache_inv cfg holds c pre vpre" and "0 < holds i"
  shows "walking cfg (holds(i := holds i - 1)) c i (- 1) pre vpre"
proof -
  have "locks (shape c) (root_node c) (holds(i := holds i - 1)) i 1"
    by (rule locks_release [OF invD(2) [OF assms(1)] assms(2)])
  then show ?thesis using assms(1) unfolding walking_def cache_inv_def by simp
qed

lemma shape_lock:
  assumes "nodes c i = Some n" "nodes c' = (nodes c)(i \<mapsto> n\<lparr>lock_ref := lock_ref n + d\<rparr>)"
  shows "shape c' = sh_lock i d (shape c)"
proof
  fix x
  show "shape c' x = sh_lock i d (shape c) x"
    using assms by (cases "nodes c x") (auto simp: sh_lock_at shape_def skel_def)
qed

definition lock_size :: "int \<Rightarrow> tree_node \<Rightarrow> int" where
  "lock_size d n = (if lock_ref n + d = 0 then int (key_len (nkey n)) else 0) -
     (if lock_ref n = 0 then int (key_len (nkey n)) else 0)"

lemma walk_step:
  assumes W: "walking cfg holds c i d pre vpre" and i: "nodes c i = Some n" "i \<noteq> root_node c"
    and pos: "0 \<le> lock_ref n + d"
  defines "c2 \<equiv> c\<lparr>nodes := (nodes c)(i \<mapsto> n\<lparr>lock_ref := lock_ref n + d\<rparr>),
                  evictable_sz := evictable_sz c + lock_size d n,
                  protected_sz := protected_sz c - lock_size d n\<rparr>"
  obtains ls where "update_leaf_status i c2 = Inr (c2\<lparr>evictable_leaves := ls\<rparr>)"
    "walking cfg holds (c2\<lparr>evictable_leaves := ls\<rparr>) (par (shape c) i) d pre vpre"
proof -
  note L = walkingD(1) [OF W] and K = walkingD(2) [OF W] and A = walkingD(3) [OF W]
  let ?S = "sh_lock i d (shape c)"
  have sh: "shape (c2\<lparr>evictable_leaves := ls\<rparr>) = ?S" "shape c2 = ?S" for ls
    using shape_lock [OF i(1)] by (simp_all add: c2_def)
  define ls where "ls = (if free_leaf ?S i then set_add i else set_discard i) (evictable_leaves c)"
  have L': "lab (page_size cfg) (is_eagle cfg) ?S (root_node c) pre vpre" by (rule lab_lock [OF L])
  have u: "update_leaf_status i c2 = Inr (c2\<lparr>evictable_leaves := ls\<rparr>)"
    using update_leaf_status_spec [of "page_size cfg" "is_eagle cfg" c2 "root_node c" pre vpre i] L' sh(2) pos
    by (simp add: ls_def) (simp add: c2_def)
  have "locks ?S (root_node c) holds (par (shape c) i) (- d)"
    using locks_step [OF L K shape_Some [OF i(1)] i(2)] pos by simp
  moreover have "acct ?S (root_node c) (evictable_sz c2) (protected_sz c2) ls"
  proof -
    have "distinct ls" "\<And>x. x \<in> set ls \<longleftrightarrow> (if x = i then free_leaf ?S i else x \<in> set (evictable_leaves c))"
      using acctD(4) [OF A] by (auto simp: ls_def set_add_def set_discard_def)
    from acct_lock [OF A shape_Some [OF i(1)] i(2) this]
    show ?thesis by (auto simp: c2_def lock_size_def split: if_splits)
  qed
  moreover have "node_hash_ok (page_size cfg) (n\<lparr>lock_ref := z\<rparr>)" for z
    using W i(1) by (auto simp: walking_def node_hash_ok_iff)
  then have "\<forall>x m. nodes c2 x = Some m \<longrightarrow> x < node_counter c2 \<and> node_hash_ok (page_size cfg) m"
    using W i(1) by (auto simp: walking_def c2_def)
  ultimately have "walking cfg holds (c2\<lparr>evictable_leaves := ls\<rparr>) (par (shape c) i) d pre vpre"
    using L' sh(1) unfolding walking_def by (simp add: c2_def)
  then show ?thesis using u that by blast
qed

section \<open>The walks\<close>

text \<open>What a walk leaves behind.\<close>

definition walked ::
  "radix_config \<Rightarrow> (nat \<Rightarrow> nat) \<Rightarrow> radix_cache \<Rightarrow> nat \<Rightarrow> int \<Rightarrow> (nat \<Rightarrow> tunit list) \<Rightarrow> (nat \<Rightarrow> nat list) \<Rightarrow>
   int \<Rightarrow> radix_cache \<Rightarrow> bool" where
  "walked cfg holds c i d pre vpre delta c' \<longleftrightarrow>
     cache_inv cfg holds c' pre vpre \<and> root_node c' = root_node c \<and>
     nodes c' = (\<lambda>x. map_option (\<lambda>n. n\<lparr>lock_ref := lock_ref n +
        (if on_path pre (root_node c) i x then d else 0)\<rparr>) (nodes c x)) \<and>
     evictable_sz c' = evictable_sz c + delta \<and> protected_sz c' = protected_sz c - delta \<and>
     node_counter c' = node_counter c \<and> ticks c' = ticks c \<and> kv_event_queue c' = kv_event_queue c \<and>
     session_leaves c' = session_leaves c \<and> closed_session_ids c' = closed_session_ids c"

lemma walked_step:
  assumes W: "walking cfg holds c i d pre vpre" and i: "nodes c i = Some n" "i \<noteq> root_node c"
    and c1: "nodes c1 = (nodes c)(i \<mapsto> n\<lparr>lock_ref := lock_ref n + d\<rparr>)" "root_node c1 = root_node c"
      "evictable_sz c1 = evictable_sz c + s" "protected_sz c1 = protected_sz c - s"
      "node_counter c1 = node_counter c" "ticks c1 = ticks c" "kv_event_queue c1 = kv_event_queue c"
      "session_leaves c1 = session_leaves c" "closed_session_ids c1 = closed_session_ids c"
    and w: "walked cfg holds c1 (par (shape c) i) d pre vpre delta c'"
  shows "walked cfg holds c i d pre vpre (s + delta) c'"
proof -
  note L = walkingD(1) [OF W]
  have p: "on_path pre (root_node c) i x \<longleftrightarrow> x = i \<or> on_path pre (root_node c) (par (shape c) i) x"
    if "nodes c x = Some m" for x m
    by (rule on_path_step [OF L shape_Some [OF i(1)] i(2) shape_Some [OF that]])
  have np: "\<not> on_path pre (root_node c) (par (shape c) i) i"
    by (rule on_path_par [OF L shape_Some [OF i(1)] i(2)])
  have "nodes c' x = map_option (\<lambda>n. n\<lparr>lock_ref := lock_ref n +
      (if on_path pre (root_node c) i x then d else 0)\<rparr>) (nodes c x)" for x
    using w p [of x] np i(1) by (cases "nodes c x") (auto simp: walked_def c1)
  then show ?thesis using w c1 by (simp add: walked_def fun_eq_iff)
qed

lemma walked_root:
  assumes "walking cfg holds c (root_node c) d pre vpre"
  shows "walked cfg holds c (root_node c) d pre vpre 0 c"
proof -
  have "\<not> on_path pre (root_node c) (root_node c) x" if "nodes c x = Some n" for x n
    using on_path_root [OF walkingD(1) [OF assms] shape_Some [OF that]] .
  then have "nodes c x = map_option (\<lambda>n. n\<lparr>lock_ref := lock_ref n +
      (if on_path pre (root_node c) (root_node c) x then d else 0)\<rparr>) (nodes c x)" for x
    by (cases "nodes c x") auto
  then show ?thesis using walking_end [OF assms] unfolding walked_def by (simp add: fun_eq_iff)
qed

lemma walk_parent:
  assumes W: "walking cfg holds c i d pre vpre" and i: "nodes c i = Some n" "i \<noteq> root_node c"
  obtains "parent n = Some (par (shape c) i)" "nodes c (par (shape c) i) \<noteq> None"
    "card (nearer (nodes c) pre (par (shape c) i)) < card (nearer (nodes c) pre i)"
proof -
  obtain pn where p: "shape c (par (shape c) i) = Some pn" "s_parent (skel n) = Some (par (shape c) i)"
    "length (pre (par (shape c) i)) < length (pre i)"
    by (rule lab_par [OF walkingD(1) [OF W] shape_Some [OF i(1)] i(2)])
  then have "nodes c (par (shape c) i) \<noteq> None" by (auto simp: shape_Some_iff)
  then show ?thesis using that p nearer_step [OF walkingD(4) [OF W] _ p(3)] by simp
qed

lemma nearer_upd: "nodes c1 = (nodes c)(i \<mapsto> n') \<Longrightarrow> nodes c i = Some n \<Longrightarrow>
    nearer (nodes c1) pre x = nearer (nodes c) pre x"
  by (auto simp: nearer_def)

text \<open>One iteration, in the form both loops use.\<close>

lemma walk_iteration:
  assumes W: "walking cfg holds c i d pre vpre" and i: "nodes c i = Some n" "i \<noteq> root_node c"
    and pos: "0 \<le> lock_ref n + d"
  obtains c3 where
    "update_leaf_status i (upd_node i (\<lambda>n. n\<lparr>lock_ref := lock_ref n + d\<rparr>)
       (c\<lparr>evictable_sz := evictable_sz c + lock_size d n, protected_sz := protected_sz c - lock_size d n\<rparr>)) =
     Inr c3"
    "walking cfg holds c3 (par (shape c) i) d pre vpre" "parent n = Some (par (shape c) i)"
    "nodes c3 (par (shape c) i) \<noteq> None"
    "card (nearer (nodes c3) pre (par (shape c) i)) < card (nearer (nodes c) pre i)"
    "\<And>delta c'. walked cfg holds c3 (par (shape c) i) d pre vpre delta c' \<Longrightarrow>
       walked cfg holds c i d pre vpre (lock_size d n + delta) c'"
proof -
  define c2 where "c2 = c\<lparr>nodes := (nodes c)(i \<mapsto> n\<lparr>lock_ref := lock_ref n + d\<rparr>),
      evictable_sz := evictable_sz c + lock_size d n, protected_sz := protected_sz c - lock_size d n\<rparr>"
  obtain ls where ls: "update_leaf_status i c2 = Inr (c2\<lparr>evictable_leaves := ls\<rparr>)"
    "walking cfg holds (c2\<lparr>evictable_leaves := ls\<rparr>) (par (shape c) i) d pre vpre"
    using walk_step [OF W i pos] unfolding c2_def by blast
  obtain p: "parent n = Some (par (shape c) i)" "nodes c (par (shape c) i) \<noteq> None"
    "card (nearer (nodes c) pre (par (shape c) i)) < card (nearer (nodes c) pre i)"
    by (rule walk_parent [OF W i])
  let ?c3 = "c2\<lparr>evictable_leaves := ls\<rparr>"
  have "card (nearer (nodes ?c3) pre (par (shape c) i)) < card (nearer (nodes c) pre i)"
    using p(3) nearer_upd [of ?c3 c, OF _ i(1)] by (simp add: c2_def)
  moreover have "nodes ?c3 (par (shape c) i) \<noteq> None" using p(2) by (simp add: c2_def)
  moreover have "walked cfg holds c i d pre vpre (lock_size d n + delta) c'"
    if "walked cfg holds ?c3 (par (shape c) i) d pre vpre delta c'" for delta c'
    by (rule walked_step [OF W i _ _ _ _ _ _ _ _ _ that]) (simp_all add: c2_def)
  moreover have "upd_node i (\<lambda>n. n\<lparr>lock_ref := lock_ref n + d\<rparr>)
      (c\<lparr>evictable_sz := evictable_sz c + lock_size d n, protected_sz := protected_sz c - lock_size d n\<rparr>) = c2"
    using i(1) by (simp add: c2_def upd_node_def)
  ultimately show ?thesis using that ls p(1) by metis
qed

lemma walking_nonneg: "walking cfg holds c i d pre vpre \<Longrightarrow> nodes c x = Some n \<Longrightarrow> 0 \<le> lock_ref n"
  using locksD(2) [OF walkingD(2), of cfg holds c i d pre vpre x] by (simp add: lockof_def)

lemma inc_lock_loop_spec:
  "walking cfg holds c i 1 pre vpre \<Longrightarrow> nodes c i \<noteq> None \<Longrightarrow> card (nearer (nodes c) pre i) < fuel \<Longrightarrow>
   \<exists>delta c'. inc_lock_loop fuel i acc c = Inr (acc + delta, c') \<and> delta \<le> 0 \<and>
     walked cfg holds c i 1 pre vpre delta c'"
proof (induction fuel arbitrary: i acc c)
  case 0
  then show ?case by simp
next
  case (Suc fuel)
  show ?case
  proof (cases "i = root_node c")
    case True
    then show ?thesis using walked_root Suc.prems(1) by (intro exI [of _ 0] exI [of _ c]) simp
  next
    case False
    obtain n where n: "nodes c i = Some n" using Suc.prems(2) by blast
    note nn = walking_nonneg [OF Suc.prems(1) n]
    then have pos: "0 \<le> lock_ref n + 1" by simp
    obtain c3 where c3: "update_leaf_status i (upd_node i (\<lambda>n. n\<lparr>lock_ref := lock_ref n + 1\<rparr>)
         (c\<lparr>evictable_sz := evictable_sz c + lock_size 1 n,
            protected_sz := protected_sz c - lock_size 1 n\<rparr>)) = Inr c3"
      "walking cfg holds c3 (par (shape c) i) 1 pre vpre" "parent n = Some (par (shape c) i)"
      "nodes c3 (par (shape c) i) \<noteq> None"
      "card (nearer (nodes c3) pre (par (shape c) i)) < card (nearer (nodes c) pre i)"
      "\<And>delta c'. walked cfg holds c3 (par (shape c) i) 1 pre vpre delta c' \<Longrightarrow>
         walked cfg holds c i 1 pre vpre (lock_size 1 n + delta) c'"
      by (rule walk_iteration [OF Suc.prems(1) n False pos], rule that; (assumption | blast))
    have lt: "lock_size 1 n = (if lock_ref n = 0 then - int (key_len (nkey n)) else 0)"
      using nn by (simp add: lock_size_def)
    obtain delta c' where
      rec: "inc_lock_loop fuel (par (shape c) i) (acc + lock_size 1 n) c3 = Inr (acc + lock_size 1 n + delta, c')"
        "delta \<le> 0" "walked cfg holds c3 (par (shape c) i) 1 pre vpre delta c'"
      using Suc.IH [OF c3(2,4)] c3(5) Suc.prems(3) by fastforce
    have "inc_lock_loop (Suc fuel) i acc c = Inr (acc + (lock_size 1 n + delta), c')"
      using rec(1) c3(1,3) lt n False by (cases "lock_ref n = 0") (simp_all add: Let_def)
    then show ?thesis using c3(6) [OF rec(3)] rec(2) lt
      by (intro exI [of _ "lock_size 1 n + delta"] exI [of _ c']) simp
  qed
qed

lemma dec_lock_loop_spec:
  "walking cfg holds c i (- 1) pre vpre \<Longrightarrow> nodes c i \<noteq> None \<Longrightarrow> card (nearer (nodes c) pre i) < fuel \<Longrightarrow>
   \<exists>delta c'. dec_lock_loop fuel i acc c = Inr (acc + delta, c') \<and> 0 \<le> delta \<and>
     walked cfg holds c i (- 1) pre vpre delta c'"
proof (induction fuel arbitrary: i acc c)
  case 0
  then show ?case by simp
next
  case (Suc fuel)
  show ?case
  proof (cases "i = root_node c")
    case True
    then show ?thesis using walked_root Suc.prems(1) by (intro exI [of _ 0] exI [of _ c]) simp
  next
    case False
    obtain n where n: "nodes c i = Some n" using Suc.prems(2) by blast
    note K = walkingD(2) [OF Suc.prems(1)]
    have pos: "0 \<le> lock_ref n + - 1"
      using locksD(4) [OF K shape_Some [OF n] False]
        child_locks_nonneg [of "shape c" "skel n"] locksD(2) [OF K] by simp
    obtain c3 where c3: "update_leaf_status i (upd_node i (\<lambda>n. n\<lparr>lock_ref := lock_ref n + - 1\<rparr>)
         (c\<lparr>evictable_sz := evictable_sz c + lock_size (- 1) n,
            protected_sz := protected_sz c - lock_size (- 1) n\<rparr>)) = Inr c3"
      "walking cfg holds c3 (par (shape c) i) (- 1) pre vpre" "parent n = Some (par (shape c) i)"
      "nodes c3 (par (shape c) i) \<noteq> None"
      "card (nearer (nodes c3) pre (par (shape c) i)) < card (nearer (nodes c) pre i)"
      "\<And>delta c'. walked cfg holds c3 (par (shape c) i) (- 1) pre vpre delta c' \<Longrightarrow>
         walked cfg holds c i (- 1) pre vpre (lock_size (- 1) n + delta) c'"
      by (rule walk_iteration [OF Suc.prems(1) n False pos], rule that; (assumption | blast))
    have lt: "lock_size (- 1) n = (if lock_ref n = 1 then int (key_len (nkey n)) else 0)"
      using pos by (simp add: lock_size_def)
    obtain delta c' where
      rec: "dec_lock_loop fuel (par (shape c) i) (acc + lock_size (- 1) n) c3 =
          Inr (acc + lock_size (- 1) n + delta, c')"
        "0 \<le> delta" "walked cfg holds c3 (par (shape c) i) (- 1) pre vpre delta c'"
      using Suc.IH [OF c3(2,4)] c3(5) Suc.prems(3) by fastforce
    have "dec_lock_loop (Suc fuel) i acc c = Inr (acc + (lock_size (- 1) n + delta), c')"
      using rec(1) c3(1,3) lt n False by (cases "lock_ref n = 1") (simp_all add: Let_def)
    then show ?thesis using c3(6) [OF rec(3)] rec(2) lt
      by (intro exI [of _ "lock_size (- 1) n + delta"] exI [of _ c']) simp
  qed
qed

lemma nearer_fuel:
  assumes I: "cache_inv cfg holds c pre vpre"
  shows "card (nearer (nodes c) pre i) < Suc (node_counter c)"
proof -
  have "nearer (nodes c) pre i \<subseteq> {..<node_counter c}" using invD(4) [OF I] unfolding nearer_def by auto
  from card_mono [OF _ this] show ?thesis by simp
qed

lemma inc_lock_ref_spec:
  assumes "cache_inv cfg holds c pre vpre" and "\<not> disable cfg" and "nodes c i \<noteq> None"
  shows "\<exists>delta c'. inc_lock_ref cfg i c = Inr (delta, c') \<and> delta \<le> 0 \<and>
    walked cfg (holds(i := holds i + 1)) c i 1 pre vpre delta c'"
  using inc_lock_loop_spec [OF walking_inc [OF assms(1,3)] assms(3) nearer_fuel [OF assms(1)], of 0] assms(2)
  by (simp add: inc_lock_ref_def)

lemma dec_lock_ref_spec:
  assumes "cache_inv cfg holds c pre vpre" and "\<not> disable cfg" and "0 < holds i"
  shows "\<exists>delta c'. dec_lock_ref cfg i c = Inr (delta, c') \<and> 0 \<le> delta \<and>
    walked cfg (holds(i := holds i - 1)) c i (- 1) pre vpre delta c'"
proof -
  have "nodes c i \<noteq> None"
    using locksD(3) [OF invD(2) [OF assms(1)], of i] assms(3) by (metis less_irrefl shape_None)
  then show ?thesis
    using dec_lock_loop_spec [OF walking_dec [OF assms(1,3)] _ nearer_fuel [OF assms(1)], of 0] assms(2)
    by (simp add: dec_lock_ref_def)
qed

section \<open>What a client sees\<close>

lemma walked_contents:
  assumes "cache_inv cfg holds c pre vpre" and "walked cfg holds' c i d pre vpre delta c'"
  shows "cached cfg c' u v \<longleftrightarrow> cached cfg c u v" "node_path c' x u v \<longleftrightarrow> node_path c x u v"
proof -
  have I': "cache_inv cfg holds' c' pre vpre" using assms(2) by (simp add: walked_def)
  have n: "nodes c' x \<noteq> None \<longleftrightarrow> nodes c x \<noteq> None" for x using assms(2) by (simp add: walked_def)
  show np: "node_path c' x u v \<longleftrightarrow> node_path c x u v" for x u v
    by (simp add: node_path_label [OF I'] node_path_label [OF assms(1)] n del: not_None_eq)
  show "cached cfg c' u v \<longleftrightarrow> cached cfg c u v" unfolding cached_def np by simp
qed

lemma walked_slots: "walked cfg holds c i d pre vpre delta c' \<Longrightarrow> slots (shape c') = slots (shape c)"
proof -
  assume w: "walked cfg holds c i d pre vpre delta c'"
  then have "node_slots (shape c') x = node_slots (shape c) x" for x
    by (cases "nodes c x") (auto simp: node_slots_def walked_def shape_def)
  moreover have "dom (shape c') = dom (shape c)" using w by (auto simp: walked_def dom_shape)
  ultimately show ?thesis unfolding slots_def by simp
qed

text \<open>A held node, and every node above it, has a positive reference count.\<close>

lemma held_locked:
  assumes I: "cache_inv cfg holds c pre vpre" and "0 < holds i"
  shows "nodes c x = Some n \<Longrightarrow> on_path pre (root_node c) i x \<Longrightarrow> 0 < lock_ref n"
proof -
  note L = invD(1) [OF I] and K = invD(2) [OF I]
  have pos: "0 \<le> lockof (shape c) x" for x by (rule locksD(2) [OF K])
  have grow: "lockof (shape c) j \<le> lockof (shape c) (par (shape c) j)"
    if j: "nodes c j = Some m" "j \<noteq> root_node c" "par (shape c) j \<noteq> root_node c" for j m
  proof -
    obtain pn where p: "shape c (par (shape c) j) = Some pn"
      "map_of (s_children pn) (s_ck (page_size cfg) (skel m)) = Some j"
      by (rule lab_par [OF L shape_Some [OF j(1)] j(2)])
    have "(s_ck (page_size cfg) (skel m), j) \<in> set (s_children pn)" using p(2) by (rule map_of_SomeD)
    then have "lockof (shape c) j \<le> child_locks (shape c) pn"
      unfolding child_locks_def using pos
      by (intro member_le_sum_list) (force intro: rev_image_eqI)+
    then show ?thesis using locksD(4) [OF K p(1) j(3)] p(1) by (simp add: lockof_def)
  qed
  have own: "0 < lockof (shape c) i" if "nodes c i = Some m" "i \<noteq> root_node c" for m
    using locksD(4) [OF K shape_Some [OF that(1)] that(2)] assms(2) that(1)
      child_locks_nonneg [of "shape c" "skel m"] pos
    by (auto simp: lockof_def)
  have "nodes c y \<noteq> None \<Longrightarrow> 0 < lockof (shape c) y \<or> y = root_node c \<Longrightarrow> nodes c x = Some n \<Longrightarrow>
      on_path pre (root_node c) y x \<Longrightarrow> 0 < lock_ref n" for y
  proof (induction "length (pre y)" arbitrary: y rule: less_induct)
    case less
    then obtain m where m: "nodes c y = Some m" by blast
    have yr: "y \<noteq> root_node c" using less.prems(3,4) on_path_root [OF L] shape_Some by blast
    obtain pn where p: "shape c (par (shape c) y) = Some pn"
      "length (pre (par (shape c) y)) < length (pre y)"
      by (rule lab_par [OF L shape_Some [OF m] yr])
    have "x = y \<or> on_path pre (root_node c) (par (shape c) y) x"
      using on_path_step [OF L shape_Some [OF m] yr shape_Some [OF less.prems(3)]] less.prems(4) by blast
    then show ?case
    proof
      assume "x = y"
      then show ?thesis using less.prems(2,3) yr by (simp add: lockof_def)
    next
      assume "on_path pre (root_node c) (par (shape c) y) x"
      moreover have "nodes c (par (shape c) y) \<noteq> None" using p(1) by (auto simp: shape_Some_iff)
      moreover have "0 < lockof (shape c) (par (shape c) y) \<or> par (shape c) y = root_node c"
        using grow [OF m yr] less.prems(2) yr by force
      ultimately show ?thesis using less.hyps [OF p(2)] less.prems(3) by blast
    qed
  qed
  moreover have "nodes c i \<noteq> None"
    using locksD(3) [OF K, of i] assms(2) by (metis less_irrefl shape_None)
  ultimately show "nodes c x = Some n \<Longrightarrow> on_path pre (root_node c) i x \<Longrightarrow> 0 < lock_ref n"
    using own by blast
qed

lemma same_leaves:
  assumes "cache_inv cfg holds c pre vpre" "cache_inv cfg holds' c' pre' vpre'" "nodes c' = nodes c"
  shows "set (evictable_leaves c') = set (evictable_leaves c)"
  using acctD(5) [OF invD(3) [OF assms(1)]] acctD(5) [OF invD(3) [OF assms(2)]] shape_cong [OF assms(3)] by auto

section \<open>Properties\<close>

text \<open>C20: \<open>inc_lock_ref\<close> protects a path. On a well-formed cache the walk from any node of the tree
  ends at the root without an exception; afterwards the node is held once more, every node on
  the way has a positive reference count and is not an evictable leaf, the returned delta is what
  moved from the evictable to the protected size, and the contents are unchanged.\<close>

theorem inc_lock_ref_protects:
  assumes "wf_cache cfg holds c" and "\<not> disable cfg" and "node_path c i u v"
  shows "\<exists>delta c'. inc_lock_ref cfg i c = Inr (delta, c') \<and> delta \<le> 0 \<and>
    wf_cache cfg (holds(i := holds i + 1)) c' \<and>
    evictable_sz c' = evictable_sz c + delta \<and> protected_sz c' = protected_sz c - delta \<and>
    (\<forall>j uj vj. node_path c j uj vj \<and> prefix uj u \<and> j \<noteq> root_node c \<longrightarrow>
       (\<exists>n. nodes c' j = Some n \<and> 0 < lock_ref n) \<and> j \<notin> set (evictable_leaves c')) \<and>
    (\<forall>w x. cached cfg c' w x = cached cfg c w x)"
proof -
  obtain pre vpre where I: "cache_inv cfg holds c pre vpre" using assms(1) by (auto simp: wf_cache_def)
  have i: "nodes c i \<noteq> None" "u = pre i" using node_path_label [OF I] assms(3) by auto
  obtain delta c' where d: "inc_lock_ref cfg i c = Inr (delta, c')" "delta \<le> 0"
    "walked cfg (holds(i := holds i + 1)) c i 1 pre vpre delta c'"
    using inc_lock_ref_spec [OF I assms(2) i(1)] by blast
  then have I': "cache_inv cfg (holds(i := holds i + 1)) c' pre vpre" by (simp add: walked_def)
  have "\<exists>n. nodes c' j = Some n \<and> 0 < lock_ref n \<and> j \<notin> set (evictable_leaves c')"
    if j: "node_path c j uj vj" "prefix uj u" "j \<noteq> root_node c" for j uj vj
  proof -
    have "nodes c j \<noteq> None" "on_path pre (root_node c) i j"
      using j i(2) node_path_label [OF I] by (auto simp: on_path_def)
    moreover have "nodes c' j = map_option (\<lambda>n. n\<lparr>lock_ref := lock_ref n +
        (if on_path pre (root_node c) i j then 1 else 0)\<rparr>) (nodes c j)"
      using d(3) by (simp add: walked_def)
    ultimately obtain n where n: "nodes c' j = Some n" by auto
    have "0 < lock_ref n"
      using held_locked [OF I' _ n, of i] \<open>on_path pre (root_node c) i j\<close> d(3) by (simp add: walked_def)
    then show ?thesis using n acctD(5) [OF invD(3) [OF I'], of j] by (auto simp: free_leaf_def)
  qed
  moreover have "wf_cache cfg (holds(i := holds i + 1)) c'" using I' unfolding wf_cache_def by blast
  moreover have "evictable_sz c' = evictable_sz c + delta" "protected_sz c' = protected_sz c - delta"
    using d(3) by (simp_all add: walked_def)
  ultimately show ?thesis using d(1,2) walked_contents(1) [OF I d(3)]
    by (intro exI [of _ delta] exI [of _ c'] conjI allI impI) blast+
qed

theorem inc_lock_ref_protects_witness:
  "\<exists>delta c'. inc_lock_ref demo_cfg 1 demo_cache = Inr (delta, c') \<and>
     wf_cache demo_cfg ((\<lambda>_. 0)(1 := 1)) c' \<and> evictable_sz c' = 0"
proof -
  have run: "rbind (inc_lock_ref demo_cfg 1 demo_cache) (\<lambda>(d, c'). Inr (evictable_sz c')) = Inr 0"
    by code_simp
  have n: "nodes demo_cache 1 \<noteq> None" by code_simp
  obtain pre vpre where I: "cache_inv demo_cfg (\<lambda>_. 0) demo_cache pre vpre"
    using demo_cache_wf by (auto simp: wf_cache_def)
  have "node_path demo_cache 1 (pre 1) (vpre 1)" using node_path_label [OF I] n by simp
  from inc_lock_ref_protects [OF demo_cache_wf _ this] run
  show ?thesis by (auto simp: rbind_Inr_iff demo_cfg_def fun_upd_def)
qed

text \<open>C32: releasing undoes taking. \<open>dec_lock_ref\<close> right after \<open>inc_lock_ref\<close> on the same node
  succeeds, reports the opposite delta, and restores every node of the tree, both sizes and the
  set of evictable leaves exactly.\<close>

theorem lock_roundtrip:
  assumes "wf_cache cfg holds c" and "\<not> disable cfg" and "node_path c i u v"
  shows "\<exists>delta c1 c2. inc_lock_ref cfg i c = Inr (delta, c1) \<and>
    dec_lock_ref cfg i c1 = Inr (- delta, c2) \<and> nodes c2 = nodes c \<and>
    evictable_sz c2 = evictable_sz c \<and> protected_sz c2 = protected_sz c \<and>
    set (evictable_leaves c2) = set (evictable_leaves c) \<and> wf_cache cfg holds c2"
proof -
  obtain pre vpre where I: "cache_inv cfg holds c pre vpre" using assms(1) by (auto simp: wf_cache_def)
  have i: "nodes c i \<noteq> None" using node_path_label [OF I] assms(3) by auto
  let ?h = "holds(i := holds i + 1)"
  obtain delta c1 where d: "inc_lock_ref cfg i c = Inr (delta, c1)" "walked cfg ?h c i 1 pre vpre delta c1"
    using inc_lock_ref_spec [OF I assms(2) i] by blast
  then have I1: "cache_inv cfg ?h c1 pre vpre" by (simp add: walked_def)
  obtain delta' c2 where e: "dec_lock_ref cfg i c1 = Inr (delta', c2)"
    "walked cfg (?h(i := ?h i - 1)) c1 i (- 1) pre vpre delta' c2"
    using dec_lock_ref_spec [OF I1 assms(2), of i] by auto
  have "nodes c2 x = nodes c x" for x using d(2) e(2) by (cases "nodes c x") (auto simp: walked_def)
  then have n: "nodes c2 = nodes c" by blast
  have h: "?h(i := ?h i - 1) = holds" by auto
  have I2: "cache_inv cfg holds c2 pre vpre" using e(2) unfolding h by (simp add: walked_def)
  have "evictable_sz c2 = evictable_sz c" "protected_sz c2 = protected_sz c" "root_node c2 = root_node c"
    using acctD(2,3) [OF invD(3) [OF I2]] acctD(2,3) [OF invD(3) [OF I]] shape_cong [OF n] d(2) e(2)
    by (simp_all add: walked_def)
  then show ?thesis using d e(1) n same_leaves [OF I I2 n] I2 e(2) unfolding wf_cache_def walked_def
    by (intro exI [of _ delta] exI [of _ c1] exI [of _ c2]) auto
qed

theorem lock_roundtrip_witness:
  "\<exists>c1 c2. inc_lock_ref demo_cfg 1 demo_cache = Inr (- 4, c1) \<and> dec_lock_ref demo_cfg 1 c1 = Inr (4, c2) \<and>
     nodes c2 = nodes demo_cache"
proof -
  have run: "rbind (inc_lock_ref demo_cfg 1 demo_cache) (\<lambda>(d, c'). Inr d) = Inr (- 4)" by code_simp
  have n: "nodes demo_cache 1 \<noteq> None" by code_simp
  obtain pre vpre where I: "cache_inv demo_cfg (\<lambda>_. 0) demo_cache pre vpre"
    using demo_cache_wf by (auto simp: wf_cache_def)
  have "node_path demo_cache 1 (pre 1) (vpre 1)" using node_path_label [OF I] n by simp
  from lock_roundtrip [OF demo_cache_wf _ this] run
  show ?thesis by (auto simp: rbind_Inr_iff demo_cfg_def)
qed

end
