(* ===== verification/Heapq.thy ===== *)
theory Heapq
  imports Prelude "HOL-Library.Multiset"
begin

text \<open>
  The part of Python's \<open>heapq\<close> the cache uses: \<open>heapify\<close>, \<open>heappush\<close> and \<open>heappop\<close> with their
  two sifting loops on a list. The items are compared through a key in a linear order; an item
  whose key is not smaller never moves up, as with Python's \<open>\<lt>\<close>. \<open>heap_from\<close> is the heap
  condition on the positions from \<open>s\<close> on. The lemmas show that every operation keeps the
  multiset of items and the heap condition, so that \<open>heappop\<close> returns a least item.
\<close>

definition up :: "nat \<Rightarrow> nat" where
  "up i = (i - 1) div 2"

text \<open>\<open>_siftdown(heap, startpos, pos)\<close>: \<open>newitem\<close> travels towards the root while it is smaller.\<close>

function siftdown_loop :: "('a \<Rightarrow> 'k::linorder) \<Rightarrow> 'a list \<Rightarrow> 'a \<Rightarrow> nat \<Rightarrow> nat \<Rightarrow> 'a list" where
  "siftdown_loop key heap newitem startpos pos =
     (if startpos < pos \<and> key newitem < key (heap ! up pos)
      then siftdown_loop key (heap[pos := heap ! up pos]) newitem startpos (up pos)
      else heap[pos := newitem])"
  by auto
termination
  by (relation "measure (\<lambda>(key, heap, newitem, startpos, pos). pos)") (auto simp: up_def)

declare siftdown_loop.simps [simp del]

definition siftdown :: "('a \<Rightarrow> 'k::linorder) \<Rightarrow> 'a list \<Rightarrow> nat \<Rightarrow> nat \<Rightarrow> 'a list" where
  "siftdown key heap startpos pos = siftdown_loop key heap (heap ! pos) startpos pos"

text \<open>\<open>_siftup(heap, pos)\<close>: the smaller child moves up until a leaf is reached, then \<open>newitem\<close>
  is sifted back towards \<open>startpos\<close>.\<close>

function siftup_loop :: "('a \<Rightarrow> 'k::linorder) \<Rightarrow> 'a list \<Rightarrow> nat \<Rightarrow> 'a list \<times> nat" where
  "siftup_loop key heap pos =
     (let childpos = 2 * pos + 1; rightpos = childpos + 1 in
      if childpos < length heap
      then let childpos' = (if rightpos < length heap \<and> \<not> key (heap ! childpos) < key (heap ! rightpos)
                            then rightpos else childpos)
           in siftup_loop key (heap[pos := heap ! childpos']) childpos'
      else (heap, pos))"
  by auto
termination
  by (relation "measure (\<lambda>(key, heap, pos). length heap - pos)") (auto simp: Let_def)

declare siftup_loop.simps [simp del]

definition siftup :: "('a \<Rightarrow> 'k::linorder) \<Rightarrow> 'a list \<Rightarrow> nat \<Rightarrow> 'a list" where
  "siftup key heap pos =
     (let newitem = heap ! pos; (heap', pos') = siftup_loop key heap pos
      in siftdown key (heap'[pos' := newitem]) pos pos')"

definition heappush :: "('a \<Rightarrow> 'k::linorder) \<Rightarrow> 'a list \<Rightarrow> 'a \<Rightarrow> 'a list" where
  "heappush key heap item = siftdown key (heap @ [item]) 0 (length heap)"

definition heappop :: "('a \<Rightarrow> 'k::linorder) \<Rightarrow> 'a list \<Rightarrow> ('a \<times> 'a list) res" where
  "heappop key heap =
     (if heap = [] then Inl IndexError
      else let lastelt = last heap; heap' = butlast heap in
           if heap' \<noteq> [] then Inr (heap' ! 0, siftup key (heap'[0 := lastelt]) 0)
           else Inr (lastelt, heap'))"

definition heapify :: "('a \<Rightarrow> 'k::linorder) \<Rightarrow> 'a list \<Rightarrow> 'a list" where
  "heapify key xs = fold (\<lambda>i h. siftup key h i) (rev [0..<length xs div 2]) xs"

section \<open>The heap condition\<close>

definition heap_from :: "('a \<Rightarrow> 'k::linorder) \<Rightarrow> nat \<Rightarrow> 'a list \<Rightarrow> bool" where
  "heap_from key s h \<longleftrightarrow> (\<forall>i<length h. 0 < i \<and> s \<le> up i \<longrightarrow> key (h ! up i) \<le> key (h ! i))"

lemma up_less: "0 < i \<Longrightarrow> up i < i"
  by (auto simp: up_def)

lemma up_child: "0 < i \<Longrightarrow> up i = p \<longleftrightarrow> i = 2 * p + 1 \<or> i = 2 * p + 2"
  unfolding up_def by presburger

lemma heap_root_least:
  "heap_from key 0 h \<Longrightarrow> i < length h \<Longrightarrow> key (h ! 0) \<le> key (h ! i)"
proof (induction i rule: less_induct)
  case (less i)
  show ?case
  proof (cases "i = 0")
    case False
    then have "key (h ! 0) \<le> key (h ! up i)" using less up_less [of i] by simp
    also have "\<dots> \<le> key (h ! i)" using less.prems False by (simp add: heap_from_def)
    finally show ?thesis .
  qed simp
qed

text \<open>The invariants of the two loops, for the list \<open>v\<close> with the travelling item in its place:
  only the edge above (\<open>hole_up\<close>) or the edges below (\<open>hole_down\<close>) position \<open>p\<close> may be wrong.\<close>

definition hole_up :: "('a \<Rightarrow> 'k::linorder) \<Rightarrow> nat \<Rightarrow> nat \<Rightarrow> 'a list \<Rightarrow> bool" where
  "hole_up key s p v \<longleftrightarrow> p < length v \<and>
     (\<forall>i<length v. 0 < i \<and> s \<le> up i \<and> i \<noteq> p \<longrightarrow> key (v ! up i) \<le> key (v ! i)) \<and>
     (\<forall>i<length v. 0 < i \<and> up i = p \<and> 0 < p \<and> s \<le> up p \<longrightarrow> key (v ! up p) \<le> key (v ! i))"

definition hole_down :: "('a \<Rightarrow> 'k::linorder) \<Rightarrow> nat \<Rightarrow> nat \<Rightarrow> 'a list \<Rightarrow> bool" where
  "hole_down key s p v \<longleftrightarrow> p < length v \<and>
     (\<forall>i<length v. 0 < i \<and> s \<le> up i \<and> i \<noteq> p \<and> up i \<noteq> p \<longrightarrow> key (v ! up i) \<le> key (v ! i)) \<and>
     (\<forall>i<length v. 0 < i \<and> up i = p \<and> 0 < p \<and> s \<le> up p \<longrightarrow> key (v ! up p) \<le> key (v ! i))"

definition swap :: "nat \<Rightarrow> nat \<Rightarrow> 'a list \<Rightarrow> 'a list" where
  "swap i j v = v[i := v ! j, j := v ! i]"

lemma swap_simps [simp]:
  "length (swap i j v) = length v"
  "i < length v \<Longrightarrow> j < length v \<Longrightarrow> mset (swap i j v) = mset v"
  by (auto simp: swap_def mset_swap)

lemma nth_swap: "i < length v \<Longrightarrow> j < length v \<Longrightarrow> k < length v \<Longrightarrow>
    swap i j v ! k = (if k = i then v ! j else if k = j then v ! i else v ! k)"
  by (auto simp: swap_def nth_list_update)

lemma hole_up_done:
  assumes "hole_up key s p v" and "\<not> (0 < p \<and> s \<le> up p \<and> key (v ! p) < key (v ! up p))"
  shows "heap_from key s v"
  using assms unfolding hole_up_def heap_from_def by (metis linorder_not_less)

lemma hole_up_step:
  assumes H: "hole_up key s p v" and p: "0 < p" "s \<le> up p" and lt: "key (v ! p) < key (v ! up p)"
  shows "hole_up key s (up p) (swap p (up p) v)"
proof -
  have pl: "p < length v" "up p < length v" "up p \<noteq> p" using H up_less [OF p(1)] by (auto simp: hole_up_def)
  have edge: "key (v ! up i) \<le> key (v ! i)" if "i < length v" "0 < i" "s \<le> up i" "i \<noteq> p" for i
    using H that by (auto simp: hole_up_def)
  have grand: "key (v ! up p) \<le> key (v ! i)" if "i < length v" "0 < i" "up i = p" for i
    using H that p by (auto simp: hole_up_def)
  note sw = nth_swap [OF pl(1,2)]
  have ul: "i < length v \<Longrightarrow> up i < length v" for i by (auto simp: up_def)
  have "key (swap p (up p) v ! up i) \<le> key (swap p (up p) v ! i)"
    if i: "i < length v" "0 < i" "s \<le> up i" "i \<noteq> up p" for i
  proof (cases "i = p")
    case True
    then show ?thesis using lt sw pl by simp
  next
    case False
    consider "up i = p" | "up i = up p" "up i \<noteq> p" | "up i \<noteq> p" "up i \<noteq> up p" by blast
    then show ?thesis
    proof cases
      case 1
      then show ?thesis using grand [OF i(1,2)] sw pl i False by simp
    next
      case 2
      then show ?thesis using edge [OF i(1-3) False] lt sw pl i False by simp
    next
      case 3
      then show ?thesis using edge [OF i(1-3) False] sw [OF ul [OF i(1)]] sw [OF i(1)] i(4) False by simp
    qed
  qed
  moreover have "key (swap p (up p) v ! up (up p)) \<le> key (swap p (up p) v ! i)"
    if i: "i < length v" "0 < i" "up i = up p" "0 < up p" "s \<le> up (up p)" for i
  proof -
    have "up (up p) \<noteq> up p" "up (up p) \<noteq> p" "i \<noteq> up p"
      using up_less [OF i(4)] pl(3) up_less [OF p(1)] i up_less [OF i(2)] by auto
    moreover have "key (v ! up (up p)) \<le> key (v ! up p)"
      using edge [of "up p"] pl i by simp
    moreover have "i \<noteq> p \<Longrightarrow> key (v ! up p) \<le> key (v ! i)" using edge [of i] i p by simp
    ultimately show ?thesis
      using sw [OF ul [OF pl(2)]] sw [OF i(1)] by (cases "i = p") auto
  qed
  ultimately show ?thesis using pl by (simp add: hole_up_def)
qed

text \<open>The positions below \<open>s\<close>.\<close>

definition below :: "nat \<Rightarrow> nat \<Rightarrow> bool" where
  "below s p \<longleftrightarrow> (\<exists>k. (up ^^ k) p = s)"

lemma below_refl [simp]: "below s s"
  unfolding below_def by (rule exI [of _ 0]) simp

lemma below_zero [simp]: "below 0 p"
proof (induction p rule: less_induct)
  case (less p)
  show ?case
  proof (cases "p = 0")
    case False
    then obtain k where "(up ^^ k) (up p) = 0" using less up_less [of p] by (auto simp: below_def)
    then have "(up ^^ Suc k) p = 0" by (simp add: funpow_swap1)
    then show ?thesis unfolding below_def by blast
  qed simp
qed

lemma up_le: "(up ^^ k) p \<le> p"
  by (induction k) (auto simp: up_def)

lemma below_up: "below s p \<Longrightarrow> p \<noteq> s \<Longrightarrow> below s (up p) \<and> s \<le> up p"
proof -
  assume "below s p" "p \<noteq> s"
  then obtain k where k: "(up ^^ k) p = s" by (auto simp: below_def)
  then obtain j where "(up ^^ j) (up p) = s" using \<open>p \<noteq> s\<close> by (cases k) (auto simp: funpow_swap1)
  then show ?thesis using up_le [of j "up p"] by (auto simp: below_def)
qed

lemma below_child: "below s p \<Longrightarrow> up c = p \<Longrightarrow> below s c"
  unfolding below_def by (metis funpow_Suc_right o_apply)

lemma below_le: "below s p \<Longrightarrow> s \<le> p"
  unfolding below_def using up_le by blast

lemma siftdown_loop_spec:
  "hole_up key s p (heap[p := x]) \<Longrightarrow> below s p \<Longrightarrow>
   heap_from key s (siftdown_loop key heap x s p) \<and>
   mset (siftdown_loop key heap x s p) = mset (heap[p := x])"
proof (induction key heap x s p rule: siftdown_loop.induct)
  case (1 key heap x s p)
  have p: "p < length heap" using "1.prems"(1) by (simp add: hole_up_def)
  show ?case
  proof (cases "s < p \<and> key x < key (heap ! up p)")
    case True
    have u: "below s (up p)" "s \<le> up p" using below_up "1.prems"(2) True by blast+
    have up: "up p < p" using up_less True by simp
    let ?v = "heap[p := x]"
    have sw: "swap p (up p) ?v = (heap[p := heap ! up p])[up p := x]"
      using up p by (simp add: swap_def list_update_swap)
    have "hole_up key s (up p) (swap p (up p) ?v)"
      by (rule hole_up_step [OF "1.prems"(1)]) (use True u up p in auto)
    from "1.IH" [OF True this [unfolded sw] u(1)]
    have "heap_from key s (siftdown_loop key (heap[p := heap ! up p]) x s (up p))"
      "mset (siftdown_loop key (heap[p := heap ! up p]) x s (up p)) = mset (swap p (up p) ?v)"
      unfolding sw by simp_all
    then show ?thesis using True up p siftdown_loop.simps [of key heap x s p] by simp
  next
    case False
    then have e: "siftdown_loop key heap x s p = heap[p := x]"
      by (subst siftdown_loop.simps) (simp only: if_False)
    have "\<not> (0 < p \<and> s \<le> up p \<and> key (heap[p := x] ! p) < key (heap[p := x] ! up p))"
      using False p up_less [of p] below_le [OF "1.prems"(2)] by (auto simp: nth_list_update)
    then show ?thesis using hole_up_done [OF "1.prems"(1)] e by simp
  qed
qed

lemma hole_down_step:
  assumes H: "hole_down key s p v" and s: "below s p" and c: "up c = p" "c < length v" "0 < c"
    and least: "\<And>i. i < length v \<Longrightarrow> 0 < i \<Longrightarrow> up i = p \<Longrightarrow> key (v ! c) \<le> key (v ! i)"
  shows "hole_down key s c (swap p c v)"
proof -
  have pl: "p < length v" "p < c" using H c up_less [of c] by (auto simp: hole_down_def)
  have edge: "key (v ! up i) \<le> key (v ! i)"
    if "i < length v" "0 < i" "s \<le> up i" "i \<noteq> p" "up i \<noteq> p" for i
    using H that by (auto simp: hole_down_def)
  have grand: "key (v ! up p) \<le> key (v ! i)" if "i < length v" "0 < i" "up i = p" "0 < p" "s \<le> up p" for i
    using H that by (auto simp: hole_down_def)
  note sw = nth_swap [OF pl(1) c(2)]
  have ul: "i < length v \<Longrightarrow> up i < length v" for i by (auto simp: up_def)
  have "key (swap p c v ! up i) \<le> key (swap p c v ! i)"
    if i: "i < length v" "0 < i" "s \<le> up i" "i \<noteq> c" "up i \<noteq> c" for i
  proof (cases "i = p")
    case True
    then have "up p \<noteq> p" "up p < length v" using up_less [OF i(2)] ul [OF i(1)] by simp_all
    then show ?thesis using True i grand [OF c(2,3,1)] sw [OF ul [OF i(1)]] sw [OF i(1)] by simp
  next
    case False
    then show ?thesis
      using edge [OF i(1-3)] least [OF i(1,2)] i sw [OF ul [OF i(1)]] sw [OF i(1)] by (cases "up i = p") auto
  qed
  moreover have "key (swap p c v ! up c) \<le> key (swap p c v ! i)"
    if i: "i < length v" "0 < i" "up i = c" for i
  proof -
    have "i \<noteq> p" "i \<noteq> c" using up_less [OF i(2)] i(3) pl by auto
    moreover have "key (v ! c) \<le> key (v ! i)"
      using edge [OF i(1,2)] i(3) below_le [OF s] pl \<open>i \<noteq> p\<close> by auto
    ultimately show ?thesis using sw [OF pl(1)] sw [OF i(1)] c(1) pl by simp
  qed
  ultimately show ?thesis using c(2) by (simp add: hole_down_def)
qed

lemma hole_down_leaf:
  assumes "hole_down key s p v" and "length v \<le> 2 * p + 1"
  shows "hole_up key s p v"
proof -
  have "up i \<noteq> p" if "i < length v" "0 < i" for i using that assms(2) up_child [of i p] by auto
  then show ?thesis using assms(1) by (auto simp: hole_up_def hole_down_def)
qed

lemma siftup_loop_spec:
  "hole_down key s p (heap[p := x]) \<Longrightarrow> below s p \<Longrightarrow>
   (case siftup_loop key heap p of (heap', p') \<Rightarrow>
      hole_up key s p' (heap'[p' := x]) \<and> below s p' \<and> mset (heap'[p' := x]) = mset (heap[p := x]) \<and>
      length heap' = length heap)"
proof (induction key heap p rule: siftup_loop.induct)
  case (1 key heap p)
  have p: "p < length heap" using "1.prems"(1) by (simp add: hole_down_def)
  show ?case
  proof (cases "2 * p + 1 < length heap")
    case True
    define c where "c = (if 2 * p + 1 + 1 < length heap \<and> \<not> key (heap ! (2 * p + 1)) < key (heap ! (2 * p + 1 + 1))
        then 2 * p + 1 + 1 else 2 * p + 1)"
    have c: "c < length heap" "0 < c" "up c = p" "p < c"
      using True unfolding c_def up_def by auto
    let ?v = "heap[p := x]"
    have sw: "swap p c ?v = (heap[p := heap ! c])[c := x]"
      using c p by (simp add: swap_def)
    have "hole_down key s c (swap p c ?v)"
    proof (rule hole_down_step [OF "1.prems" c(3) _ c(2)])
      fix i assume "i < length ?v" "0 < i" "up i = p"
      then have "i = 2 * p + 1 \<or> i = 2 * p + 2" "i < length heap" using up_child by auto
      then show "key (?v ! c) \<le> key (?v ! i)"
        using c p unfolding c_def by (auto simp: nth_list_update)
    qed (use c in simp)
    then have "hole_down key s c ((heap[p := heap ! c])[c := x])" unfolding sw .
    from "1.IH" [OF refl refl True refl, folded c_def, OF this below_child [OF "1.prems"(2) c(3)]]
    have "case siftup_loop key (heap[p := heap ! c]) c of (heap', p') \<Rightarrow>
        hole_up key s p' (heap'[p' := x]) \<and> below s p' \<and> mset (heap'[p' := x]) = mset (swap p c ?v) \<and>
        length heap' = length heap"
      unfolding sw by simp
    moreover have "siftup_loop key heap p = siftup_loop key (heap[p := heap ! c]) c"
      using True by (subst siftup_loop.simps) (simp add: Let_def c_def)
    moreover have "mset (swap p c ?v) = mset ?v" using c p by simp
    ultimately show ?thesis by (simp only:)
  next
    case False
    then have e: "siftup_loop key heap p = (heap, p)"
      by (subst siftup_loop.simps) (simp add: Let_def)
    have "hole_up key s p (heap[p := x])" by (rule hole_down_leaf [OF "1.prems"(1)]) (use False in simp)
    then show ?thesis using e "1.prems"(2) by simp
  qed
qed

section \<open>The operations\<close>

lemma siftdown_spec:
  assumes "hole_up key s p h" and "below s p"
  shows "heap_from key s (siftdown key h s p)" "mset (siftdown key h s p) = mset h"
  using siftdown_loop_spec [of key s p h "h ! p"] assms by (simp_all add: siftdown_def)

lemma siftup_spec:
  assumes "heap_from key (Suc s) h" and "s < length h"
  shows "heap_from key s (siftup key h s)" "mset (siftup key h s) = mset h"
proof -
  obtain h' p' where l: "siftup_loop key h s = (h', p')" by (cases "siftup_loop key h s")
  have "hole_down key s s h"
    using assms up_less unfolding hole_down_def heap_from_def
    by (metis Suc_leI le_neq_implies_less linorder_not_less)
  then have "hole_up key s p' (h'[p' := h ! s])" "below s p'" "mset (h'[p' := h ! s]) = mset h"
    using siftup_loop_spec [of key s s h "h ! s"] l by simp_all
  note sd = siftdown_spec [OF this(1,2)] and m = this(3)
  show "heap_from key s (siftup key h s)" using sd(1) l by (simp add: siftup_def)
  show "mset (siftup key h s) = mset h" using sd(2) m l by (simp add: siftup_def)
qed

lemma heappush_spec:
  assumes "heap_from key 0 h"
  shows "heap_from key 0 (heappush key h x)" "mset (heappush key h x) = add_mset x (mset h)"
proof -
  have up: "up i < length h" if "0 < i" "i < length (h @ [x])" for i using that up_less [of i] by auto
  have "key ((h @ [x]) ! up i) \<le> key ((h @ [x]) ! i)"
    if i: "i < length (h @ [x])" "0 < i" "i \<noteq> length h" for i
  proof -
    have "i < length h" using i by simp
    moreover from this have "key (h ! up i) \<le> key (h ! i)" using assms i(2) unfolding heap_from_def by blast
    ultimately show ?thesis using up [OF i(2,1)] by (simp add: nth_append)
  qed
  moreover have "up i \<noteq> length h" if "0 < i" "i < length (h @ [x])" for i using up [OF that] by simp
  ultimately have "hole_up key 0 (length h) (h @ [x])" unfolding hole_up_def by auto
  from siftdown_spec [OF this] show "heap_from key 0 (heappush key h x)"
    "mset (heappush key h x) = add_mset x (mset h)"
    by (simp_all add: heappush_def)
qed

lemma heappop_spec:
  assumes H: "heap_from key 0 h" and "h \<noteq> []"
  obtains x h' where "heappop key h = Inr (x, h')" "heap_from key 0 h'" "mset h = add_mset x (mset h')"
    "\<And>y. y \<in> set h \<Longrightarrow> key x \<le> key y"
proof -
  obtain b z where h: "h = b @ [z]" using assms(2) by (cases h rule: rev_cases) auto
  have least: "key (h ! 0) \<le> key y" if "y \<in> set h" for y
    using that heap_root_least [OF H] by (auto simp: in_set_conv_nth)
  show ?thesis
  proof (cases b)
    case Nil
    then show ?thesis using that [of z "[]"] h by (simp add: heappop_def heap_from_def)
  next
    case (Cons y ys)
    have "heap_from key (Suc 0) (z # ys)"
      unfolding heap_from_def
    proof (intro allI impI)
      fix i assume i: "i < length (z # ys)" "0 < i \<and> Suc 0 \<le> up i"
      then have "i < length h \<and> 0 < i \<and> 0 \<le> up i" using h Cons by auto
      then have "key (h ! up i) \<le> key (h ! i)" using H unfolding heap_from_def by blast
      moreover have "h ! i = (z # ys) ! i" "h ! up i = (z # ys) ! up i"
        using i up_less [of i] h Cons by (auto simp: nth_append nth_Cons')
      ultimately show "key ((z # ys) ! up i) \<le> key ((z # ys) ! i)" by simp
    qed
    from siftup_spec [OF this]
    have "heap_from key 0 (siftup key (z # ys) 0)" "mset (siftup key (z # ys) 0) = mset (z # ys)" by simp_all
    then show ?thesis
      using that [of y "siftup key (z # ys) 0"] h Cons least by (simp add: heappop_def Let_def)
  qed
qed

lemma heapify_fold:
  "heap_from key k h \<Longrightarrow> k \<le> length h \<Longrightarrow>
   heap_from key 0 (fold (\<lambda>i h. siftup key h i) (rev [0..<k]) h) \<and>
   mset (fold (\<lambda>i h. siftup key h i) (rev [0..<k]) h) = mset h"
proof (induction k arbitrary: h)
  case (Suc k)
  then have "heap_from key k (siftup key h k)" "mset (siftup key h k) = mset h"
    using siftup_spec [of key k h] by simp_all
  moreover from this(2) have "length (siftup key h k) = length h" by (metis size_mset)
  ultimately show ?case using Suc.IH [of "siftup key h k"] Suc.prems(2) by simp
qed simp

lemma heapify_spec: "heap_from key 0 (heapify key xs)" "mset (heapify key xs) = mset xs"
proof -
  have "\<not> length xs div 2 \<le> up i" if "i < length xs" "0 < i" for i
  proof -
    have "(i - 1) div 2 \<le> (length xs - 2) div 2" using that by (intro div_le_mono) simp
    also have "\<dots> < length xs div 2" using that by (cases "length xs" rule: nat.exhaust) auto
    finally show ?thesis by (simp add: up_def)
  qed
  then have "heap_from key (length xs div 2) xs" unfolding heap_from_def by blast
  from heapify_fold [OF this] show "heap_from key 0 (heapify key xs)" "mset (heapify key xs) = mset xs"
    unfolding heapify_def by simp_all
qed

end
