(* ===== verification/Kv_Interface.thy ===== *)
theory Kv_Interface
  imports Radix_Tree "HOL-Library.Multiset"
begin

text \<open>
  What the caches rely on in a KV slot allocator. \<open>avail a\<close> is the multiset of slots the allocator
  \<open>a\<close> can still hand out, slots waiting in an open free group included; \<open>whole ps v\<close> says that
  the slot list \<open>v\<close> consists of whole pages. The contract of \<open>free\<close>: the pages of slots that
  are not in the allocator go back to it, whole pages at a time (\<open>covered ps v\<close> are the slots of the
  pages \<open>v\<close> touches, so a partly filled last page goes back as a whole).
\<close>

definition page_of :: "nat \<Rightarrow> nat \<Rightarrow> nat list" where
  "page_of ps q = map (\<lambda>j. q * ps + j) [0..<ps]"

definition whole :: "nat \<Rightarrow> nat list \<Rightarrow> bool" where
  "whole ps v \<longleftrightarrow> (\<exists>qs. v = concat (map (page_of ps) qs))"

lemma length_page_of [simp]: "length (page_of ps q) = ps"
  by (simp add: page_of_def)

lemma whole_Nil [simp]: "whole ps []"
  unfolding whole_def by (rule exI [of _ "[]"]) simp

lemma whole_append: "whole ps v \<Longrightarrow> whole ps w \<Longrightarrow> whole ps (v @ w)"
  unfolding whole_def by (metis concat_append map_append)

lemma whole_one [simp]: "whole (Suc 0) v"
  unfolding whole_def by (rule exI [of _ v]) (induction v, auto simp: page_of_def)

lemma length_concat_pages: "length (concat (map (page_of ps) qs)) = length qs * ps"
  by (induction qs) auto

lemma take_concat_pages: "take (k * ps) (concat (map (page_of ps) qs)) = concat (map (page_of ps) (take k qs))"
proof (induction qs arbitrary: k)
  case (Cons q qs)
  then show ?case by (cases k) auto
qed simp

lemma drop_concat_pages: "drop (k * ps) (concat (map (page_of ps) qs)) = concat (map (page_of ps) (drop k qs))"
proof (induction qs arbitrary: k)
  case (Cons q qs)
  then show ?case by (cases k) auto
qed simp

lemma whole_take: "whole ps v \<Longrightarrow> ps dvd k \<Longrightarrow> whole ps (take k v)"
  unfolding whole_def by (metis dvd_def mult.commute take_concat_pages)

lemma whole_drop: "whole ps v \<Longrightarrow> ps dvd k \<Longrightarrow> whole ps (drop k v)"
  unfolding whole_def by (metis dvd_def mult.commute drop_concat_pages)

text \<open>No slot is owned twice.\<close>

definition once :: "nat multiset \<Rightarrow> bool" where
  "once M \<longleftrightarrow> (\<forall>s. count M s \<le> 1)"

lemma once_mset: "once (mset v) \<longleftrightarrow> distinct v"
proof -
  have "count (mset v) s \<le> 1 \<longleftrightarrow> count (mset v) s = (if s \<in> set v then 1 else 0)" for s
    by (cases "s \<in> set v") (auto simp: le_Suc_eq)
  then show ?thesis unfolding once_def distinct_count_atmost_1 by blast
qed

lemma once_plus: "once (M + N) \<longleftrightarrow> once M \<and> once N \<and> set_mset M \<inter> set_mset N = {}"
proof -
  have "count M s + count N s \<le> 1 \<longleftrightarrow> count M s \<le> 1 \<and> count N s \<le> 1 \<and> \<not> (s \<in># M \<and> s \<in># N)" for s
    unfolding count_greater_zero_iff [symmetric] by arith
  then show ?thesis unfolding once_def by auto
qed

definition page_slots :: "nat \<Rightarrow> nat list \<Rightarrow> nat multiset" where
  "page_slots ps pages = mset (concat (map (page_of ps) pages))"

lemma page_slots_simps [simp]:
  "page_slots ps [] = {#}" "page_slots ps (p # qs) = mset (page_of ps p) + page_slots ps qs"
  "page_slots ps (qs @ rs) = page_slots ps qs + page_slots ps rs"
  by (simp_all add: page_slots_def)

lemma page_slots_mset: "mset qs = mset rs \<Longrightarrow> page_slots ps qs = page_slots ps rs"
proof (induction qs arbitrary: rs)
  case (Cons q qs)
  then obtain r1 r2 where r: "rs = r1 @ q # r2" by (metis in_multiset_in_set list.set_intros(1) split_list)
  have "mset qs = mset (r1 @ r2)" using Cons.prems r by simp
  from Cons.IH [OF this] have "page_slots ps qs = page_slots ps (r1 @ r2)" .
  then show ?case by (simp add: r ac_simps)
qed simp

lemma page_slots_one [simp]: "page_slots (Suc 0) qs = mset qs"
  by (induction qs) (auto simp: page_of_def)

lemma page_slots_sort [simp]: "page_slots ps (sort qs) = page_slots ps qs"
  by (rule page_slots_mset) simp

lemma page_slots_filter: "page_slots ps (filter P qs) + page_slots ps (filter (\<lambda>q. \<not> P q) qs) = page_slots ps qs"
  by (induction qs) (auto simp: ac_simps)

lemma page_slots_take_drop: "page_slots ps (take n qs) + page_slots ps (drop n qs) = page_slots ps qs"
  by (metis append_take_drop_id page_slots_simps(3))

lemma page_of_mem: "x \<in> set (page_of ps q) \<longleftrightarrow> 0 < ps \<and> x div ps = q"
proof -
  have "x \<in> set (page_of ps q) \<longleftrightarrow> q * ps \<le> x \<and> x < q * ps + ps" by (simp add: page_of_def add.commute)
  also have "\<dots> \<longleftrightarrow> 0 < ps \<and> x div ps = q"
  proof
    assume "q * ps \<le> x \<and> x < q * ps + ps"
    then show "0 < ps \<and> x div ps = q" by (auto intro!: div_nat_eqI simp: mult.commute)
  next
    assume "0 < ps \<and> x div ps = q"
    then show "q * ps \<le> x \<and> x < q * ps + ps" using dividend_less_div_times [of ps x] by auto
  qed
  finally show ?thesis .
qed

lemma once_page_slots:
  assumes "0 < ps" "once (page_slots ps qs)"
  shows "distinct qs"
  using assms(2)
proof (induction qs)
  case (Cons q qs)
  have "q * ps \<in> set (page_of ps q)" using assms(1) by (simp add: page_of_mem)
  then have "q \<notin> set qs" using Cons.prems by (auto simp: once_plus page_slots_def)
  then show ?case using Cons by (simp add: once_plus)
qed simp

lemma distinct_pages: "0 < ps \<Longrightarrow> distinct qs \<Longrightarrow> once (page_slots ps qs)"
proof (induction qs)
  case (Cons q qs)
  have "distinct (page_of ps q)" by (simp add: page_of_def distinct_map)
  moreover have "set (page_of ps q) \<inter> set_mset (page_slots ps qs) = {}"
    using Cons.prems(2) by (auto simp: page_slots_def page_of_mem)
  ultimately show ?case using Cons by (simp add: once_plus once_mset)
qed (simp add: once_def)

text \<open>The slots of the pages a list of slots touches; for distinct whole pages these are the slots
  themselves.\<close>

definition covered :: "nat \<Rightarrow> nat list \<Rightarrow> nat multiset" where
  "covered ps v = page_slots ps (remdups (map (\<lambda>s. s div ps) v))"

lemma covered_Nil [simp]: "covered ps [] = {#}"
  by (simp add: covered_def)

lemma covered_sort: "covered ps v = page_slots ps (sort (remdups (map (\<lambda>s. s div ps) v)))"
  by (simp add: covered_def)

lemma covered_one: "distinct v \<Longrightarrow> covered (Suc 0) v = mset v"
  by (simp add: covered_def distinct_remdups_id)

lemma page_slots_mem: "0 < ps \<Longrightarrow> x \<in># page_slots ps qs \<longleftrightarrow> x div ps \<in> set qs"
  by (auto simp: page_slots_def page_of_mem)

lemma covered_mem: "0 < ps \<Longrightarrow> x \<in># covered ps v \<longleftrightarrow> x div ps \<in> (\<lambda>s. s div ps) ` set v"
  by (simp add: covered_def page_slots_mem)

lemma covered_append:
  assumes "0 < ps" "once (covered ps v + covered ps w)"
  shows "covered ps (v @ w) = covered ps v + covered ps w"
proof -
  let ?p = "map (\<lambda>s. s div ps)"
  have "q \<notin> set (?p w)" if q: "q \<in> set (?p v)" for q
  proof
    assume "q \<in> set (?p w)"
    then have "q * ps \<in># covered ps v" "q * ps \<in># covered ps w" using q assms(1) by (simp_all add: covered_mem)
    then show False using assms(2) by (auto simp: once_plus)
  qed
  then have "mset (remdups (?p (v @ w))) = mset (remdups (?p v) @ remdups (?p w))"
    by (intro set_eq_iff_mset_eq_distinct [THEN iffD1]) auto
  from page_slots_mset [OF this, of ps] show ?thesis by (simp add: covered_def)
qed

lemma once_covered: "0 < ps \<Longrightarrow> once (covered ps v)"
  unfolding covered_def by (rule distinct_pages) simp_all

text \<open>The pages of a list of whole pages.\<close>

lemma covered_whole:
  assumes "0 < ps" and "whole ps v" and "distinct v"
  shows "covered ps v = mset v"
proof -
  obtain qs where v: "v = concat (map (page_of ps) qs)" using assms(2) by (auto simp: whole_def)
  then have "once (page_slots ps qs)" using assms(3) by (simp add: page_slots_def once_mset)
  then have d: "distinct qs" by (rule once_page_slots [OF assms(1)])
  have "set (map (\<lambda>s. s div ps) v) = set qs"
  proof -
    have "(\<lambda>s. s div ps) ` set (page_of ps q) = {q}" for q
    proof
      show "(\<lambda>s. s div ps) ` set (page_of ps q) \<subseteq> {q}" by (auto simp: page_of_mem)
      have "q * ps \<in> set (page_of ps q)" "q = q * ps div ps" using assms(1) by (simp_all add: page_of_mem)
      then show "{q} \<subseteq> (\<lambda>s. s div ps) ` set (page_of ps q)" by blast
    qed
    then show ?thesis unfolding v by (simp add: image_UN)
  qed
  then have "mset (remdups (map (\<lambda>s. s div ps) v)) = mset qs"
    using set_eq_iff_mset_eq_distinct [of "remdups (map (\<lambda>s. s div ps) v)" qs] d by simp
  from page_slots_mset [OF this, of ps]
  show "covered ps v = mset v"
    unfolding covered_def by (simp only: v page_slots_def)
qed

locale kv_release =
  fixes free :: "nat list \<Rightarrow> 'a \<Rightarrow> 'a rr"
    and ps :: nat
    and good :: "'a \<Rightarrow> bool"
    and avail :: "'a \<Rightarrow> nat multiset"
  assumes page_pos: "good a \<Longrightarrow> 0 < ps"
    and free_returns: "good a \<Longrightarrow> distinct v \<Longrightarrow> once (avail a + covered ps v) \<Longrightarrow>
    \<exists>a'. free v a = Inr a' \<and> good a' \<and> avail a' = avail a + covered ps v"
begin

lemma free_pages_whole:
  assumes "good a" "whole ps v" "once (avail a + mset v)"
  shows "\<exists>a'. free v a = Inr a' \<and> good a' \<and> avail a' = avail a + mset v"
proof -
  have d: "distinct v" using assms(3) by (simp add: once_plus once_mset)
  show ?thesis using free_returns [OF assms(1) d] assms(3)
    unfolding covered_whole [OF page_pos [OF assms(1)] assms(2) d] by blast
qed

end

end
