(* ===== verification/Radix_Evict.thy ===== *)
theory Radix_Evict
  imports Radix_Locks Heapq Kv_Interface "HOL-Library.List_Lexorder" "HOL-Library.Product_Lexorder"
begin

text \<open>
  Eviction of the radix cache: the eviction strategies, \<open>evict\<close> with its heap of evictable
  leaves, \<open>_delete_leaf\<close> and the size walk. The KV allocator is a parameter: \<open>free v a\<close> is
  \<open>token_to_kv_pool_allocator.free(v)\<close> on allocator state \<open>a\<close>. The heap items are the priority
  and the node; the last access time of the node, which breaks ties (\<open>TreeNode.__lt__\<close>) and does
  not change during the loop, is read when the item is made. A plain float priority is a list of
  length one, a tuple a longer list. \<open>update_eviction_metrics\<close> only feeds the metrics and is left out.
\<close>

fun get_priority :: "eviction_strategy \<Rightarrow> tree_node \<Rightarrow> int list" where
  "get_priority LRU n = [last_access_time n]"
| "get_priority LFU n = [int (hit_count n), last_access_time n]"
| "get_priority FIFO n = [creation_time n]"
| "get_priority MRU n = [- last_access_time n]"
| "get_priority FILO n = [- creation_time n]"
| "get_priority PRIORITY n = [node_priority n, last_access_time n]"
| "get_priority (SLRU protected_threshold) n =
     [(if protected_threshold \<le> hit_count n then 1 else 0), last_access_time n]"

definition get_eviction_strategy :: "string \<Rightarrow> eviction_strategy res" where
  "get_eviction_strategy policy =
     (case map_of [(''lru'', LRU), (''lfu'', LFU), (''fifo'', FIFO), (''mru'', MRU), (''filo'', FILO),
                   (''priority'', PRIORITY), (''slru'', SLRU 2)] policy of
        Some s \<Rightarrow> Inr s
      | None \<Rightarrow> Inl ValueError)"

type_synonym heap_item = "(int list \<times> int) \<times> nat"

definition heap_item :: "radix_config \<Rightarrow> nat \<Rightarrow> tree_node \<Rightarrow> heap_item" where
  "heap_item cfg i n = ((get_priority (strategy cfg) n, last_access_time n), i)"

fun evict_loop ::
  "radix_config \<Rightarrow> (nat list \<Rightarrow> 'a \<Rightarrow> 'a rr) \<Rightarrow> int \<Rightarrow> nat \<Rightarrow> int \<Rightarrow> heap_item list \<Rightarrow> radix_cache \<Rightarrow> 'a \<Rightarrow>
   (int \<times> radix_cache \<times> 'a) rr" where
  "evict_loop cfg free num_tokens 0 num_evicted heap c a = Inl Diverges"
| "evict_loop cfg free num_tokens (Suc fuel) num_evicted heap c a =
     (if \<not> (num_evicted < num_tokens \<and> heap \<noteq> []) then Inr (num_evicted, c, a)
      else rbind (lift_py (heappop fst heap)) (\<lambda>((_, x), heap1).
        rbind (get_node x c) (\<lambda>n.
        rbind (get_value n) (\<lambda>v.
        rbind (free v a) (\<lambda>a1.
        rbind (delete_leaf cfg x c) (\<lambda>c1.
        case parent n of
          None \<Rightarrow> Inl AttributeError
        | Some p \<Rightarrow>
            rbind (get_node p c1) (\<lambda>pn.
            let heap2 = (if children pn = [] \<and> lock_ref pn = 0
                         then heappush fst heap1 (heap_item cfg p pn) else heap1)
            in rbind (record_remove_event cfg n c1) (\<lambda>c2.
               evict_loop cfg free num_tokens fuel (num_evicted + int (length v)) heap2 c2 a1))))))))"

definition evict ::
  "radix_config \<Rightarrow> (nat list \<Rightarrow> 'a \<Rightarrow> 'a rr) \<Rightarrow> int \<Rightarrow> radix_cache \<Rightarrow> 'a \<Rightarrow> (int \<times> radix_cache \<times> 'a) rr" where
  "evict cfg free num_tokens c a =
     (if disable cfg then Inr (0, c, a)
      else rbind (rmap (\<lambda>i. rbind (get_node i c) (\<lambda>n. Inr (heap_item cfg i n))) (evictable_leaves c))
        (\<lambda>items. evict_loop cfg free num_tokens (Suc (node_counter c)) 0 (heapify fst items) c a))"

section \<open>Removing a leaf\<close>

lemma discard_session_leaf_sel [simp]:
  "root_node (discard_session_leaf i c) = root_node c"
  "node_counter (discard_session_leaf i c) = node_counter c"
  "ticks (discard_session_leaf i c) = ticks c"
  "evictable_sz (discard_session_leaf i c) = evictable_sz c"
  "protected_sz (discard_session_leaf i c) = protected_sz c"
  "evictable_leaves (discard_session_leaf i c) = evictable_leaves c"
  "kv_event_queue (discard_session_leaf i c) = kv_event_queue c"
  "closed_session_ids (discard_session_leaf i c) = closed_session_ids c"
  "(nodes (discard_session_leaf i c))(i := None) = (nodes c)(i := None)"
  by (auto simp: discard_session_leaf_def upd_node_def split: option.splits)

lemma delete_leaf_spec:
  assumes I: "cache_inv cfg holds c pre vpre" and i: "nodes c i = Some n" "i \<noteq> root_node c"
    and leaf: "children n = []" "lock_ref n = 0"
  obtains pn c' where "delete_leaf cfg i c = Inr c'" "cache_inv cfg holds c' pre vpre"
    "shape c' = sh_del (page_size cfg) i (shape c)" "parent n = Some (par (shape c) i)"
    "nodes c (par (shape c) i) = Some pn" "par (shape c) i \<noteq> i"
    "nodes c' = (nodes c)(i := None, par (shape c) i \<mapsto>
       pn\<lparr>children := AList.delete (extra_key (nkey n), take (page_size cfg) (units (nkey n))) (children pn)\<rparr>)"
    "root_node c' = root_node c" "evictable_sz c' = evictable_sz c - int (key_len (nkey n))"
    "protected_sz c' = protected_sz c" "node_counter c' = node_counter c"
    "kv_event_queue c' = kv_event_queue c" "closed_session_ids c' = closed_session_ids c"
    "ticks c' = ticks c"
proof -
  let ?ps = "page_size cfg" and ?S = "shape c" and ?p = "par (shape c) i"
  note L = invD(1) [OF I] and A = invD(3) [OF I]
  have S: "?S i = Some (skel n)" using i(1) by simp
  obtain s where p: "?S ?p = Some s" "s_parent (skel n) = Some ?p"
    "map_of (s_children s) (s_ck ?ps (skel n)) = Some i" "length (pre ?p) < length (pre i)"
    "s_units (skel n) \<noteq> []" "?ps dvd length (s_units (skel n))"
    by (rule lab_par [OF L S i(2)])
  obtain pn where pn: "nodes c ?p = Some pn" "s = skel pn" using p(1) by (auto simp: shape_Some_iff)
  have ne: "?p \<noteq> i" using p(4) by auto
  have ps: "0 < ?ps" by (rule lab_ps [OF L])
  let ?ck = "(extra_key (nkey n), take ?ps (units (nkey n)))"
  have "?ps \<le> key_len (nkey n)" using p(5,6) by (metis dvd_imp_le key_len_units length_greater_0_conv skel_sel(5))
  then have ck: "lift_py (child_key ?ps (nkey n)) = Inr ?ck" "s_ck ?ps (skel n) = ?ck"
    using child_key_units [OF ps] by (simp_all add: s_ck_def)
  define N where "N = (nodes c)(i := None, ?p \<mapsto> pn\<lparr>children := AList.delete ?ck (children pn)\<rparr>)"
  define c4 where "c4 = (discard_session_leaf i (upd_node ?p (\<lambda>pn. pn\<lparr>children := AList.delete ?ck (children pn)\<rparr>) c))
    \<lparr>evictable_sz := evictable_sz c - int (key_len (nkey n)),
     evictable_leaves := set_discard i (evictable_leaves c), nodes := N\<rparr>"
  have N': "(nodes (upd_node ?p (\<lambda>pn. pn\<lparr>children := AList.delete ?ck (children pn)\<rparr>) c))(i := None) = N"
    using pn(1) ne by (auto simp: N_def)
  have sh4: "shape c4 = sh_del ?ps i ?S"
  proof
    fix x
    have skp: "skel (pn\<lparr>children := al\<rparr>) = (skel pn)\<lparr>s_children := al\<rparr>" for al by (simp add: skel_def)
    have "sh_del ?ps i ?S x = (if x = i then None
        else if x = ?p then Some (s\<lparr>s_children := AList.delete ?ck (s_children s)\<rparr>) else ?S x)"
      using S p(1,2) ck(2) ne by (simp add: sh_del_def)
    moreover have "nodes c4 x = N x" by (simp add: c4_def)
    then have "shape c4 x = map_option skel (N x)" by (simp add: shape_def)
    ultimately show "shape c4 x = sh_del ?ps i ?S x"
      using pn(2) ne skp by (auto simp: N_def shape_def)
  qed
  have lab4: "lab ?ps (is_eagle cfg) (shape c4) (root_node c) pre vpre"
    unfolding sh4 by (rule lab_del [OF L S i(2)]) (simp add: leaf)
  have np: "nodes c4 ?p = Some (pn\<lparr>children := AList.delete ?ck (children pn)\<rparr>)" by (simp add: c4_def N_def)
  have "0 \<le> lock_ref pn" using locksD(2) [OF invD(2) [OF I], of ?p] pn(1) by (simp add: lockof_def)
  then have u: "update_leaf_status ?p c4 = Inr (c4\<lparr>evictable_leaves :=
      (if free_leaf (shape c4) ?p then set_add ?p else set_discard ?p) (evictable_leaves c4)\<rparr>)" (is "_ = Inr ?c'")
    using update_leaf_status_spec [OF lab4 np] by simp
  define c' where "c' = ?c'"
  have sel: "nodes c' = N" "root_node c' = root_node c" "node_counter c' = node_counter c"
    "evictable_sz c' = evictable_sz c - int (key_len (nkey n))" "protected_sz c' = protected_sz c"
    "kv_event_queue c' = kv_event_queue c" "closed_session_ids c' = closed_session_ids c" "ticks c' = ticks c"
    "evictable_leaves c' = (if free_leaf (sh_del ?ps i ?S) ?p then set_add ?p else set_discard ?p)
       (set_discard i (evictable_leaves c))"
    unfolding c'_def sh4 by (simp_all add: c4_def)
  have sh': "shape c' = sh_del ?ps i ?S" unfolding sh4 [symmetric]
    by (rule shape_cong) (simp add: sel(1), simp add: c4_def)
  have lv: "distinct (evictable_leaves c')"
    "\<And>x. x \<in> set (evictable_leaves c') \<longleftrightarrow>
       (if x = ?p then free_leaf (sh_del ?ps i ?S) x else x \<in> set (evictable_leaves c) \<and> x \<noteq> i)"
    using acctD(4) [OF A] by (auto simp: sel(9) distinct_set_add distinct_set_discard)
  have hk: "x < node_counter c \<and> node_hash_ok ?ps m" if "N x = Some m" for x m
    using that invD(4,5) [OF I] pn(1) by (auto simp: N_def node_hash_ok_iff split: if_splits)
  have "locks (sh_del ?ps i ?S) (root_node c) holds 0 0"
    by (rule locks_del [OF L invD(2) [OF I] S i(2)]) (simp_all add: leaf)
  moreover have "acct (sh_del ?ps i ?S) (root_node c) (evictable_sz c - int (key_len (nkey n)))
      (protected_sz c) (evictable_leaves c')"
    using acct_del [OF L A S i(2) _ _ lv] leaf by simp
  ultimately have "cache_inv cfg holds c' pre vpre"
    using lab4 hk unfolding cache_inv_def sh' sh4 sel(1-5) by simp
  moreover have "delete_leaf cfg i c = update_leaf_status ?p c4"
    using i pn ck p(2,3) unfolding delete_leaf_def c4_def by (simp add: Let_def N')
  then have "delete_leaf cfg i c = Inr c'" using u unfolding c'_def by simp
  ultimately show ?thesis using that sh' p(2) pn(1) ne sel(1-8) by (simp add: N_def)
qed

section \<open>One round of the eviction loop\<close>

lemma remove_hashes_total:
  assumes "\<forall>h\<in>set hs. \<exists>v. hash_str_to_int64 h = Inr v" and "idx + length starts \<le> length hs"
  shows "\<exists>bhs. remove_hashes hs n ps starts idx = Inr bhs"
  using assms(2)
proof (induction starts arbitrary: idx)
  case (Cons start starts)
  obtain v where v: "hash_str_to_int64 (hs ! idx) = Inr v" using Cons.prems assms(1) by fastforce
  have "\<exists>bhs. remove_hashes hs n ps starts (idx + 1) = Inr bhs"
    "\<exists>bhs. remove_hashes hs n ps starts idx = Inr bhs"
    using Cons.IH [where idx = "idx + 1"] Cons.IH [where idx = idx] Cons.prems by auto
  then show ?case using v Cons.prems by auto
qed simp

lemma record_remove_event_spec:
  assumes "0 < page_size cfg" "page_size cfg dvd key_len (nkey n)" "node_hash_ok (page_size cfg) n"
    and h: "enable_kv_cache_events cfg \<longrightarrow> hasher_ok cfg"
  obtains q where "record_remove_event cfg n c = Inr (c\<lparr>kv_event_queue := q\<rparr>)"
proof (cases "enable_kv_cache_events cfg")
  case False
  then show ?thesis using that [of "kv_event_queue c"] by (simp add: record_remove_event_def)
next
  case True
  let ?ps = "page_size cfg"
  define hs where "hs = (case hash_value n of None \<Rightarrow> compute_node_hash_values cfg n c | Some hs \<Rightarrow> hs)"
  have hs: "hashes_for ?ps (key_len (nkey n)) (Some hs)"
    using assms(3) hasher_hashes_for [OF _ assms(1,2)] h True
    by (auto simp: hs_def node_hash_ok_iff compute_node_hash_values_def split: option.split)
  then have len: "length hs = key_len (nkey n) div ?ps" and
    good: "\<forall>h\<in>set hs. \<exists>v. hash_str_to_int64 h = Inr v"
    using assms(1) by (auto simp: hashes_for_def) (metis div_mult_self_is_m)
  have "length (page_starts ?ps (key_len (nkey n))) = length hs"
    using pages_exact [OF assms(1,2)] len by (simp add: page_starts_def)
  then obtain bhs where "remove_hashes hs (key_len (nkey n)) ?ps (page_starts ?ps (key_len (nkey n))) 0 = Inr bhs"
    using remove_hashes_total [OF good] by (metis add_0 order_refl)
  then have "record_remove_event cfg n c = Inr (if bhs = [] then c
      else c\<lparr>kv_event_queue := kv_event_queue c @ [BlockRemoved bhs]\<rparr>)"
    using True by (simp add: record_remove_event_def hs_def [symmetric])
  then show ?thesis using that [of "kv_event_queue c"] that [of "kv_event_queue c @ [BlockRemoved bhs]"]
    by (cases "bhs = []") simp_all
qed

definition prio :: "radix_config \<Rightarrow> radix_cache \<Rightarrow> nat \<Rightarrow> int list \<times> int" where
  "prio cfg c x = fst (heap_item cfg x (the (nodes c x)))"

text \<open>The heap holds exactly the evictable leaves, each with its priority.\<close>

definition heap_ok :: "radix_config \<Rightarrow> radix_cache \<Rightarrow> heap_item list \<Rightarrow> bool" where
  "heap_ok cfg c h \<longleftrightarrow> heap_from fst 0 h \<and> distinct (map snd h) \<and>
     (\<forall>x. x \<in> snd ` set h \<longleftrightarrow> free_leaf (shape c) x) \<and> (\<forall>k x. (k, x) \<in> set h \<longrightarrow> k = prio cfg c x)"

text \<open>The tree after some leaves have been removed: what is left differs in the children only.\<close>

definition pruned :: "radix_cache \<Rightarrow> radix_cache \<Rightarrow> bool" where
  "pruned c c' \<longleftrightarrow> root_node c' = root_node c \<and> node_counter c' = node_counter c \<and> ticks c' = ticks c \<and>
     protected_sz c' = protected_sz c \<and> closed_session_ids c' = closed_session_ids c \<and>
     (\<forall>x n'. nodes c' x = Some n' \<longrightarrow> (\<exists>n. nodes c x = Some n \<and> n' = n\<lparr>children := children n'\<rparr>)) \<and>
     (\<forall>x n. nodes c x = Some n \<and> 0 < lock_ref n \<longrightarrow> nodes c' x \<noteq> None)"

lemma pruned_refl [simp]: "pruned c c"
  by (simp add: pruned_def)

lemma pruned_lock: "pruned c c' \<Longrightarrow> nodes c' x = Some n' \<Longrightarrow> \<exists>n. nodes c x = Some n \<and> lock_ref n' = lock_ref n"
  unfolding pruned_def by (metis tree_node.select_convs(5) tree_node.surjective tree_node.update_convs(1))

lemma pruned_trans:
  assumes "pruned c c1" "pruned c1 c2"
  shows "pruned c c2"
proof -
  have "\<exists>n. nodes c x = Some n \<and> n' = n\<lparr>children := children n'\<rparr>" if x: "nodes c2 x = Some n'" for x n'
  proof -
    obtain n1 where n1: "nodes c1 x = Some n1" "n' = n1\<lparr>children := children n'\<rparr>"
      using assms(2) x unfolding pruned_def by blast
    obtain n where n: "nodes c x = Some n" "n1 = n\<lparr>children := children n1\<rparr>"
      using assms(1) n1(1) unfolding pruned_def by blast
    have "n' = (n\<lparr>children := children n1\<rparr>)\<lparr>children := children n'\<rparr>" using n(2) n1(2) by simp
    then show ?thesis using n(1) by simp
  qed
  moreover have "nodes c2 x \<noteq> None" if "nodes c x = Some n" "0 < lock_ref n" for x n
  proof -
    have "nodes c1 x \<noteq> None" using assms(1) that unfolding pruned_def by blast
    then obtain n1 where n1: "nodes c1 x = Some n1" by blast
    then show ?thesis using pruned_lock [OF assms(1) n1] assms(2) that unfolding pruned_def by auto
  qed
  ultimately show ?thesis using assms unfolding pruned_def by auto
qed

lemma pruned_prio: "pruned c c' \<Longrightarrow> nodes c' x \<noteq> None \<Longrightarrow> prio cfg c' x = prio cfg c x"
proof -
  assume a: "pruned c c'" "nodes c' x \<noteq> None"
  then obtain n n' where n: "nodes c' x = Some n'" "nodes c x = Some n" "n' = n\<lparr>children := children n'\<rparr>"
    unfolding pruned_def by blast
  have "get_priority s (n\<lparr>children := al\<rparr>) = get_priority s n" for s al by (cases s) simp_all
  then show ?thesis using n by (metis (no_types, lifting) prio_def heap_item_def fst_conv option.sel
        tree_node.select_convs(6) tree_node.surjective tree_node.update_convs(1))
qed

lemma del_free_leaf:
  assumes L: "lab ps big S r pre vpre" and i: "S i = Some n" "i \<noteq> r" and x: "x \<noteq> par S i"
  shows "free_leaf (sh_del ps i S) x \<longleftrightarrow> free_leaf S x \<and> x \<noteq> i"
proof -
  obtain pn where p: "S (par S i) = Some pn" "s_parent n = Some (par S i)"
    "length (pre (par S i)) < length (pre i)"
    by (rule lab_par [OF L i])
  then show ?thesis using i x by (auto simp: sh_del_def free_leaf_def)
qed

lemma evict_round:
  assumes I: "cache_inv cfg holds c pre vpre" and H: "heap_ok cfg c h" "h \<noteq> []"
    and ev: "enable_kv_cache_events cfg \<longrightarrow> hasher_ok cfg"
  obtains k x h1 n v p pn c1 c2 where "heappop fst h = Inr ((k, x), h1)"
    "nodes c x = Some n" "nvalue n = Some v" "length v = key_len (nkey n)" "delete_leaf cfg x c = Inr c1"
    "parent n = Some p" "nodes c1 p = Some pn" "record_remove_event cfg n c1 = Inr c2"
    "heap_ok cfg c2 (if children pn = [] \<and> lock_ref pn = 0
       then heappush fst h1 (heap_item cfg p pn) else h1)"
    "cache_inv cfg holds c2 pre vpre" "slots (shape c) = slots (shape c2) + mset v"
    "evictable_sz c2 = evictable_sz c - int (length v)" "pruned c c2"
    "dom (nodes c2) = dom (nodes c) - {x}" "\<And>y. y \<in> snd ` set h \<Longrightarrow> prio cfg c x \<le> prio cfg c y"
    "snd ` set h - {x} \<subseteq> snd ` set (if children pn = [] \<and> lock_ref pn = 0
       then heappush fst h1 (heap_item cfg p pn) else h1)"
proof -
  let ?ps = "page_size cfg" and ?S = "shape c"
  note L = invD(1) [OF I]
  obtain k x h1 where pop: "heappop fst h = Inr ((k, x), h1)" "heap_from fst 0 h1"
    "mset h = add_mset (k, x) (mset h1)" "\<And>y. y \<in> set h \<Longrightarrow> fst (k, x) \<le> fst y"
  proof -
    obtain y h1 where "heappop fst h = Inr (y, h1)" "heap_from fst 0 h1" "mset h = add_mset y (mset h1)"
      "\<And>z. z \<in> set h \<Longrightarrow> fst y \<le> fst z"
      using heappop_spec [of fst h] H unfolding heap_ok_def by blast
    then show ?thesis using that by (cases y) simp
  qed
  have seth: "set h = insert (k, x) (set h1)" using pop(3) by (metis set_mset_add_mset_insert set_mset_mset)
  have "mset (map snd h) = mset (x # map snd h1)" using pop(3) by simp
  moreover have "distinct (map snd h)" using H(1) unfolding heap_ok_def by blast
  ultimately have "distinct (x # map snd h1)" using mset_eq_imp_distinct_iff by blast
  then have dist: "distinct (map snd h1)" "x \<notin> snd ` set h1" by simp_all
  have "free_leaf ?S x" using H(1) seth by (auto simp: heap_ok_def)
  then obtain n where n: "nodes c x = Some n" "children n = []" "lock_ref n = 0"
    by (auto simp: free_leaf_def shape_Some_iff)
  have xr: "x \<noteq> root_node c"
    using locksD(1) [OF invD(2) [OF I]] n by (auto simp: lockof_def)
  obtain v where v: "nvalue n = Some v" "length v = length (units (nkey n))" "?ps dvd length (units (nkey n))"
    by (rule lab_par [OF L shape_Some [OF n(1)] xr]) simp
  obtain pn c1 where d: "delete_leaf cfg x c = Inr c1" "cache_inv cfg holds c1 pre vpre"
    "shape c1 = sh_del ?ps x ?S" "parent n = Some (par ?S x)" "nodes c (par ?S x) = Some pn" "par ?S x \<noteq> x"
    "nodes c1 = (nodes c)(x := None, par ?S x \<mapsto>
       pn\<lparr>children := AList.delete (extra_key (nkey n), take ?ps (units (nkey n))) (children pn)\<rparr>)"
    "root_node c1 = root_node c" "evictable_sz c1 = evictable_sz c - int (key_len (nkey n))"
    "protected_sz c1 = protected_sz c" "node_counter c1 = node_counter c"
    "closed_session_ids c1 = closed_session_ids c" "ticks c1 = ticks c"
    by (rule delete_leaf_spec [OF I n(1) xr n(2,3)])
  let ?p = "par ?S x"
  obtain q where q: "record_remove_event cfg n c1 = Inr (c1\<lparr>kv_event_queue := q\<rparr>)" (is "_ = Inr ?c2")
    using record_remove_event_spec [OF lab_ps [OF L] _ invD(5) [OF I n(1)] ev] v(3) by auto
  obtain pn1 where pn1: "nodes c1 ?p = Some pn1" "pn1 = pn\<lparr>children := children pn1\<rparr>" "lock_ref pn1 = lock_ref pn"
    using d(7) by simp
  have sh2: "shape ?c2 = shape c1" by (rule shape_cong) simp
  have I2: "cache_inv cfg holds ?c2 pre vpre"
    by (rule inv_same [OF d(2) sh2]) (use invD(5) [OF d(2)] in auto)
  have at: "nodes ?c2 x = None" "nodes ?c2 ?p = Some pn1" "y \<noteq> x \<Longrightarrow> y \<noteq> ?p \<Longrightarrow> nodes ?c2 y = nodes c y" for y
    using d(6,7) pn1(1) by auto
  have pr: "pruned c ?c2"
  proof -
    have "\<exists>m. nodes c y = Some m \<and> n' = m\<lparr>children := children n'\<rparr>" if "nodes ?c2 y = Some n'" for y n'
      using that at d(5) pn1(2) by (cases "y = x"; cases "y = ?p") auto
    moreover have "nodes ?c2 y \<noteq> None" if "nodes c y = Some m" "0 < lock_ref m" for y m
      using that at n by (cases "y = x"; cases "y = ?p") auto
    ultimately show ?thesis unfolding pruned_def using d(8-13) by simp
  qed
  define push where "push \<longleftrightarrow> children pn1 = [] \<and> lock_ref pn1 = 0"
  define h2 where "h2 = (if push then heappush fst h1 (heap_item cfg ?p pn1) else h1)"
  have set2: "set h2 = (if push then insert (heap_item cfg ?p pn1) (set h1) else set h1)"
    "mset (map snd h2) = mset (if push then ?p # map snd h1 else map snd h1)"
    using heappush_spec(2) [OF pop(2), of "heap_item cfg ?p pn1"]
    by (auto simp: h2_def heap_item_def dest: arg_cong [where f = set_mset])
  have xch: "children pn \<noteq> []"
    using lab_par [OF L shape_Some [OF n(1)] xr] d(5) by (metis empty_iff list.set(1) map_of_SomeD
        option.inject shape_Some skel_sel(1))
  then have "\<not> free_leaf ?S ?p" using d(5) by (simp add: free_leaf_def)
  then have ph: "?p \<notin> snd ` set h1" using H(1) seth unfolding heap_ok_def by auto
  have "heap_ok cfg ?c2 h2"
    unfolding heap_ok_def
  proof (intro conjI allI impI)
    show "heap_from fst 0 h2" using pop(2) heappush_spec(1) [OF pop(2)] by (simp add: h2_def)
    show "distinct (map snd h2)"
      using mset_eq_imp_distinct_iff [OF set2(2)] dist(1) ph by (cases push) simp_all
    fix y
    show "y \<in> snd ` set h2 \<longleftrightarrow> free_leaf (shape ?c2) y"
    proof (cases "y = ?p")
      case True
      then show ?thesis using set2(1) ph shape_Some [OF at(2)]
        by (auto simp: push_def free_leaf_def heap_item_def)
    next
      case False
      then have "free_leaf (shape ?c2) y \<longleftrightarrow> free_leaf ?S y \<and> y \<noteq> x"
        using del_free_leaf [OF L shape_Some [OF n(1)] xr] d(3) sh2 by simp
      also have "\<dots> \<longleftrightarrow> y \<in> snd ` set h1" using H(1) seth dist(2) unfolding heap_ok_def by auto
      finally show ?thesis using False set2(1) by (auto simp: heap_item_def)
    qed
    fix k'
    assume ky: "(k', y) \<in> set h2"
    show "k' = prio cfg ?c2 y"
    proof (cases "(k', y) \<in> set h1")
      case True
      then have y: "y \<in> snd ` set h1" by force
      then have ne: "y \<noteq> x" "y \<noteq> ?p" using dist(2) ph by metis+
      have "free_leaf ?S y" using y seth H(1) unfolding heap_ok_def by blast
      then have "nodes c y \<noteq> None" by (auto simp: free_leaf_def shape_Some_iff)
      then have "prio cfg ?c2 y = prio cfg c y" using pruned_prio [OF pr] at(3) ne by simp
      moreover have "(k', y) \<in> set h" using True seth by simp
      then have "k' = prio cfg c y" using H(1) unfolding heap_ok_def by blast
      ultimately show ?thesis by simp
    next
      case False
      then have "(k', y) = heap_item cfg ?p pn1" using ky set2(1) by (auto split: if_splits)
      then show ?thesis using at(2) by (simp add: prio_def heap_item_def)
    qed
  qed
  moreover have "slots ?S = slots (shape ?c2) + mset v"
    using slots_del [OF L acctD(1) [OF invD(3) [OF I]] shape_Some [OF n(1)] xr] v(1) d(3) sh2 by simp
  moreover have "dom (nodes ?c2) = dom (nodes c) - {x}" using d(5-7) by auto
  moreover have "prio cfg c x \<le> prio cfg c y" if y: "y \<in> snd ` set h" for y
  proof -
    obtain k' where k': "(k', y) \<in> set h" using y by force
    have "k \<le> k'" using pop(4) [OF k'] by simp
    moreover have "k' = prio cfg c y" "k = prio cfg c x" using H(1) k' seth unfolding heap_ok_def by blast+
    ultimately show ?thesis by simp
  qed
  moreover have "snd ` set h - {x} \<subseteq> snd ` set h2" using seth set2(1) by auto
  ultimately show ?thesis
    using that [OF pop(1) n(1) v(1) _ d(1,4) pn1(1) q] I2 pr d(9) v(2) unfolding h2_def push_def by simp
qed

section \<open>The eviction loop\<close>

text \<open>With no evictable leaf left nothing is evictable: the children of an unlocked node are
  unlocked, so below an unlocked node there is an unlocked leaf.\<close>

lemma unlocked_child:
  assumes I: "cache_inv cfg holds c pre vpre" and i: "nodes c i = Some n" "i \<noteq> root_node c" "lock_ref n = 0"
    and j: "(k, j) \<in> set (children n)"
  shows "lockof (shape c) j = 0"
proof -
  note K = invD(2) [OF I]
  have "child_locks (shape c) (skel n) = 0"
    using locksD(4) [OF K shape_Some [OF i(1)] i(2)] i(3)
      child_locks_nonneg [of "shape c" "skel n"] locksD(2) [OF K] by simp
  then show ?thesis
    using j locksD(2) [OF K] sum_list_nonneg_eq_0_iff [of "map (\<lambda>(k, j). lockof (shape c) j) (children n)"]
    by (force simp: child_locks_def)
qed

lemma no_leaves:
  assumes I: "cache_inv cfg holds c pre vpre" and none: "\<And>x. \<not> free_leaf (shape c) x"
  shows "evictable_sz c = 0"
proof -
  note L = invD(1) [OF I]
  have "False" if "nodes c x = Some n" "x \<noteq> root_node c" "lock_ref n = 0" for x n
    using that
  proof (induction "Max ((\<lambda>x. length (pre x)) ` dom (nodes c)) - length (pre x)" arbitrary: x n rule: less_induct)
    case less
    have "children n \<noteq> []" using none [of x] less.prems by (auto simp: free_leaf_def)
    then obtain k j where kj: "(k, j) \<in> set (children n)" by (cases "children n") auto
    have "map_of (s_children (skel n)) k = Some j"
      using map_of_set [OF lab_distinct [OF L shape_Some [OF less.prems(1)]]] kj by simp
    then obtain m where m: "shape c j = Some m" "j \<noteq> root_node c" "length (pre x) < length (pre j)"
      by (rule lab_child_of [OF L shape_Some [OF less.prems(1)]])
    then obtain nj where nj: "nodes c j = Some nj" "lock_ref nj = 0"
      using unlocked_child [OF I less.prems kj] by (auto simp: shape_Some_iff lockof_def)
    have "finite (dom (nodes c))" using acctD(1) [OF invD(3) [OF I]] by (simp add: dom_shape)
    then have "length (pre j) \<le> Max ((\<lambda>x. length (pre x)) ` dom (nodes c))" using nj(1) by (intro Max_ge) auto
    then have "Max ((\<lambda>x. length (pre x)) ` dom (nodes c)) - length (pre j) <
        Max ((\<lambda>x. length (pre x)) ` dom (nodes c)) - length (pre x)" using m(3) by linarith
    then show ?case by (rule less.hyps [OF _ nj(1) m(2) nj(2)])
  qed
  then have "lockof (shape c) x \<noteq> 0" if "x \<in> dom (shape c) - {root_node c}" for x
    using that by (auto simp: lockof_def shape_Some_iff)
  then have "ev_size (shape c) (root_node c) = 0" unfolding ev_size_def by (intro sum.neutral) auto
  then show ?thesis using acctD(2) [OF invD(3) [OF I]] by simp
qed

definition values_whole :: "nat \<Rightarrow> radix_cache \<Rightarrow> bool" where
  "values_whole ps c \<longleftrightarrow> (\<forall>x n v. nodes c x = Some n \<and> nvalue n = Some v \<longrightarrow> whole ps v)"

lemma pruned_whole: "pruned c c' \<Longrightarrow> values_whole ps c \<Longrightarrow> values_whole ps c'"
  unfolding pruned_def values_whole_def
  by (metis tree_node.select_convs(4) tree_node.surjective tree_node.update_convs(1))

text \<open>What an eviction that removed \<open>k\<close> tokens leaves behind; \<open>leaves\<close> are the candidates it
  started with.\<close>

definition evicted_to ::
  "radix_config \<Rightarrow> (nat \<Rightarrow> nat) \<Rightarrow> (nat \<Rightarrow> tunit list) \<Rightarrow> (nat \<Rightarrow> nat list) \<Rightarrow> nat set \<Rightarrow> radix_cache \<Rightarrow> int \<Rightarrow>
   radix_cache \<Rightarrow> bool" where
  "evicted_to cfg holds pre vpre leaves c k c' \<longleftrightarrow>
     cache_inv cfg holds c' pre vpre \<and> pruned c c' \<and> 0 \<le> k \<and> evictable_sz c' = evictable_sz c - k \<and>
     (\<forall>x y. nodes c x \<noteq> None \<and> nodes c' x = None \<and> y \<in> leaves \<and> nodes c' y \<noteq> None \<longrightarrow>
        prio cfg c x \<le> prio cfg c y)"

lemma evicted_to_step:
  assumes r: "pruned c c2" "evictable_sz c2 = evictable_sz c - int l" "dom (nodes c2) = dom (nodes c) - {x}"
      "\<And>y. y \<in> leaves \<Longrightarrow> prio cfg c x \<le> prio cfg c y" "leaves - {x} \<subseteq> leaves2"
    and e: "evicted_to cfg holds pre vpre leaves2 c2 k c'"
  shows "evicted_to cfg holds pre vpre leaves c (int l + k) c'"
proof -
  have "prio cfg c y \<le> prio cfg c z"
    if y: "nodes c y \<noteq> None" "nodes c' y = None" "z \<in> leaves" "nodes c' z \<noteq> None" for y z
  proof (cases "y = x")
    case True
    then show ?thesis using r(4) y(3) by simp
  next
    case False
    have z2: "nodes c2 z \<noteq> None" using e y(4) unfolding evicted_to_def pruned_def by blast
    then have "z \<in> leaves2" using r(3,5) y(3) by (auto simp: dom_def)
    moreover have y2: "nodes c2 y \<noteq> None" using False r(3) y(1) by (auto simp: dom_def)
    ultimately have "prio cfg c2 y \<le> prio cfg c2 z" using e y unfolding evicted_to_def by blast
    then show ?thesis using pruned_prio [OF r(1) y2] pruned_prio [OF r(1) z2] by simp
  qed
  then show ?thesis using e r(1,2) pruned_trans [OF r(1)] unfolding evicted_to_def by simp
qed

text \<open>The view of a client: nothing new is cached, and a node with a positive reference count keeps
  its whole path.\<close>

definition spared :: "radix_cache \<Rightarrow> radix_cache \<Rightarrow> bool" where
  "spared c c' \<longleftrightarrow> (\<forall>i u v. node_path c' i u v \<longrightarrow> node_path c i u v) \<and>
     (\<forall>i n u v. node_path c i u v \<and> nodes c i = Some n \<and> 0 < lock_ref n \<longrightarrow> node_path c' i u v)"

lemma pruned_spared:
  assumes I: "cache_inv cfg holds c pre vpre" and I': "cache_inv cfg holds c' pre vpre" and P: "pruned c c'"
  shows "spared c c'"
  using P unfolding spared_def pruned_def node_path_label [OF I] node_path_label [OF I'] by blast

lemma spared_cached: "spared c c' \<Longrightarrow> cached cfg c' u v \<Longrightarrow> cached cfg c u v"
  unfolding spared_def cached_def by blast

lemma leaf_items:
  assumes I: "cache_inv cfg holds c pre vpre"
  shows "rmap (\<lambda>i. rbind (get_node i c) (\<lambda>n. Inr (heap_item cfg i n))) (evictable_leaves c) =
    Inr (map (\<lambda>i. heap_item cfg i (the (nodes c i))) (evictable_leaves c))"
proof -
  have "\<exists>n. nodes c i = Some n" if "i \<in> set (evictable_leaves c)" for i
    using that acctD(5) [OF invD(3) [OF I]] by (auto simp: free_leaf_def shape_Some_iff)
  then have "\<forall>i\<in>set ls. \<exists>n. nodes c i = Some n \<Longrightarrow>
      rmap (\<lambda>i. rbind (get_node i c) (\<lambda>n. Inr (heap_item cfg i n))) ls =
      Inr (map (\<lambda>i. heap_item cfg i (the (nodes c i))) ls)" for ls
    by (induction ls) auto
  then show ?thesis using \<open>\<And>i. i \<in> set (evictable_leaves c) \<Longrightarrow> \<exists>n. nodes c i = Some n\<close> by blast
qed

lemma initial_heap:
  assumes I: "cache_inv cfg holds c pre vpre"
  defines "items \<equiv> map (\<lambda>i. heap_item cfg i (the (nodes c i))) (evictable_leaves c)"
  shows "heap_ok cfg c (heapify fst items)" "snd ` set (heapify fst items) = set (evictable_leaves c)"
proof -
  note A = invD(3) [OF I]
  have m: "mset (heapify fst items) = mset items" by (rule heapify_spec)
  then have s: "set (heapify fst items) = set items" by (metis set_mset_mset)
  have ids: "map snd items = evictable_leaves c" by (simp add: items_def heap_item_def comp_def)
  show snds: "snd ` set (heapify fst items) = set (evictable_leaves c)" unfolding s using ids by (metis list.set_map)
  have "mset (map snd (heapify fst items)) = mset (evictable_leaves c)" using m ids by (metis mset_map)
  then have "distinct (map snd (heapify fst items))" using mset_eq_imp_distinct_iff acctD(4) [OF A] by blast
  moreover have "k = prio cfg c x" if "(k, x) \<in> set (heapify fst items)" for k x
    using that unfolding s by (auto simp: items_def prio_def heap_item_def)
  ultimately show "heap_ok cfg c (heapify fst items)"
    unfolding heap_ok_def snds using heapify_spec(1) acctD(5) [OF A] by blast
qed

context kv_release
begin

lemma evict_loop_spec:
  assumes ev: "enable_kv_cache_events cfg \<longrightarrow> hasher_ok cfg"
  shows "cache_inv cfg holds c pre vpre \<Longrightarrow> heap_ok cfg c h \<Longrightarrow> card (dom (nodes c)) < fuel \<Longrightarrow> good a \<Longrightarrow>
    once (avail a + slots (shape c)) \<Longrightarrow> values_whole ps c \<Longrightarrow>
    \<exists>k c' a'. evict_loop cfg free num fuel e h c a = Inr (e + k, c', a') \<and>
      evicted_to cfg holds pre vpre (snd ` set h) c k c' \<and> good a' \<and>
      avail a' + slots (shape c') = avail a + slots (shape c) \<and>
      (num \<le> e + k \<or> evictable_sz c' = 0)"
proof (induction fuel arbitrary: c h a e)
  case 0
  then show ?case by simp
next
  case (Suc fuel)
  note I = Suc.prems(1) and H = Suc.prems(2)
  show ?case
  proof (cases "e < num \<and> h \<noteq> []")
    case False
    have "num \<le> e + 0 \<or> evictable_sz c = 0"
      using False no_leaves [OF I] H unfolding heap_ok_def by fastforce
    moreover have "evicted_to cfg holds pre vpre (snd ` set h) c 0 c" using I by (auto simp: evicted_to_def)
    ultimately show ?thesis using False Suc.prems(4)
      by (intro exI [of _ 0] exI [of _ c] exI [of _ a]) simp
  next
    case True
    obtain q x h1 n v p pn c1 c2 where r: "heappop fst h = Inr ((q, x), h1)"
      "nodes c x = Some n" "nvalue n = Some v" "length v = key_len (nkey n)" "delete_leaf cfg x c = Inr c1"
      "parent n = Some p" "nodes c1 p = Some pn" "record_remove_event cfg n c1 = Inr c2"
      "heap_ok cfg c2 (if children pn = [] \<and> lock_ref pn = 0
         then heappush fst h1 (heap_item cfg p pn) else h1)"
      "cache_inv cfg holds c2 pre vpre" "slots (shape c) = slots (shape c2) + mset v"
      "evictable_sz c2 = evictable_sz c - int (length v)" "pruned c c2"
      "dom (nodes c2) = dom (nodes c) - {x}" "\<And>y. y \<in> snd ` set h \<Longrightarrow> prio cfg c x \<le> prio cfg c y"
      "snd ` set h - {x} \<subseteq> snd ` set (if children pn = [] \<and> lock_ref pn = 0
         then heappush fst h1 (heap_item cfg p pn) else h1)"
      by (rule evict_round [OF I H _ ev], use True in blast, rule that; (assumption | blast))
    let ?h2 = "if children pn = [] \<and> lock_ref pn = 0 then heappush fst h1 (heap_item cfg p pn) else h1"
    have "whole ps v" using Suc.prems(6) r(2,3) unfolding values_whole_def by blast
    moreover have "once (avail a + mset v)" using Suc.prems(5) r(11) by (auto simp: once_plus)
    ultimately obtain a1 where a1: "free v a = Inr a1" "good a1" "avail a1 = avail a + mset v"
      using free_pages_whole [OF Suc.prems(4)] by blast
    have "card (dom (nodes c2)) < fuel"
      using Suc.prems(3) r(2,14) acctD(1) [OF invD(3) [OF I]] unfolding dom_shape
      by (metis card_Suc_Diff1 domI not_less_eq)
    moreover have "once (avail a1 + slots (shape c2))" using Suc.prems(5) a1(3) r(11) by (simp add: ac_simps)
    ultimately obtain k c' a' where rec:
      "evict_loop cfg free num fuel (e + int (length v)) ?h2 c2 a1 = Inr (e + int (length v) + k, c', a')"
      "evicted_to cfg holds pre vpre (snd ` set ?h2) c2 k c'" "good a'"
      "avail a' + slots (shape c') = avail a1 + slots (shape c2)"
      "num \<le> e + int (length v) + k \<or> evictable_sz c' = 0"
      using Suc.IH [OF r(10,9) _ a1(2) _ pruned_whole [OF r(13) Suc.prems(6)]] by blast
    have "evict_loop cfg free num (Suc fuel) e h c a = Inr (e + (int (length v) + k), c', a')"
      using True r(1-3,5-8) a1(1) rec(1) by (simp add: Let_def add.assoc)
    then show ?thesis
      using evicted_to_step [OF r(13,12,14,15,16) rec(2)] rec(3-5) a1(3) r(11)
      by (intro exI [of _ "int (length v) + k"] exI [of _ c'] exI [of _ a']) (simp add: ac_simps)
  qed
qed

lemma evict_spec:
  assumes wf: "wf_cache cfg holds c" and "\<not> disable cfg" and ev: "enable_kv_cache_events cfg \<longrightarrow> hasher_ok cfg"
    and a: "good a" "once (avail a + slots (shape c))" "values_whole ps c"
  shows "\<exists>k c' a'. evict cfg free num c a = Inr (k, c', a') \<and> wf_cache cfg holds c' \<and> good a' \<and>
    avail a' + slots (shape c') = avail a + slots (shape c) \<and> values_whole ps c' \<and>
    0 \<le> k \<and> evictable_sz c' = evictable_sz c - k \<and> protected_sz c' = protected_sz c \<and>
    (num \<le> k \<or> evictable_sz c' = 0) \<and> spared c c' \<and>
    (\<forall>x y. nodes c x \<noteq> None \<and> nodes c' x = None \<and> y \<in> set (evictable_leaves c) \<and> nodes c' y \<noteq> None \<longrightarrow>
       prio cfg c x \<le> prio cfg c y)"
proof -
  obtain pre vpre where I: "cache_inv cfg holds c pre vpre" using wf by (auto simp: wf_cache_def)
  define items where "items = map (\<lambda>i. heap_item cfg i (the (nodes c i))) (evictable_leaves c)"
  have H: "heap_ok cfg c (heapify fst items)" "snd ` set (heapify fst items) = set (evictable_leaves c)"
    using initial_heap [OF I] unfolding items_def by blast+
  have "card (dom (nodes c)) < Suc (node_counter c)"
  proof -
    have "dom (nodes c) \<subseteq> {..<node_counter c}" using invD(4) [OF I] by auto
    from card_mono [OF _ this] show ?thesis by simp
  qed
  then obtain k c' a' where k: "evict_loop cfg free num (Suc (node_counter c)) 0 (heapify fst items) c a = Inr (0 + k, c', a')"
    "evicted_to cfg holds pre vpre (set (evictable_leaves c)) c k c'" "good a'"
    "avail a' + slots (shape c') = avail a + slots (shape c)" "num \<le> 0 + k \<or> evictable_sz c' = 0"
    using evict_loop_spec [OF ev I H(1) _ a, of "Suc (node_counter c)" num 0] unfolding H(2) by blast
  have I': "cache_inv cfg holds c' pre vpre" and P: "pruned c c'" using k(2) unfolding evicted_to_def by blast+
  have "evict cfg free num c a = Inr (k, c', a')"
    using assms(2) k(1) leaf_items [OF I] by (simp add: evict_def items_def)
  moreover have "protected_sz c' = protected_sz c" using P by (simp add: pruned_def)
  ultimately show ?thesis
    using k(2-5) pruned_whole [OF P a(3)] pruned_spared [OF I I' P] I'
    unfolding evicted_to_def wf_cache_def by (intro exI [of _ k] exI [of _ c'] exI [of _ a']) auto
qed

end

end
