(* ===== verification/Radix_Sessions.thy ===== *)
theory Radix_Sessions
  imports Radix_Evict Radix_Locks
begin

text \<open>
  The session mixin of the radix cache (\<^verbatim>\<open>mem_cache/session_radix_cache.py\<close>): requests tag the leaf
  they end in with their session, closing a session removes the tags and frees the chains only it
  held. The sets are duplicate-free lists; the order in which the source iterates a set is the
  order of the list, and nothing below depends on it.
\<close>

definition closed_session_tombstone_limit :: nat where
  "closed_session_tombstone_limit = 8192"

definition remember_closed_session :: "string \<Rightarrow> radix_cache \<Rightarrow> radix_cache" where
  "remember_closed_session sid c =
     (let ids = set_discard sid (closed_session_ids c) @ [sid]
      in c\<lparr>closed_session_ids := drop (length ids - closed_session_tombstone_limit) ids\<rparr>)"

definition tag_session_leaf ::
  "radix_config \<Rightarrow> string option \<Rightarrow> radix_key \<Rightarrow> nat option \<Rightarrow> radix_cache \<Rightarrow> radix_cache rr" where
  "tag_session_leaf cfg session k node c =
     (if \<not> enable_session_radix_cache cfg then Inr c
      else case session of
        None \<Rightarrow> Inr c
      | Some sid \<Rightarrow>
          if sid \<in> set (closed_session_ids c) then Inr c
          else rbind (case node of
                  Some i \<Rightarrow> Inr (i, c)
                | None \<Rightarrow> rbind (match_prefix cfg k c) (\<lambda>((_, i), c1). Inr (i, c1)))
            (\<lambda>(i, c1).
               if i = root_node c1 then Inr c1
               else rbind (get_node i c1) (\<lambda>n.
                 let ids = (case session_ids n of None \<Rightarrow> [] | Some s \<Rightarrow> s);
                     leaves = (case map_of (session_leaves c1) sid of None \<Rightarrow> [] | Some l \<Rightarrow> l)
                 in Inr ((upd_node i (\<lambda>n. n\<lparr>session_ids := Some (set_add sid ids)\<rparr>) c1)
                           \<lparr>session_leaves := AList.update sid (set_add i leaves) (session_leaves c1)\<rparr>))))"

definition tagged :: "string \<Rightarrow> tree_node \<Rightarrow> bool" where
  "tagged sid n = (case session_ids n of None \<Rightarrow> False | Some s \<Rightarrow> sid \<in> set s)"

definition drop_session :: "string \<Rightarrow> tree_node \<Rightarrow> tree_node" where
  "drop_session sid n =
     (case session_ids n of
        None \<Rightarrow> n
      | Some s \<Rightarrow> n\<lparr>session_ids := (if set_discard sid s = [] then None else Some (set_discard sid s))\<rparr>)"

fun release_walk ::
  "radix_config \<Rightarrow> (nat list \<Rightarrow> 'a \<Rightarrow> 'a rr) \<Rightarrow> string \<Rightarrow> nat \<Rightarrow> nat \<Rightarrow> nat \<Rightarrow> radix_cache \<Rightarrow> 'a \<Rightarrow>
   (nat \<times> radix_cache \<times> 'a) rr" where
  "release_walk cfg free sid 0 i freed c a = Inl Diverges"
| "release_walk cfg free sid (Suc fuel) i freed c a =
     (let c1 = upd_node i (drop_session sid) c in
      rbind (get_node i c1) (\<lambda>n.
        if i = root_node c1 \<or> lock_ref n \<noteq> 0 \<or> children n \<noteq> [] \<or> i \<notin> set (evictable_leaves c1) \<or>
           session_ids n \<notin> {None, Some []}
        then Inr (freed, c1, a)
        else
          rbind (get_value n) (\<lambda>v.
          rbind (free v a) (\<lambda>a1.
          rbind (delete_leaf cfg i c1) (\<lambda>c2.
          case parent n of
            None \<Rightarrow> Inl AttributeError
          | Some p \<Rightarrow> release_walk cfg free sid fuel p (freed + 1) c2 a1)))))"

fun release_leaves ::
  "radix_config \<Rightarrow> (nat list \<Rightarrow> 'a \<Rightarrow> 'a rr) \<Rightarrow> string \<Rightarrow> nat list \<Rightarrow> nat \<Rightarrow> radix_cache \<Rightarrow> 'a \<Rightarrow>
   (nat \<times> radix_cache \<times> 'a) rr" where
  "release_leaves cfg free sid [] freed c a = Inr (freed, c, a)"
| "release_leaves cfg free sid (i # is) freed c a =
     (if \<not> (case nodes c i of None \<Rightarrow> False | Some n \<Rightarrow> tagged sid n)
      then release_leaves cfg free sid is freed c a
      else rbind (release_walk cfg free sid (Suc (node_counter c)) i freed c a) (\<lambda>(freed', c', a').
             release_leaves cfg free sid is freed' c' a'))"

definition release_radix_session ::
  "radix_config \<Rightarrow> (nat list \<Rightarrow> 'a \<Rightarrow> 'a rr) \<Rightarrow> string \<Rightarrow> radix_cache \<Rightarrow> 'a \<Rightarrow> (nat \<times> radix_cache \<times> 'a) rr" where
  "release_radix_session cfg free sid c a =
     (let c1 = remember_closed_session sid c;
          indexed = (case map_of (session_leaves c1) sid of None \<Rightarrow> [] | Some l \<Rightarrow> l);
          c2 = c1\<lparr>session_leaves := AList.delete sid (session_leaves c1)\<rparr>
      in release_leaves cfg free sid indexed 0 c2 a)"

section \<open>What closing a session does to the tree\<close>

text \<open>Every node tagged with the session is in its index.\<close>

definition session_indexed :: "string \<Rightarrow> radix_cache \<Rightarrow> bool" where
  "session_indexed sid c \<longleftrightarrow> (\<forall>x n. nodes c x = Some n \<and> tagged sid n \<longrightarrow>
     (\<exists>l. map_of (session_leaves c) sid = Some l \<and> x \<in> set l))"

definition released :: "string \<Rightarrow> nat \<Rightarrow> radix_cache \<Rightarrow> radix_cache \<Rightarrow> bool" where
  "released sid k c c' \<longleftrightarrow>
     root_node c' = root_node c \<and> node_counter c' = node_counter c \<and> ticks c' = ticks c \<and>
     protected_sz c' = protected_sz c \<and> closed_session_ids c' = closed_session_ids c \<and>
     kv_event_queue c' = kv_event_queue c \<and> card (dom (nodes c')) + k = card (dom (nodes c)) \<and>
     (map_of (session_leaves c) sid = None \<longrightarrow> map_of (session_leaves c') sid = None) \<and>
     (\<forall>x n'. nodes c' x = Some n' \<longrightarrow> (\<exists>n. nodes c x = Some n \<and> nvalue n' = nvalue n \<and> lock_ref n' = lock_ref n \<and>
        (\<forall>t. tagged t n' \<longrightarrow> tagged t n) \<and> (\<forall>t. tagged t n \<and> t \<noteq> sid \<longrightarrow> tagged t n'))) \<and>
     (\<forall>x n. nodes c x = Some n \<and> (0 < lock_ref n \<or> (\<exists>t. tagged t n \<and> t \<noteq> sid)) \<longrightarrow> nodes c' x \<noteq> None)"

lemma released_refl [simp]: "released sid 0 c c"
  by (auto simp: released_def)

lemma released_node:
  assumes "released sid k c c'" "nodes c' x = Some n'"
  obtains n where "nodes c x = Some n" "nvalue n' = nvalue n" "lock_ref n' = lock_ref n"
    "\<And>t. tagged t n' \<Longrightarrow> tagged t n" "\<And>t. tagged t n \<Longrightarrow> t \<noteq> sid \<Longrightarrow> tagged t n'"
  using assms unfolding released_def by blast

lemma released_stays:
  "released sid k c c' \<Longrightarrow> nodes c x = Some n \<Longrightarrow> 0 < lock_ref n \<or> (\<exists>t. tagged t n \<and> t \<noteq> sid) \<Longrightarrow>
   \<exists>n'. nodes c' x = Some n'"
  unfolding released_def by blast

lemma released_trans:
  assumes 1: "released sid k c c1" and 2: "released sid l c1 c2"
  shows "released sid (k + l) c c2"
proof -
  have "\<exists>n. nodes c x = Some n \<and> nvalue n' = nvalue n \<and> lock_ref n' = lock_ref n \<and>
      (\<forall>t. tagged t n' \<longrightarrow> tagged t n) \<and> (\<forall>t. tagged t n \<and> t \<noteq> sid \<longrightarrow> tagged t n')" if n': "nodes c2 x = Some n'" for x n'
  proof -
    obtain m where m: "nodes c1 x = Some m" "nvalue n' = nvalue m" "lock_ref n' = lock_ref m"
      "\<And>t. tagged t n' \<Longrightarrow> tagged t m" "\<And>t. tagged t m \<Longrightarrow> t \<noteq> sid \<Longrightarrow> tagged t n'"
      by (rule released_node [OF 2 n'], rule that; (assumption | blast))
    obtain n where n: "nodes c x = Some n" "nvalue m = nvalue n" "lock_ref m = lock_ref n"
      "\<And>t. tagged t m \<Longrightarrow> tagged t n" "\<And>t. tagged t n \<Longrightarrow> t \<noteq> sid \<Longrightarrow> tagged t m"
      by (rule released_node [OF 1 m(1)], rule that; (assumption | blast))
    have "nvalue n' = nvalue n" "lock_ref n' = lock_ref n" using m(2,3) n(2,3) by simp_all
    moreover have "\<forall>t. tagged t n' \<longrightarrow> tagged t n" using m(4) n(4) by blast
    moreover have "\<forall>t. tagged t n \<and> t \<noteq> sid \<longrightarrow> tagged t n'" using m(5) n(5) by blast
    ultimately show ?thesis using n(1) by blast
  qed
  moreover have "nodes c2 x \<noteq> None" if n: "nodes c x = Some n" "0 < lock_ref n \<or> (\<exists>t. tagged t n \<and> t \<noteq> sid)" for x n
  proof -
    obtain m where m: "nodes c1 x = Some m" using released_stays [OF 1 n] by blast
    have "0 < lock_ref m \<or> (\<exists>t. tagged t m \<and> t \<noteq> sid)" using released_node [OF 1 m] n by (metis option.inject)
    then show ?thesis using released_stays [OF 2 m] by blast
  qed
  ultimately show ?thesis using assms unfolding released_def by auto
qed

lemma tagged_drop: "tagged t (drop_session sid n) \<longleftrightarrow> tagged t n \<and> t \<noteq> sid"
  by (cases "session_ids n") (auto simp: tagged_def drop_session_def set_discard_def filter_empty_conv)

lemma drop_session_sel [simp]:
  "nvalue (drop_session sid n) = nvalue n" "lock_ref (drop_session sid n) = lock_ref n"
  "children (drop_session sid n) = children n" "parent (drop_session sid n) = parent n"
  "nkey (drop_session sid n) = nkey n" "hash_value (drop_session sid n) = hash_value n"
  by (simp_all add: drop_session_def split: option.split)

lemma released_drop: "released sid 0 c (upd_node i (drop_session sid) c)"
proof -
  have "dom (nodes (upd_node i (drop_session sid) c)) = dom (nodes c)" by (auto split: if_splits)
  then show ?thesis unfolding released_def
    by (auto simp: tagged_drop split: if_splits)
qed

lemma inv_drop_session:
  "cache_inv cfg holds c pre vpre \<Longrightarrow> cache_inv cfg holds (upd_node i (drop_session sid) c) pre vpre"
  by (rule inv_upd_same) (simp_all add: skel_def node_hash_ok_iff)

lemma shape_drop_session: "shape (upd_node i (drop_session sid) c) = shape c"
  by (rule shape_upd_same) (simp add: skel_def)

lemma discard_from_sessions_None:
  "map_of sl sid = None \<Longrightarrow> map_of (discard_from_sessions i closed sids sl) sid = None"
proof (induction i closed sids sl rule: discard_from_sessions.induct)
  case (2 i closed t sids sl)
  have "map_of (case map_of sl t of None \<Rightarrow> sl | Some leaves \<Rightarrow>
      let leaves' = set_discard i leaves in if leaves' = [] \<and> t \<notin> set closed then AList.delete t sl
      else AList.update t leaves' sl) sid = None"
    using "2.prems" by (cases "t = sid") (auto simp: Let_def update_conv' delete_conv' split: option.split)
  then show ?case using "2.IH" by simp
qed simp

lemma delete_leaf_sessions:
  assumes "delete_leaf cfg i c = Inr c'" "map_of (session_leaves c) sid = None"
  shows "map_of (session_leaves c') sid = None"
proof -
  have u: "session_leaves c2 = session_leaves c1" if "update_leaf_status p c1 = Inr c2" for p c1 c2
    using that by (auto simp: update_leaf_status_def rbind_Inr_iff Let_def split: if_splits)
  show ?thesis
    using assms discard_from_sessions_None
    by (auto simp: delete_leaf_def rbind_Inr_iff Let_def discard_session_leaf_def dest!: u
        split: option.splits if_splits)
qed

lemma inv_leaf:
  "cache_inv cfg holds c pre vpre \<Longrightarrow> nodes c i = Some n \<Longrightarrow> i \<noteq> root_node c \<Longrightarrow> children n = [] \<Longrightarrow> lock_ref n = 0 \<Longrightarrow>
   i \<in> set (evictable_leaves c)"
  using acctD(5) [OF invD(3)] by (auto simp: free_leaf_def)

text \<open>Deleting one untagged leaf.\<close>

lemma released_delete:
  assumes I: "cache_inv cfg holds c pre vpre" and i: "nodes c i = Some n" "i \<noteq> root_node c"
    and leaf: "children n = []" "lock_ref n = 0" "session_ids n \<in> {None, Some []}"
  obtains v c' p where "nvalue n = Some v" "delete_leaf cfg i c = Inr c'" "cache_inv cfg holds c' pre vpre"
    "parent n = Some p" "nodes c' p \<noteq> None" "slots (shape c) = slots (shape c') + mset v"
    "evictable_sz c' \<le> evictable_sz c" "released sid 1 c c'" "nodes c' i = None"
proof -
  let ?ps = "page_size cfg" and ?p = "par (shape c) i"
  note L = invD(1) [OF I]
  obtain v where v: "nvalue n = Some v" by (rule lab_par [OF L shape_Some [OF i(1)] i(2)]) simp
  obtain pn c' where d: "delete_leaf cfg i c = Inr c'" "cache_inv cfg holds c' pre vpre"
    "shape c' = sh_del ?ps i (shape c)" "parent n = Some ?p" "nodes c ?p = Some pn" "?p \<noteq> i"
    "nodes c' = (nodes c)(i := None, ?p \<mapsto>
       pn\<lparr>children := AList.delete (extra_key (nkey n), take ?ps (units (nkey n))) (children pn)\<rparr>)"
    "root_node c' = root_node c" "evictable_sz c' = evictable_sz c - int (key_len (nkey n))"
    "protected_sz c' = protected_sz c" "node_counter c' = node_counter c" "kv_event_queue c' = kv_event_queue c"
    "closed_session_ids c' = closed_session_ids c" "ticks c' = ticks c"
    by (rule delete_leaf_spec [OF I i leaf(1,2)])
  have dom: "dom (nodes c') = dom (nodes c) - {i}" using d(5-7) by auto
  have "finite (dom (nodes c))" using acctD(1) [OF invD(3) [OF I]] by (simp add: dom_shape)
  then have card: "card (dom (nodes c')) + 1 = card (dom (nodes c))"
    using i(1) unfolding dom by (metis Suc_eq_plus1 card_Suc_Diff1 domI)
  have untag: "\<not> tagged t n" for t using leaf(3) by (auto simp: tagged_def)
  have "released sid 1 c c'"
    unfolding released_def using d(5-8,10-14) card i(1) leaf(2) untag delete_leaf_sessions [OF d(1)]
    by (auto simp: tagged_def)
  moreover have "slots (shape c) = slots (shape c') + mset v"
    using slots_del [OF L acctD(1) [OF invD(3) [OF I]] shape_Some [OF i(1)] i(2)] v d(3) by simp
  ultimately show ?thesis using that [OF v d(1,2,4)] d(6,7,9) by simp
qed

lemma released_values: "released sid k c c' \<Longrightarrow> values_whole ps c \<Longrightarrow> values_whole ps c'"
  unfolding values_whole_def by (metis released_node)

lemma released_spared:
  assumes "cache_inv cfg holds c pre vpre" "cache_inv cfg holds c' pre vpre" "released sid k c c'"
  shows "spared c c'"
  using assms(3) unfolding spared_def released_def node_path_label [OF assms(1)] node_path_label [OF assms(2)] by blast

context kv_release
begin

lemma release_walk_spec:
  "cache_inv cfg holds c pre vpre \<Longrightarrow> nodes c i \<noteq> None \<Longrightarrow> card (dom (nodes c)) < fuel \<Longrightarrow> good a \<Longrightarrow>
   once (avail a + slots (shape c)) \<Longrightarrow> values_whole ps c \<Longrightarrow>
   \<exists>k c' a'. release_walk cfg free sid fuel i freed c a = Inr (freed + k, c', a') \<and> cache_inv cfg holds c' pre vpre \<and>
     released sid k c c' \<and> good a' \<and> avail a' + slots (shape c') = avail a + slots (shape c) \<and>
     evictable_sz c' \<le> evictable_sz c \<and> (\<forall>n. nodes c' i = Some n \<longrightarrow> \<not> tagged sid n)"
proof (induction fuel arbitrary: i c a freed)
  case (Suc fuel)
  define c1 where "c1 = upd_node i (drop_session sid) c"
  have I1: "cache_inv cfg holds c1 pre vpre" unfolding c1_def by (rule inv_drop_session [OF Suc.prems(1)])
  have r1: "released sid 0 c c1" unfolding c1_def by (rule released_drop)
  have s1: "shape c1 = shape c" unfolding c1_def by (rule shape_drop_session)
  obtain n where n: "nodes c1 i = Some n" "\<not> tagged sid n" using Suc.prems(2) by (auto simp: c1_def tagged_drop)
  have e1: "evictable_sz c1 = evictable_sz c" by (simp add: c1_def)
  show ?case
  proof (cases "i = root_node c1 \<or> lock_ref n \<noteq> 0 \<or> children n \<noteq> [] \<or> session_ids n \<notin> {None, Some []}")
    case True
    then have "release_walk cfg free sid (Suc fuel) i freed c a = Inr (freed + 0, c1, a)"
      using n by (auto simp: Let_def c1_def [symmetric])
    then show ?thesis using I1 r1 s1 e1 n Suc.prems(4) by (metis option.inject order_refl)
  next
    case False
    obtain v c2 p where d: "nvalue n = Some v" "delete_leaf cfg i c1 = Inr c2" "cache_inv cfg holds c2 pre vpre"
      "parent n = Some p" "nodes c2 p \<noteq> None" "slots (shape c1) = slots (shape c2) + mset v"
      "evictable_sz c2 \<le> evictable_sz c1" "released sid 1 c1 c2" "nodes c2 i = None"
      by (rule released_delete [OF I1 n(1), of sid]) (use False in auto)
    have "whole ps v" using released_values [OF r1 Suc.prems(6)] n(1) d(1) by (auto simp: values_whole_def)
    moreover have "once (avail a + mset v)" using Suc.prems(5) d(6) s1 by (auto simp: once_plus)
    ultimately obtain a1 where a1: "free v a = Inr a1" "good a1" "avail a1 = avail a + mset v"
      using free_pages_whole [OF Suc.prems(4)] by blast
    have r2: "released sid 1 c c2" using released_trans [OF r1 d(8)] by simp
    have "once (avail a1 + slots (shape c2))" using Suc.prems(5) a1(3) d(6) s1 by (simp add: ac_simps)
    moreover have "card (dom (nodes c2)) < fuel" using r2 Suc.prems(3) by (simp add: released_def)
    ultimately obtain k c' a' where rec: "release_walk cfg free sid fuel p (freed + 1) c2 a1 = Inr (freed + 1 + k, c', a')"
      "cache_inv cfg holds c' pre vpre" "released sid k c2 c'" "good a'"
      "avail a' + slots (shape c') = avail a1 + slots (shape c2)" "evictable_sz c' \<le> evictable_sz c2"
      using Suc.IH [OF d(3,5) _ a1(2) _ released_values [OF r2 Suc.prems(6)]] by blast
    have "i \<in> set (evictable_leaves c1)" using inv_leaf [OF I1 n(1)] False by simp
    then have "release_walk cfg free sid (Suc fuel) i freed c a = Inr (freed + (1 + k), c', a')"
      using False n d(1,2,4) a1(1) rec(1) by (auto simp: Let_def c1_def [symmetric])
    moreover have "released sid (1 + k) c c'" by (rule released_trans [OF r2 rec(3)])
    moreover have "nodes c' i = None" using rec(3) d(9) by (metis not_Some_eq released_node option.distinct(1))
    ultimately show ?thesis using rec(2,4,5,6) a1(3) d(6,7) s1 e1
      by (intro exI [of _ "1 + k"] exI [of _ c'] exI [of _ a']) (simp add: ac_simps)
  qed
qed simp

lemma release_leaves_spec:
  "cache_inv cfg holds c pre vpre \<Longrightarrow> good a \<Longrightarrow> once (avail a + slots (shape c)) \<Longrightarrow> values_whole ps c \<Longrightarrow>
   \<exists>k c' a'. release_leaves cfg free sid is freed c a = Inr (freed + k, c', a') \<and> cache_inv cfg holds c' pre vpre \<and>
     released sid k c c' \<and> good a' \<and> avail a' + slots (shape c') = avail a + slots (shape c) \<and>
     evictable_sz c' \<le> evictable_sz c \<and> (\<forall>i\<in>set is. \<forall>n. nodes c' i = Some n \<longrightarrow> \<not> tagged sid n)"
proof (induction "is" arbitrary: c a freed)
  case Nil
  then show ?case by (auto intro!: exI [of _ 0])
next
  case (Cons i js)
  show ?case
  proof (cases "case nodes c i of None \<Rightarrow> False | Some n \<Rightarrow> tagged sid n")
    case False
    obtain k c' a' where r: "release_leaves cfg free sid js freed c a = Inr (freed + k, c', a')" "cache_inv cfg holds c' pre vpre"
      "released sid k c c'" "good a'" "avail a' + slots (shape c') = avail a + slots (shape c)"
      "evictable_sz c' \<le> evictable_sz c" "\<forall>i\<in>set js. \<forall>n. nodes c' i = Some n \<longrightarrow> \<not> tagged sid n"
      using Cons.IH [OF Cons.prems] by blast
    have "\<not> tagged sid n" if "nodes c' i = Some n" for n
      by (rule released_node [OF r(3) that]) (use False in auto)
    then show ?thesis using False r by auto
  next
    case True
    have fin: "card (dom (nodes c)) < Suc (node_counter c)"
    proof -
      have "dom (nodes c) \<subseteq> {..<node_counter c}" using invD(4) [OF Cons.prems(1)] by auto
      from card_mono [OF _ this] show ?thesis by simp
    qed
    have "nodes c i \<noteq> None" using True by (cases "nodes c i") simp_all
    then obtain k1 c1 a1 where w: "release_walk cfg free sid (Suc (node_counter c)) i freed c a = Inr (freed + k1, c1, a1)"
      "cache_inv cfg holds c1 pre vpre" "released sid k1 c c1" "good a1"
      "avail a1 + slots (shape c1) = avail a + slots (shape c)" "evictable_sz c1 \<le> evictable_sz c"
      "\<forall>n. nodes c1 i = Some n \<longrightarrow> \<not> tagged sid n"
      using release_walk_spec [OF Cons.prems(1) _ fin Cons.prems(2-4)] by blast
    obtain k c' a' where r: "release_leaves cfg free sid js (freed + k1) c1 a1 = Inr (freed + k1 + k, c', a')"
      "cache_inv cfg holds c' pre vpre" "released sid k c1 c'" "good a'"
      "avail a' + slots (shape c') = avail a1 + slots (shape c1)" "evictable_sz c' \<le> evictable_sz c1"
      "\<forall>i\<in>set js. \<forall>n. nodes c' i = Some n \<longrightarrow> \<not> tagged sid n"
      using Cons.IH [OF w(2,4) _ released_values [OF w(3) Cons.prems(4)]] Cons.prems(3) w(5) by metis
    have "\<not> tagged sid n" if "nodes c' i = Some n" for n
      by (rule released_node [OF r(3) that]) (use w(7) in blast)
    moreover have "released sid (k1 + k) c c'" by (rule released_trans [OF w(3) r(3)])
    ultimately show ?thesis using True w(1,5,6) r(1,2,4-7)
      by (intro exI [of _ "k1 + k"] exI [of _ c'] exI [of _ a']) (auto simp: add.assoc)
  qed
qed

lemma release_session_spec:
  assumes wf: "wf_cache cfg holds c" and a: "good a" "once (avail a + slots (shape c))" "values_whole ps c"
    and idx: "session_indexed sid c"
  shows "\<exists>k c' a'. release_radix_session cfg free sid c a = Inr (k, c', a') \<and> wf_cache cfg holds c' \<and> good a' \<and>
    avail a' + slots (shape c') = avail a + slots (shape c) \<and> values_whole ps c' \<and>
    card (dom (nodes c')) + k = card (dom (nodes c)) \<and> spared c c' \<and>
    (\<forall>x n'. nodes c' x = Some n' \<longrightarrow> \<not> tagged sid n') \<and>
    (\<forall>x n t. nodes c x = Some n \<and> tagged t n \<and> t \<noteq> sid \<longrightarrow> (\<exists>n'. nodes c' x = Some n' \<and> tagged t n')) \<and>
    map_of (session_leaves c') sid = None \<and> sid \<in> set (closed_session_ids c') \<and>
    kv_event_queue c' = kv_event_queue c"
proof -
  obtain pre vpre where I: "cache_inv cfg holds c pre vpre" using wf by (auto simp: wf_cache_def)
  define js where "js = (case map_of (session_leaves c) sid of None \<Rightarrow> [] | Some l \<Rightarrow> l)"
  define b where "b = (remember_closed_session sid c)\<lparr>session_leaves := AList.delete sid (session_leaves c)\<rparr>"
  have b: "nodes b = nodes c" "kv_event_queue b = kv_event_queue c" "map_of (session_leaves b) sid = None"
    "sid \<in> set (closed_session_ids b)"
    by (auto simp: b_def remember_closed_session_def Let_def delete_conv' closed_session_tombstone_limit_def)
  have sb: "shape b = shape c" by (rule shape_cong [OF b(1)])
  have Ib: "cache_inv cfg holds b pre vpre"
    by (rule inv_same [OF I sb]) (use invD(5) [OF I] b(1) in \<open>auto simp: b_def remember_closed_session_def Let_def\<close>)
  have wb: "values_whole ps b" using a(3) b(1) by (simp add: values_whole_def)
  obtain k c' a' where r: "release_leaves cfg free sid js 0 b a = Inr (0 + k, c', a')" "cache_inv cfg holds c' pre vpre"
    "released sid k b c'" "good a'" "avail a' + slots (shape c') = avail a + slots (shape b)"
    "\<forall>i\<in>set js. \<forall>n. nodes c' i = Some n \<longrightarrow> \<not> tagged sid n"
    using release_leaves_spec [OF Ib a(1) _ wb, of sid js 0] a(2) sb by auto
  have run: "release_radix_session cfg free sid c a = Inr (k, c', a')"
    using r(1) by (simp add: release_radix_session_def js_def b_def remember_closed_session_def Let_def)
  have "\<not> tagged sid n'" if n': "nodes c' x = Some n'" for x n'
  proof
    assume t: "tagged sid n'"
    obtain n where "nodes b x = Some n" "tagged sid n" using released_node [OF r(3) n'] t by metis
    then have "x \<in> set js" using idx b(1) by (fastforce simp: js_def session_indexed_def)
    then show False using r(6) n' t by blast
  qed
  moreover have "\<exists>n'. nodes c' x = Some n' \<and> tagged t n'" if n: "nodes c x = Some n" "tagged t n" "t \<noteq> sid" for x n t
  proof -
    obtain n' where n': "nodes c' x = Some n'" using released_stays [OF r(3)] n b(1) by metis
    then show ?thesis using released_node [OF r(3) n'] n b(1) by (metis option.inject)
  qed
  moreover have "spared c c'"
    using released_spared [OF Ib r(2,3)] b(1) unfolding spared_def node_path_label [OF I] node_path_label [OF Ib] by simp
  moreover have "values_whole ps c'" by (rule released_values [OF r(3) wb])
  ultimately show ?thesis using run r(2-5) sb b unfolding released_def wf_cache_def by auto
qed

end

section \<open>Operations that keep the contents\<close>

text \<open>Matching, locking and tagging may split nodes and move counters, but keep what is cached, where
  every node stands, and which slots the tree owns.\<close>

definition keeps :: "radix_config \<Rightarrow> radix_cache \<Rightarrow> radix_cache \<Rightarrow> bool" where
  "keeps cfg c c' \<longleftrightarrow> (\<forall>u v. cached cfg c' u v = cached cfg c u v) \<and>
     (\<forall>i u v. node_path c i u v \<longrightarrow> node_path c' i u v) \<and> slots (shape c') = slots (shape c)"

lemma keeps_refl [simp]: "keeps cfg c c"
  by (simp add: keeps_def)

lemma keeps_trans [trans]: "keeps cfg c c1 \<Longrightarrow> keeps cfg c1 c2 \<Longrightarrow> keeps cfg c c2"
  by (simp add: keeps_def)

lemma match_prefix_keeps:
  assumes "wf_cache cfg holds c" "\<not> disable cfg" "is_bigram k \<longrightarrow> is_eagle cfg"
  obtains idx node c' where "match_prefix cfg k c = Inr ((idx, node), c')" "wf_cache cfg holds c'" "keeps cfg c c'"
    "node_path c' node (take (length idx) (lookup_units cfg k)) idx" "length idx \<le> length (lookup_units cfg k)"
    "\<And>m v. m \<le> length (lookup_units cfg k) \<Longrightarrow> page_size cfg dvd m \<Longrightarrow>
       cached cfg c (take m (lookup_units cfg k)) v \<Longrightarrow> m \<le> length idx"
proof -
  obtain pre vpre where I: "cache_inv cfg holds c pre vpre" using assms(1) by (auto simp: wf_cache_def)
  obtain node c' pre' vpre' where m: "match_prefix cfg k c = Inr ((vpre' node, node), c')"
    "stops_at cfg holds c pre vpre (lookup_units cfg k) c' pre' vpre' node"
    by (rule match_prefix_spec [OF I assms(2,3)])
  note F = stops_at_facts [OF I m(2)]
  have R: "refines cfg holds c pre vpre c' pre' vpre'" using m(2) by (simp add: stops_at_def)
  have "node_path c' i u v" if "node_path c i u v" for i u v
  proof -
    have i: "nodes c i \<noteq> None" "u = pre i" "v = vpre i" using that by (simp_all add: node_path_label [OF I])
    then have "nodes c' i \<noteq> None \<and> pre' i = pre i \<and> vpre' i = vpre i" using R unfolding refines_def by blast
    then show ?thesis using i(2,3) by (simp add: node_path_label [OF refines_inv [OF R]])
  qed
  then have "keeps cfg c c'" using F(2) R by (simp add: keeps_def refines_def)
  then show ?thesis using that [OF m(1) F(1)] F(3,5,7,8) by simp
qed

lemma node_path_node: "wf_cache cfg holds c \<Longrightarrow> node_path c i u v \<Longrightarrow> nodes c i \<noteq> None"
  unfolding wf_cache_def using node_path_label by blast

lemma wf_node_path: "wf_cache cfg holds c \<Longrightarrow> nodes c i \<noteq> None \<Longrightarrow> \<exists>u v. node_path c i u v"
  unfolding wf_cache_def using node_path_label by blast

lemma held_node: "wf_cache cfg holds c \<Longrightarrow> 0 < holds i \<Longrightarrow> nodes c i \<noteq> None"
  unfolding wf_cache_def by (metis invD(2) less_irrefl locksD(3) shape_None)

lemma inc_lock_ref_keeps:
  assumes "wf_cache cfg holds c" "\<not> disable cfg" "nodes c i \<noteq> None"
  shows "\<exists>delta c'. inc_lock_ref cfg i c = Inr (delta, c') \<and> wf_cache cfg (holds(i := holds i + 1)) c' \<and> keeps cfg c c'"
proof -
  obtain pre vpre where I: "cache_inv cfg holds c pre vpre" using assms(1) by (auto simp: wf_cache_def)
  obtain delta c' where r: "inc_lock_ref cfg i c = Inr (delta, c')" "walked cfg (holds(i := holds i + 1)) c i 1 pre vpre delta c'"
    using inc_lock_ref_spec [OF I assms(2,3)] by blast
  then have "keeps cfg c c'" using walked_contents [OF I r(2)] walked_slots [OF r(2)] by (simp add: keeps_def)
  then show ?thesis using r by (auto simp: wf_cache_def walked_def)
qed

lemma dec_lock_ref_keeps:
  assumes "wf_cache cfg holds c" "\<not> disable cfg" "0 < holds i"
  shows "\<exists>delta c'. dec_lock_ref cfg i c = Inr (delta, c') \<and> wf_cache cfg (holds(i := holds i - 1)) c' \<and> keeps cfg c c'"
proof -
  obtain pre vpre where I: "cache_inv cfg holds c pre vpre" using assms(1) by (auto simp: wf_cache_def)
  obtain delta c' where r: "dec_lock_ref cfg i c = Inr (delta, c')" "walked cfg (holds(i := holds i - 1)) c i (- 1) pre vpre delta c'"
    using dec_lock_ref_spec [OF I assms(2,3)] by blast
  then have "keeps cfg c c'" using walked_contents [OF I r(2)] walked_slots [OF r(2)] by (simp add: keeps_def)
  then show ?thesis using r by (auto simp: wf_cache_def walked_def)
qed

lemma tag_session_leaf_keeps:
  assumes wf: "wf_cache cfg holds c" and "\<not> disable cfg" "is_bigram k \<longrightarrow> is_eagle cfg"
    and node: "\<And>i. node = Some i \<Longrightarrow> nodes c i \<noteq> None"
  shows "\<exists>c'. tag_session_leaf cfg session k node c = Inr c' \<and> wf_cache cfg holds c' \<and> keeps cfg c c'"
proof (cases "enable_session_radix_cache cfg \<and> (\<exists>sid. session = Some sid \<and> sid \<notin> set (closed_session_ids c))")
  case False
  then show ?thesis using wf by (auto simp: tag_session_leaf_def split: option.split)
next
  case True
  then obtain sid where sid: "session = Some sid" "sid \<notin> set (closed_session_ids c)" by blast
  obtain i c1 where c1: "(case node of Some i \<Rightarrow> Inr (i, c)
      | None \<Rightarrow> rbind (match_prefix cfg k c) (\<lambda>((_, i), c1). Inr (i, c1))) = Inr (i, c1)"
    "wf_cache cfg holds c1" "keeps cfg c c1" "nodes c1 i \<noteq> None"
  proof (cases node)
    case None
    obtain idx j c1 where m: "match_prefix cfg k c = Inr ((idx, j), c1)" "wf_cache cfg holds c1" "keeps cfg c c1"
      "node_path c1 j (take (length idx) (lookup_units cfg k)) idx"
      by (rule match_prefix_keeps [OF assms(1-3)])
    show ?thesis by (rule that [OF _ m(2,3) node_path_node [OF m(2,4)]]) (simp add: None m(1))
  qed (use that [of _ c] wf node in simp)
  show ?thesis
  proof (cases "i = root_node c1")
    case True
    then show ?thesis using c1 sid \<open>enable_session_radix_cache cfg \<and> _\<close> by (simp add: tag_session_leaf_def)
  next
    case False
    obtain n where n: "nodes c1 i = Some n" using c1(4) by blast
    define ids where "ids = set_add sid (case session_ids n of None \<Rightarrow> [] | Some s \<Rightarrow> s)"
    define b where "b = upd_node i (\<lambda>n. n\<lparr>session_ids := Some ids\<rparr>) c1"
    define sl where "sl = AList.update sid (set_add i (case map_of (session_leaves c1) sid of None \<Rightarrow> [] | Some l \<Rightarrow> l)) (session_leaves c1)"
    obtain pre vpre where I: "cache_inv cfg holds c1 pre vpre" using c1(2) by (auto simp: wf_cache_def)
    have Ib: "cache_inv cfg holds b pre vpre" unfolding b_def
      by (rule inv_upd_same [OF I]) (simp_all add: skel_def node_hash_ok_iff)
    have sb: "shape b = shape c1" unfolding b_def by (rule shape_upd_same) (simp add: skel_def)
    have s2: "shape (b\<lparr>session_leaves := sl\<rparr>) = shape c1" using sb by (metis radix_cache.select_convs(1)
          radix_cache.surjective radix_cache.update_convs(9) shape_cong)
    have I2: "cache_inv cfg holds (b\<lparr>session_leaves := sl\<rparr>) pre vpre"
      by (rule inv_same [OF I s2]) (use invD(5) [OF Ib] in \<open>auto simp: b_def\<close>)
    have np: "node_path (b\<lparr>session_leaves := sl\<rparr>) x u v \<longleftrightarrow> node_path c1 x u v" for x u v
      unfolding node_path_label [OF I] node_path_label [OF I2] using n by (auto simp: b_def)
    then have "keeps cfg c1 (b\<lparr>session_leaves := sl\<rparr>)" by (simp add: keeps_def cached_def s2 sb)
    then have "keeps cfg c (b\<lparr>session_leaves := sl\<rparr>)" by (rule keeps_trans [OF c1(3)])
    moreover have "tag_session_leaf cfg session k node c = Inr (b\<lparr>session_leaves := sl\<rparr>)"
      using c1(1) sid \<open>enable_session_radix_cache cfg \<and> _\<close> False n
      by (simp add: tag_session_leaf_def Let_def b_def sl_def ids_def)
    ultimately show ?thesis using I2 by (auto simp: wf_cache_def)
  qed
qed

text \<open>Whole pages at every node is a fact about what is cached.\<close>

lemma values_whole_cached:
  assumes "wf_cache cfg holds c"
  shows "values_whole (page_size cfg) c \<longleftrightarrow> (\<forall>u v. cached cfg c u v \<longrightarrow> whole (page_size cfg) v)"
proof
  assume w: "values_whole (page_size cfg) c"
  have "whole (page_size cfg) v" if "node_path c i u v" for i u v
    using that by induction (use w in \<open>auto intro!: whole_append simp: values_whole_def\<close>)
  then show "\<forall>u v. cached cfg c u v \<longrightarrow> whole (page_size cfg) v" unfolding cached_def by (auto intro: whole_take)
next
  assume w: "\<forall>u v. cached cfg c u v \<longrightarrow> whole (page_size cfg) v"
  obtain pre vpre where I: "cache_inv cfg holds c pre vpre" using assms by (auto simp: wf_cache_def)
  note L = invD(1) [OF I]
  have "whole (page_size cfg) v" if n: "nodes c i = Some n" "nvalue n = Some v" for i n v
  proof (cases "i = root_node c")
    case True
    then show ?thesis using lab_root [OF L] n by (auto simp: shape_Some_iff)
  next
    case False
    obtain pn v' where p: "shape c (par (shape c) i) = Some pn" "s_value (skel n) = Some v'"
      "vpre i = vpre (par (shape c) i) @ v'"
      by (rule lab_par [OF L shape_Some [OF n(1)] False]) blast
    have "cached cfg c (pre i) (vpre i)" using cached_node_path [OF assms] node_path_label [OF I] n(1) by blast
    then have "whole (page_size cfg) (vpre i)" using w by blast
    moreover have "page_size cfg dvd length (vpre (par (shape c) i))" using lab_lengths [OF L p(1)] by simp
    ultimately have "whole (page_size cfg) (drop (length (vpre (par (shape c) i))) (vpre i))" by (rule whole_drop)
    then show ?thesis using p(2,3) n(2) by simp
  qed
  then show "values_whole (page_size cfg) c" unfolding values_whole_def by blast
qed

lemma keeps_whole:
  "keeps cfg c c' \<Longrightarrow> wf_cache cfg holds c \<Longrightarrow> wf_cache cfg holds' c' \<Longrightarrow> values_whole (page_size cfg) c \<Longrightarrow>
   values_whole (page_size cfg) c'"
  using values_whole_cached [of cfg holds c] values_whole_cached [of cfg holds' c'] by (simp add: keeps_def)

end
