(* ===== verification/Kv_Pages.thy ===== *)
theory Kv_Pages
  imports Prelude "HOL-Library.Multiset"
begin

text \<open>
  Page arithmetic of the paged KV allocator: the PyTorch routine \<open>alloc_extend_naive\<close> and the two
  Triton kernels \<open>alloc_extend_kernel\<close> and \<open>alloc_decode_kernel\<close> that compute the slot indices of
  a batch, and \<open>get_num_new_pages\<close>. A kernel is the list of stores each program instance makes;
  the instances of a grid run in parallel, so the result is taken over every interleaving of
  their stores. A load outside the free list or through a false mask has no defined value: the
  parameters \<open>oob\<close> and \<open>other\<close> stand for it. Lengths are natural numbers: a prefix is never longer
  than its sequence, so no difference that is used is negative.
\<close>

definition num_pages_of :: "nat \<Rightarrow> nat \<Rightarrow> nat" where
  "num_pages_of ps n = (n + ps - 1) div ps"

text \<open>Running sums: \<open>torch.cumsum(xs, 0) - xs\<close>.\<close>

definition start_of :: "nat list \<Rightarrow> nat \<Rightarrow> nat" where
  "start_of xs i = sum_list (take i xs)"

definition load :: "(nat \<Rightarrow> nat) \<Rightarrow> nat list \<Rightarrow> nat \<Rightarrow> nat" where
  "load oob xs i = (if i < length xs then xs ! i else oob i)"

section \<open>get_num_new_pages\<close>

definition get_num_new_pages :: "nat list \<Rightarrow> nat \<Rightarrow> nat list \<Rightarrow> nat" where
  "get_num_new_pages seq_lens ps prefix_lens =
     sum_list (map (\<lambda>(s, p). num_pages_of ps s - num_pages_of ps p) (zip seq_lens prefix_lens))"

definition get_num_new_pages_decode :: "nat list \<Rightarrow> nat \<Rightarrow> nat" where
  "get_num_new_pages_decode seq_lens ps =
     sum_list (map (\<lambda>s. if s mod ps = 1 then 1 else 0) seq_lens)"

section \<open>alloc_extend_naive\<close>

text \<open>\<open>out[a : a + len(vals)] = vals\<close>.\<close>

definition slice_assign :: "nat \<Rightarrow> int list \<Rightarrow> int list \<Rightarrow> int list res" where
  "slice_assign a vals out =
     (if a + length vals \<le> length out
      then Inr (take a out @ vals @ drop (a + length vals) out) else Inl RuntimeError)"

definition naive_row ::
  "nat list \<Rightarrow> nat list \<Rightarrow> int list \<Rightarrow> nat list \<Rightarrow> nat \<Rightarrow> nat \<Rightarrow> int list \<Rightarrow> int list res" where
  "naive_row prefix_lens seq_lens last_loc free_pages ps i out =
     (let extend_lens = map2 (-) seq_lens prefix_lens;
          start_pos = start_of extend_lens i;
          end_pos = start_pos + extend_lens ! i;
          num_new_pages = map2 (\<lambda>s p. num_pages_of ps s - num_pages_of ps p) seq_lens prefix_lens;
          num_full_new_pages = seq_lens ! i div ps - num_pages_of ps (prefix_lens ! i);
          need_page = num_new_pages ! i - num_full_new_pages;
          start_new_pages = start_of num_new_pages i;
          end_new_pages = start_new_pages + num_new_pages ! i;
          pre = prefix_lens ! i; seq = seq_lens ! i;
          num1 = min seq (num_pages_of ps pre * ps) - pre
      in rbind (if num1 \<noteq> 0
                then slice_assign start_pos (map (\<lambda>j. last_loc ! i + 1 + int j) [0..<num1]) out
                else Inr out) (\<lambda>out1.
         if pre + num1 = seq then Inr out1
         else
           let num2 = (seq div ps - num_pages_of ps pre) * ps in
           rbind (if num2 \<noteq> 0
                  then slice_assign (start_pos + num1)
                         (concat (map (\<lambda>q. map (\<lambda>j. int (q * ps + j)) [0..<ps])
                            (slice start_new_pages (end_new_pages - need_page) free_pages))) out1
                  else Inr out1) (\<lambda>out2.
           if pre + num1 + num2 = seq then Inr out2
           else
             let num3 = seq - seq div ps * ps in
             if num3 \<noteq> 0
             then (if end_new_pages - 1 < length free_pages
                   then slice_assign (end_pos - num3)
                          (map (\<lambda>j. int (free_pages ! (end_new_pages - 1) * ps + j)) [0..<num3]) out2
                   else Inl IndexError)
             else Inr out2)))"

fun naive_rows ::
  "nat list \<Rightarrow> nat list \<Rightarrow> int list \<Rightarrow> nat list \<Rightarrow> nat \<Rightarrow> nat list \<Rightarrow> int list \<Rightarrow> int list res" where
  "naive_rows prefix_lens seq_lens last_loc free_pages ps [] out = Inr out"
| "naive_rows prefix_lens seq_lens last_loc free_pages ps (i # is) out =
     rbind (naive_row prefix_lens seq_lens last_loc free_pages ps i out)
       (naive_rows prefix_lens seq_lens last_loc free_pages ps is)"

definition alloc_extend_naive ::
  "nat list \<Rightarrow> nat list \<Rightarrow> int list \<Rightarrow> nat list \<Rightarrow> int list \<Rightarrow> nat \<Rightarrow> int list res" where
  "alloc_extend_naive prefix_lens seq_lens last_loc free_pages out_indices ps =
     naive_rows prefix_lens seq_lens last_loc free_pages ps [0..<length prefix_lens] out_indices"

section \<open>The kernels\<close>

type_synonym stores = "(nat \<times> int) list"

text \<open>The masked load of the first \<open>pid + 1\<close> entries, the other lanes reading \<open>other\<close>.\<close>

definition masked :: "nat \<Rightarrow> nat \<Rightarrow> nat \<Rightarrow> nat list \<Rightarrow> nat list" where
  "masked other bs_upper pid xs = map (\<lambda>j. if j \<le> pid then xs ! j else other) [0..<bs_upper]"

definition alloc_extend_kernel ::
  "(nat \<Rightarrow> nat) \<Rightarrow> nat \<Rightarrow> nat list \<Rightarrow> nat list \<Rightarrow> int list \<Rightarrow> nat list \<Rightarrow> nat \<Rightarrow> nat \<Rightarrow> nat \<Rightarrow> stores" where
  "alloc_extend_kernel oob other pre_lens_ptr seq_lens_ptr last_loc_ptr free_page_ptr bs_upper ps pid =
     (let seq_lens = masked other bs_upper pid seq_lens_ptr;
          pre_lens = masked other bs_upper pid pre_lens_ptr;
          extend_lens = map2 (-) seq_lens pre_lens;
          seq_len = seq_lens_ptr ! pid; pre_len = pre_lens_ptr ! pid;
          extend_len = seq_len - pre_len;
          output_start_loc = sum_list extend_lens - extend_len;
          num_new_pages = map2 (\<lambda>s p. num_pages_of ps s - num_pages_of ps p) seq_lens pre_lens;
          num_page_start_loc_self = num_pages_of ps seq_len - num_pages_of ps pre_len;
          new_page_start_loc = sum_list num_new_pages - num_page_start_loc_self;
          last_loc = last_loc_ptr ! pid;
          num_part1 = min seq_len (num_pages_of ps pre_len * ps) - pre_len;
          offset_one_page = [0..<ps];
          part1 = map (\<lambda>off. (output_start_loc + off, last_loc + 1 + int off))
                    (filter (\<lambda>off. off < num_part1) offset_one_page)
      in if pre_len + num_part1 = seq_len then part1
         else
           let num_part2 = seq_len div ps * ps - num_pages_of ps pre_len * ps;
               block = 4096;
               num_blocks = (num_part2 + block - 1) div block;
               part2 = concat (map (\<lambda>block_id.
                 map (\<lambda>off. (output_start_loc + num_part1 + off,
                        int (load oob free_page_ptr (new_page_start_loc + off div ps) * ps + off mod ps)))
                   (filter (\<lambda>off. off < num_part2) (map (\<lambda>j. block_id * block + j) [0..<block])))
                 [0..<num_blocks])
           in if pre_len + num_part1 + num_part2 = seq_len then part1 @ part2
              else
                let num_part3 = seq_len - seq_len div ps * ps;
                    start_loc = load oob free_page_ptr (new_page_start_loc + num_page_start_loc_self - 1);
                    part3 = map (\<lambda>off. (output_start_loc + num_part1 + num_part2 + off,
                                        int (start_loc * ps + off)))
                              (filter (\<lambda>off. off < num_part3) offset_one_page)
                in part1 @ part2 @ part3)"

definition alloc_decode_kernel ::
  "(nat \<Rightarrow> nat) \<Rightarrow> nat \<Rightarrow> nat list \<Rightarrow> int list \<Rightarrow> nat list \<Rightarrow> nat \<Rightarrow> nat \<Rightarrow> nat \<Rightarrow> stores" where
  "alloc_decode_kernel oob other seq_lens_ptr last_loc_ptr free_page_ptr bs_upper ps pid =
     (let seq_lens = masked other bs_upper pid seq_lens_ptr;
          pre_lens = map (\<lambda>j. if j \<le> pid then seq_lens ! j - 1 else seq_lens ! j) [0..<bs_upper];
          seq_len = seq_lens_ptr ! pid; pre_len = seq_len - 1;
          num_new_pages = map2 (\<lambda>s p. num_pages_of ps s - num_pages_of ps p) seq_lens pre_lens;
          num_page_start_loc_self = num_pages_of ps seq_len - num_pages_of ps pre_len;
          new_page_start_loc = sum_list num_new_pages - num_page_start_loc_self
      in if num_page_start_loc_self = 0 then [(pid, last_loc_ptr ! pid + 1)]
         else [(pid, int (load oob free_page_ptr new_page_start_loc * ps))])"

fun apply_stores :: "stores \<Rightarrow> int list \<Rightarrow> int list" where
  "apply_stores [] out = out"
| "apply_stores ((i, v) # ws) out = apply_stores ws (out[i := v])"

section \<open>The slots of a batch\<close>

text \<open>The slot of token \<open>j\<close> of the extension of row \<open>i\<close>: the tail of the old last page first, then
  the pages of the row, in the order of the free list.\<close>

definition slot_of :: "(nat \<Rightarrow> nat) \<Rightarrow> nat list \<Rightarrow> nat list \<Rightarrow> int list \<Rightarrow> nat list \<Rightarrow> nat \<Rightarrow> nat \<Rightarrow> nat \<Rightarrow> int" where
  "slot_of oob pre_lens seq_lens last_loc free_pages ps i j =
     (let base = num_pages_of ps (pre_lens ! i) * ps; t = pre_lens ! i + j;
          first = start_of (map2 (\<lambda>s p. num_pages_of ps s - num_pages_of ps p) seq_lens pre_lens) i
      in if t < base then last_loc ! i + 1 + int j
         else int (load oob free_pages (first + (t - base) div ps) * ps + (t - base) mod ps))"

definition row_slots :: "(nat \<Rightarrow> nat) \<Rightarrow> nat list \<Rightarrow> nat list \<Rightarrow> int list \<Rightarrow> nat list \<Rightarrow> nat \<Rightarrow> nat \<Rightarrow> int list" where
  "row_slots oob pre_lens seq_lens last_loc free_pages ps i =
     map (slot_of oob pre_lens seq_lens last_loc free_pages ps i) [0..<seq_lens ! i - pre_lens ! i]"

lemma num_pages_of_bounds:
  assumes "0 < ps"
  shows "n \<le> num_pages_of ps n * ps" "num_pages_of ps n * ps < n + ps"
proof -
  have "n + ps - 1 < num_pages_of ps n * ps + ps"
    unfolding num_pages_of_def using assms dividend_less_div_times [of ps "n + ps - 1"] by simp
  then show "n \<le> num_pages_of ps n * ps" using assms by linarith
  have "num_pages_of ps n * ps \<le> n + ps - 1" unfolding num_pages_of_def by (rule div_times_less_eq_dividend)
  then show "num_pages_of ps n * ps < n + ps" using assms by linarith
qed

lemma num_pages_of_alt:
  assumes "0 < ps"
  shows "num_pages_of ps n = n div ps + (if n mod ps = 0 then 0 else 1)"
proof -
  have "n + ps - 1 = n div ps * ps + (n mod ps + ps - 1)" using div_mult_mod_eq [of n ps] assms by linarith
  then have "num_pages_of ps n = (n div ps * ps + (n mod ps + ps - 1)) div ps" unfolding num_pages_of_def by (rule arg_cong)
  also have "\<dots> = n div ps + (n mod ps + ps - 1) div ps" using assms by (intro div_mult_self3) simp
  also have "(n mod ps + ps - 1) div ps = (if n mod ps = 0 then 0 else 1)"
  proof (cases "n mod ps = 0")
    case False
    moreover have "n mod ps < ps" using assms by simp
    ultimately have "ps \<le> n mod ps + ps - 1" "n mod ps + ps - 1 < ps + ps" by linarith+
    then show ?thesis using False by (intro div_nat_eqI [THEN trans]) simp_all
  qed (use assms in simp)
  finally show ?thesis .
qed

lemma num_pages_of_mono: "a \<le> b \<Longrightarrow> num_pages_of ps a \<le> num_pages_of ps b"
  unfolding num_pages_of_def by (intro div_le_mono) simp

lemma sum_masked:
  assumes "pid < length xs" "length ys = length xs" "pid < bs" "f other other = (0::nat)"
  shows "sum_list (map2 f (masked other bs pid xs) (masked other bs pid ys)) =
    start_of (map2 f xs ys) pid + f (xs ! pid) (ys ! pid)"
proof -
  let ?g = "\<lambda>j. if j \<le> pid then f (xs ! j) (ys ! j) else 0"
  have "map2 f (masked other bs pid xs) (masked other bs pid ys) = map ?g [0..<bs]"
    using assms(4) by (auto simp: masked_def zip_map_map intro!: nth_equalityI)
  also have "[0..<bs] = [0..<Suc pid] @ [Suc pid..<bs]"
    using assms(3) by (metis Suc_leI le0 le_add_diff_inverse upt_add_eq_append)
  finally have "sum_list (map2 f (masked other bs pid xs) (masked other bs pid ys)) =
      sum_list (map ?g [0..<pid]) + f (xs ! pid) (ys ! pid)"
    by (simp add: sum_list_0)
  moreover have "map ?g [0..<pid] = take pid (map2 f xs ys)"
    using assms(1,2) by (auto intro!: nth_equalityI)
  ultimately show ?thesis by (simp add: start_of_def)
qed

lemma filter_less_upt: "m \<le> n \<Longrightarrow> filter (\<lambda>j. j < m) [0..<n] = [0..<m]"
proof -
  assume "m \<le> n"
  then have "[0..<n] = [0..<m] @ [m..<n]" by (metis le0 le_add_diff_inverse upt_add_eq_append)
  then show ?thesis by (simp add: filter_empty_conv)
qed

lemma blocks_upt:
  assumes "0 < b"
  shows "concat (map (\<lambda>k. map f (filter (\<lambda>off. off < n) (map (\<lambda>j. k * b + j) [0..<b]))) [0..<(n + b - 1) div b]) =
    map f [0..<n]"
proof -
  have blk: "concat (map (\<lambda>k. map (\<lambda>j. k * b + j) [0..<b]) [0..<m]) = [0..<m * b]" for m
  proof (induction m)
    case (Suc m)
    have "map (\<lambda>j. m * b + j) [0..<b] = [m * b..<m * b + b]" by (simp add: map_add_upt add.commute)
    then show ?case using Suc upt_add_eq_append [of 0 "m * b" b] by (simp add: add.commute)
  qed simp
  have "n \<le> (n + b - 1) div b * b" using num_pages_of_bounds(1) [OF assms] by (simp add: num_pages_of_def)
  then have "[0..<n] = filter (\<lambda>off. off < n) (concat (map (\<lambda>k. map (\<lambda>j. k * b + j) [0..<b]) [0..<(n + b - 1) div b]))"
    unfolding blk by (simp add: filter_less_upt)
  also have "\<dots> = concat (map (\<lambda>k. filter (\<lambda>off. off < n) (map (\<lambda>j. k * b + j) [0..<b])) [0..<(n + b - 1) div b])"
    by (simp add: filter_concat comp_def)
  finally show ?thesis by (simp add: map_concat comp_def)
qed

lemma upt_split3:
  "map f [0..<a + b + c] = map f [0..<a] @ map (\<lambda>j. f (a + j)) [0..<b] @ map (\<lambda>j. f (a + b + j)) [0..<c]"
  by (rule nth_equalityI) (auto simp: nth_append)

text \<open>The three parts of an extension, with the number of tokens in each.\<close>

lemma parts:
  assumes "0 < ps" "pre \<le> seq"
  defines "n1 \<equiv> min seq (num_pages_of ps pre * ps) - pre"
  shows "n1 < ps"
    "pre + n1 = seq \<or> pre + n1 = num_pages_of ps pre * ps \<and> num_pages_of ps pre * ps < seq"
    "num_pages_of ps pre * ps < seq \<Longrightarrow>
       num_pages_of ps pre \<le> seq div ps \<and> seq = num_pages_of ps pre * ps +
         (seq div ps * ps - num_pages_of ps pre * ps) + (seq - seq div ps * ps) \<and>
       seq - seq div ps * ps = seq mod ps \<and>
       num_pages_of ps seq = seq div ps + (if seq mod ps = 0 then 0 else 1)"
proof -
  note b = num_pages_of_bounds [OF assms(1), of pre]
  show "n1 < ps" using b assms(1) by (simp add: n1_def)
  show "pre + n1 = seq \<or> pre + n1 = num_pages_of ps pre * ps \<and> num_pages_of ps pre * ps < seq"
    using b(1) assms(2) by (auto simp: n1_def)
  assume lt: "num_pages_of ps pre * ps < seq"
  then have le: "num_pages_of ps pre \<le> seq div ps"
    using assms(1) by (metis div_le_mono less_or_eq_imp_le nonzero_mult_div_cancel_right not_gr_zero)
  have "num_pages_of ps seq = seq div ps + (if seq mod ps = 0 then 0 else 1)"
    by (rule num_pages_of_alt [OF assms(1)])
  moreover have "seq = seq div ps * ps + seq mod ps" by simp
  moreover have "num_pages_of ps pre * ps \<le> seq div ps * ps" using le by (rule mult_le_mono1)
  ultimately show "num_pages_of ps pre \<le> seq div ps \<and> seq = num_pages_of ps pre * ps +
         (seq div ps * ps - num_pages_of ps pre * ps) + (seq - seq div ps * ps) \<and>
       seq - seq div ps * ps = seq mod ps \<and>
       num_pages_of ps seq = seq div ps + (if seq mod ps = 0 then 0 else 1)"
    using le by linarith
qed

lemma kernel_row:
  assumes ps: "0 < ps" and i: "i < length pre_lens" "length seq_lens = length pre_lens" "i < bs"
    and le: "pre_lens ! i \<le> seq_lens ! i"
  shows "alloc_extend_kernel oob other pre_lens seq_lens last_loc free_pages bs ps i =
    map (\<lambda>j. (start_of (map2 (-) seq_lens pre_lens) i + j,
             slot_of oob pre_lens seq_lens last_loc free_pages ps i j)) [0..<seq_lens ! i - pre_lens ! i]"
proof -
  define pre seq where "pre = pre_lens ! i" and "seq = seq_lens ! i"
  define st where "st = start_of (map2 (-) seq_lens pre_lens) i"
  define fp where "fp = start_of (map2 (\<lambda>s p. num_pages_of ps s - num_pages_of ps p) seq_lens pre_lens) i"
  define B where "B = num_pages_of ps pre * ps"
  define n1 where "n1 = min seq B - pre"
  note P = parts [OF ps le [folded pre_def seq_def], folded B_def n1_def]
  have sums: "sum_list (map2 (-) (masked other bs i seq_lens) (masked other bs i pre_lens)) - (seq - pre) = st"
    "sum_list (map2 (\<lambda>s p. num_pages_of ps s - num_pages_of ps p) (masked other bs i seq_lens)
       (masked other bs i pre_lens)) - (num_pages_of ps seq - num_pages_of ps pre) = fp"
  proof -
    have "sum_list (map2 (-) (masked other bs i seq_lens) (masked other bs i pre_lens)) = st + (seq - pre)"
      unfolding st_def pre_def seq_def by (rule sum_masked) (use i in simp_all)
    moreover have "sum_list (map2 (\<lambda>s p. num_pages_of ps s - num_pages_of ps p) (masked other bs i seq_lens)
       (masked other bs i pre_lens)) = fp + (num_pages_of ps seq - num_pages_of ps pre)"
      unfolding fp_def pre_def seq_def by (rule sum_masked) (use i in simp_all)
    ultimately show "sum_list (map2 (-) (masked other bs i seq_lens) (masked other bs i pre_lens)) - (seq - pre) = st"
      "sum_list (map2 (\<lambda>s p. num_pages_of ps s - num_pages_of ps p) (masked other bs i seq_lens)
       (masked other bs i pre_lens)) - (num_pages_of ps seq - num_pages_of ps pre) = fp"
      by simp_all
  qed
  define V where "V = slot_of oob pre_lens seq_lens last_loc free_pages ps i"
  have V1: "V j = last_loc ! i + 1 + int j" if "pre + j < B" for j
    using that by (simp add: V_def slot_of_def Let_def pre_def B_def)
  have V2: "V j = int (load oob free_pages (fp + (pre + j - B) div ps) * ps + (pre + j - B) mod ps)" if "B \<le> pre + j" for j
    using that by (simp add: V_def slot_of_def Let_def pre_def B_def fp_def)
  have part1: "map (\<lambda>off. (st + off, last_loc ! i + 1 + int off)) (filter (\<lambda>off. off < n1) [0..<ps]) =
      map (\<lambda>j. (st + j, V j)) [0..<n1]"
  proof -
    have "V j = last_loc ! i + 1 + int j" if "j < n1" for j by (rule V1) (use that in \<open>simp add: n1_def\<close>)
    then show ?thesis unfolding filter_less_upt [OF less_imp_le [OF P(1)]] by simp
  qed
  show ?thesis
  proof (cases "pre + n1 = seq")
    case True
    have "seq - pre = n1" using True by simp
    then show ?thesis using part1 True
      unfolding alloc_extend_kernel_def Let_def seq_def [symmetric] pre_def [symmetric] sums B_def [symmetric]
        n1_def [symmetric] st_def [symmetric] V_def [symmetric] by simp
  next
    case False
    then have lt: "B < seq" and pn: "pre + n1 = B" using P(2) by auto
    define n2 where "n2 = seq div ps * ps - B"
    define n3 where "n3 = seq mod ps"
    note Q = P(3) [OF lt, folded B_def n2_def]
    have n3: "seq - seq div ps * ps = n3" "seq = B + n2 + n3" "n3 < ps"
      "num_pages_of ps seq - num_pages_of ps pre = n2 div ps + (if n3 = 0 then 0 else 1)" "ps dvd n2"
    proof -
      have q: "seq = B + n2 + (seq - seq div ps * ps)" "seq - seq div ps * ps = seq mod ps" using Q by blast+
      show "seq - seq div ps * ps = n3" using q(2) by (simp add: n3_def)
      then show "seq = B + n2 + n3" using q(1) by metis
      show "n3 < ps" using ps by (simp add: n3_def)
      have n2: "n2 = (seq div ps - num_pages_of ps pre) * ps" by (simp add: n2_def B_def diff_mult_distrib)
      then show "ps dvd n2" by simp
      show "num_pages_of ps seq - num_pages_of ps pre = n2 div ps + (if n3 = 0 then 0 else 1)"
        using Q n2 ps by (simp add: n3_def)
    qed
    have part2: "concat (map (\<lambda>block_id. map (\<lambda>off. (st + n1 + off,
            int (load oob free_pages (fp + off div ps) * ps + off mod ps)))
          (filter (\<lambda>off. off < n2) (map (\<lambda>j. block_id * 4096 + j) [0..<4096]))) [0..<(n2 + 4096 - 1) div 4096]) =
        map (\<lambda>j. (st + (n1 + j), V (n1 + j))) [0..<n2]"
    proof (rule trans [OF blocks_upt])
      have "pre + (n1 + j) - B = j" "B \<le> pre + (n1 + j)" for j using pn by simp_all
      then have "V (n1 + j) = int (load oob free_pages (fp + j div ps) * ps + j mod ps)" for j
        using V2 [of "n1 + j"] by simp
      then show "map (\<lambda>off. (st + n1 + off, int (load oob free_pages (fp + off div ps) * ps + off mod ps))) [0..<n2] =
          map (\<lambda>j. (st + (n1 + j), V (n1 + j))) [0..<n2]"
        by simp
    qed simp
    have part3: "map (\<lambda>off. (st + n1 + n2 + off,
          int (load oob free_pages (fp + (num_pages_of ps seq - num_pages_of ps pre) - 1) * ps + off)))
          (filter (\<lambda>off. off < n3) [0..<ps]) = map (\<lambda>j. (st + (n1 + n2 + j), V (n1 + n2 + j))) [0..<n3]" if "n3 \<noteq> 0"
    proof -
      have "V (n1 + n2 + j) = int (load oob free_pages (fp + n2 div ps) * ps + j)" if "j < n3" for j
      proof -
        have e: "pre + (n1 + n2 + j) - B = n2 + j" using pn by simp
        have "(n2 + j) div ps = n2 div ps" "(n2 + j) mod ps = j"
          using n3(3,5) that by (auto elim!: dvdE)
        then show ?thesis using V2 [of "n1 + n2 + j"] pn unfolding e by simp
      qed
      then show ?thesis using that n3(3,4) by (simp add: filter_less_upt add.assoc)
    qed
    have len: "seq - pre = n1 + n2 + n3" using n3(2) pn by linarith
    note sp = upt_split3 [of "\<lambda>j. (st + j, V j)" n1 n2 n3]
    show ?thesis
    proof (cases "pre + n1 + n2 = seq")
      case True
      then have "n3 = 0" using n3(2) pn by simp
      then show ?thesis using False True part1 part2 len sp
        unfolding alloc_extend_kernel_def Let_def seq_def [symmetric] pre_def [symmetric] sums B_def [symmetric]
          n1_def [symmetric] st_def [symmetric] V_def [symmetric] n2_def [symmetric] by simp
    next
      case F: False
      then have "n3 \<noteq> 0" using n3(2) pn by simp
      then show ?thesis using False F part1 part2 part3 len n3(1) sp
        unfolding alloc_extend_kernel_def Let_def seq_def [symmetric] pre_def [symmetric] sums B_def [symmetric]
          n1_def [symmetric] st_def [symmetric] V_def [symmetric] n2_def [symmetric] by simp
    qed
  qed
qed

section \<open>The whole grid\<close>

lemma apply_stores_length [simp]: "length (apply_stores ws out) = length out"
  by (induction ws out rule: apply_stores.induct) auto

lemma apply_stores_nth:
  "distinct (map fst ws) \<Longrightarrow> p < length out \<Longrightarrow>
   apply_stores ws out ! p = (case map_of ws p of None \<Rightarrow> out ! p | Some v \<Rightarrow> v)"
proof (induction ws out rule: apply_stores.induct)
  case (2 i v ws out)
  then have "map_of ws i = None" by (simp add: map_of_eq_None_iff)
  then show ?case using 2 by (auto split: option.splits)
qed simp

text \<open>When the stores of a grid hit every position of the output once, every interleaving gives
  the same output.\<close>

lemma apply_stores_zip:
  assumes "mset ws = mset (zip [0..<length vals] vals)" and "length out = length vals"
  shows "apply_stores ws out = vals"
proof (rule nth_equalityI)
  have "mset (map fst ws) = mset [0..<length vals]"
    using assms(1) by (metis length_upt map_fst_zip mset_map diff_zero)
  then have d: "distinct (map fst ws)" using mset_eq_imp_distinct_iff distinct_upt by blast
  have s: "set ws = set (zip [0..<length vals] vals)" using assms(1) by (metis set_mset_mset)
  fix p assume "p < length (apply_stores ws out)"
  then have p: "p < length vals" using assms(2) by simp
  then have "(p, vals ! p) \<in> set ws" unfolding s by (auto simp: set_zip intro!: exI [of _ p])
  then have "map_of ws p = Some (vals ! p)" using d by (simp add: map_of_eq_Some_iff)
  then show "apply_stores ws out ! p = vals ! p" using apply_stores_nth [OF d] p assms(2) by simp
qed (use assms(2) in simp)

lemma start_of_Suc: "i < length xs \<Longrightarrow> start_of xs (Suc i) = start_of xs i + xs ! i"
  by (simp add: start_of_def take_Suc_conv_app_nth)

lemma start_of_le: "i \<le> j \<Longrightarrow> start_of xs i \<le> start_of xs j"
proof -
  assume "i \<le> j"
  then have "take j xs = take i xs @ take (j - i) (drop i xs)" by (metis le_add_diff_inverse take_add)
  then show ?thesis by (simp add: start_of_def)
qed

lemma length_rows:
  "n \<le> length xs \<Longrightarrow> length (concat (map (\<lambda>i. map (f i) [0..<xs ! i]) [0..<n])) = start_of xs n"
proof (induction n)
  case 0
  then show ?case by (simp add: start_of_def)
next
  case (Suc n)
  then show ?case using start_of_Suc [of n xs] by simp
qed

lemma rows_zip:
  "n \<le> length xs \<Longrightarrow>
   concat (map (\<lambda>i. map (\<lambda>j. (start_of xs i + j, f i j)) [0..<xs ! i]) [0..<n]) =
   zip [0..<start_of xs n] (concat (map (\<lambda>i. map (f i) [0..<xs ! i]) [0..<n]))"
proof (induction n)
  case 0
  then show ?case by (simp add: start_of_def)
next
  case (Suc n)
  let ?R = "concat (map (\<lambda>i. map (f i) [0..<xs ! i]) [0..<n])"
  have n: "n < length xs" using Suc.prems by simp
  have "map (\<lambda>j. (start_of xs n + j, f n j)) [0..<xs ! n] =
      zip [start_of xs n..<start_of xs n + xs ! n] (map (f n) [0..<xs ! n])"
    by (rule nth_equalityI) simp_all
  moreover have "length ?R = start_of xs n" using length_rows [of n xs f] n by simp
  then have "zip [0..<start_of xs n] ?R @ zip [start_of xs n..<start_of xs n + xs ! n] (map (f n) [0..<xs ! n]) =
      zip ([0..<start_of xs n] @ [start_of xs n..<start_of xs n + xs ! n]) (?R @ map (f n) [0..<xs ! n])"
    by simp
  ultimately show ?case using Suc start_of_Suc [OF n] upt_add_eq_append [of 0 "start_of xs n" "xs ! n"] by simp
qed

definition batch_slots :: "(nat \<Rightarrow> nat) \<Rightarrow> nat list \<Rightarrow> nat list \<Rightarrow> int list \<Rightarrow> nat list \<Rightarrow> nat \<Rightarrow> int list" where
  "batch_slots oob pre_lens seq_lens last_loc free_pages ps =
     concat (map (row_slots oob pre_lens seq_lens last_loc free_pages ps) [0..<length pre_lens])"

lemma row_slots_len:
  assumes "length seq_lens = length pre_lens"
  shows "batch_slots oob pre_lens seq_lens last_loc free_pages ps =
    concat (map (\<lambda>i. map (slot_of oob pre_lens seq_lens last_loc free_pages ps i)
      [0..<map2 (-) seq_lens pre_lens ! i]) [0..<length pre_lens])"
  unfolding batch_slots_def row_slots_def using assms by (intro arg_cong [where f = concat] map_cong) auto

lemma length_batch_slots:
  assumes "length seq_lens = length pre_lens"
  shows "length (batch_slots oob pre_lens seq_lens last_loc free_pages ps) = sum_list (map2 (-) seq_lens pre_lens)"
  unfolding row_slots_len [OF assms] using length_rows [of "length pre_lens" "map2 (-) seq_lens pre_lens"] assms
  by (simp add: start_of_def)

lemma grid_slots:
  assumes ps: "0 < ps" and l: "length seq_lens = length pre_lens" "length pre_lens \<le> bs"
    and le: "\<And>i. i < length pre_lens \<Longrightarrow> pre_lens ! i \<le> seq_lens ! i"
    and ws: "mset ws = mset (concat (map (alloc_extend_kernel oob other pre_lens seq_lens last_loc free_pages bs ps)
               [0..<length pre_lens]))"
    and out: "length out = sum_list (map2 (-) seq_lens pre_lens)"
  shows "apply_stores ws out = batch_slots oob pre_lens seq_lens last_loc free_pages ps"
proof -
  let ?xs = "map2 (-) seq_lens pre_lens" and ?f = "slot_of oob pre_lens seq_lens last_loc free_pages ps"
  have "concat (map (alloc_extend_kernel oob other pre_lens seq_lens last_loc free_pages bs ps) [0..<length pre_lens]) =
      concat (map (\<lambda>i. map (\<lambda>j. (start_of ?xs i + j, ?f i j)) [0..<?xs ! i]) [0..<length pre_lens])"
    using kernel_row [OF ps _ l(1)] l le by (intro arg_cong [where f = concat] map_cong) auto
  also have "\<dots> = zip [0..<start_of ?xs (length pre_lens)] (batch_slots oob pre_lens seq_lens last_loc free_pages ps)"
    unfolding row_slots_len [OF l(1)] by (rule rows_zip) (simp add: l(1))
  also have "start_of ?xs (length pre_lens) = length (batch_slots oob pre_lens seq_lens last_loc free_pages ps)"
    using length_batch_slots [OF l(1)] l(1) by (simp add: start_of_def)
  finally show ?thesis using ws out apply_stores_zip length_batch_slots [OF l(1)] by metis
qed

section \<open>The reference routine\<close>

definition put :: "nat \<Rightarrow> 'a list \<Rightarrow> 'a list \<Rightarrow> 'a list" where
  "put a vals out = take a out @ vals @ drop (a + length vals) out"

lemma put_simps [simp]:
  "a + length vals \<le> length out \<Longrightarrow> length (put a vals out) = length out"
  "put a [] out = out"
  by (auto simp: put_def)

lemma put_put: "a + length v + length w \<le> length out \<Longrightarrow> put (a + length v) w (put a v out) = put a (v @ w) out"
  by (simp add: put_def ac_simps)

lemma slice_assign_put: "a + length vals \<le> length out \<Longrightarrow> slice_assign a vals out = Inr (put a vals out)"
  by (simp add: slice_assign_def put_def)

lemma pages_concat:
  assumes "0 < ps"
  shows "concat (map (\<lambda>q. map (\<lambda>j. int (q * ps + j)) [0..<ps]) Q) =
    map (\<lambda>j. int (Q ! (j div ps) * ps + j mod ps)) [0..<length Q * ps]"
proof (induction Q rule: rev_induct)
  case (snoc q Q)
  let ?F = "\<lambda>j. int ((Q @ [q]) ! (j div ps) * ps + j mod ps)"
  have "map ?F [0..<length (Q @ [q]) * ps] = map ?F [0..<length Q * ps] @ map ?F [length Q * ps..<length Q * ps + ps]"
    using upt_add_eq_append [of 0 "length Q * ps" ps] unfolding map_append [symmetric] by (simp add: add.commute)
  moreover have "map (\<lambda>j. int ((Q @ [q]) ! (j div ps) * ps + j mod ps)) [length Q * ps..<length Q * ps + ps] =
      map (\<lambda>j. int (q * ps + j)) [0..<ps]"
    using assms by (intro nth_equalityI) (auto simp: nth_append)
  moreover have "map (\<lambda>j. int ((Q @ [q]) ! (j div ps) * ps + j mod ps)) [0..<length Q * ps] =
      map (\<lambda>j. int (Q ! (j div ps) * ps + j mod ps)) [0..<length Q * ps]"
    using assms by (intro map_cong) (auto simp: nth_append div_less_iff_less_mult)
  ultimately show ?case using snoc.IH by (simp only: map_append concat_append list.map concat.simps append_Nil2)
qed simp

lemma naive_row_spec:
  assumes ps: "0 < ps" and i: "i < length pre_lens" "length seq_lens = length pre_lens"
    and le: "pre_lens ! i \<le> seq_lens ! i"
    and out: "start_of (map2 (-) seq_lens pre_lens) i + (seq_lens ! i - pre_lens ! i) \<le> length out"
    and enough: "start_of (map2 (\<lambda>s p. num_pages_of ps s - num_pages_of ps p) seq_lens pre_lens) i +
      (num_pages_of ps (seq_lens ! i) - num_pages_of ps (pre_lens ! i)) \<le> length free_pages"
  shows "naive_row pre_lens seq_lens last_loc free_pages ps i out =
    Inr (put (start_of (map2 (-) seq_lens pre_lens) i)
      (row_slots oob pre_lens seq_lens last_loc free_pages ps i) out)"
proof -
  define pre seq where "pre = pre_lens ! i" and "seq = seq_lens ! i"
  define st where "st = start_of (map2 (-) seq_lens pre_lens) i"
  define fp where "fp = start_of (map2 (\<lambda>s p. num_pages_of ps s - num_pages_of ps p) seq_lens pre_lens) i"
  define B where "B = num_pages_of ps pre * ps"
  define n1 where "n1 = min seq B - pre"
  note P = parts [OF ps le [folded pre_def seq_def], folded B_def n1_def]
  define V where "V = slot_of oob pre_lens seq_lens last_loc free_pages ps i"
  have row: "row_slots oob pre_lens seq_lens last_loc free_pages ps i = map V [0..<seq - pre]"
    by (simp add: row_slots_def V_def seq_def pre_def)
  have at: "map2 (-) seq_lens pre_lens ! i = seq - pre"
    "map2 (\<lambda>s p. num_pages_of ps s - num_pages_of ps p) seq_lens pre_lens ! i =
       num_pages_of ps seq - num_pages_of ps pre"
    using i by (simp_all add: seq_def pre_def)
  have V1: "V j = last_loc ! i + 1 + int j" if "pre + j < B" for j
    using that by (simp add: V_def slot_of_def Let_def pre_def B_def)
  have V2: "V j = int (load oob free_pages (fp + (pre + j - B) div ps) * ps + (pre + j - B) mod ps)" if "B \<le> pre + j" for j
    using that by (simp add: V_def slot_of_def Let_def pre_def B_def fp_def)
  have room: "st + (seq - pre) \<le> length out" using out by (simp add: st_def seq_def pre_def)
  have n1le: "n1 \<le> seq - pre" by (simp add: n1_def)
  have one: "(if n1 \<noteq> 0 then slice_assign st (map (\<lambda>j. last_loc ! i + 1 + int j) [0..<n1]) out else Inr out) =
      Inr (put st (map V [0..<n1]) out)"
  proof -
    have eq: "map (\<lambda>j. last_loc ! i + 1 + int j) [0..<n1] = map V [0..<n1]"
      by (intro map_cong refl V1 [symmetric]) (auto simp: n1_def)
    show ?thesis unfolding eq using room n1le by (simp add: slice_assign_put)
  qed
  show ?thesis
  proof (cases "pre + n1 = seq")
    case True
    then have "seq - pre = n1" by simp
    then show ?thesis using one True unfolding row naive_row_def Let_def seq_def [symmetric] pre_def [symmetric] at
        B_def [symmetric] n1_def [symmetric] st_def [symmetric] fp_def [symmetric] by simp
  next
    case False
    then have lt: "B < seq" and pn: "pre + n1 = B" using P(2) by auto
    define full where "full = seq div ps - num_pages_of ps pre"
    define n3 where "n3 = seq mod ps"
    note Q = P(3) [OF lt, folded B_def]
    have q: "seq - seq div ps * ps = n3" "num_pages_of ps seq - num_pages_of ps pre = full + (if n3 = 0 then 0 else 1)"
      "seq = B + full * ps + n3" "n3 < ps"
    proof -
      show "seq - seq div ps * ps = n3" "n3 < ps" using Q ps by (simp_all add: n3_def)
      show "num_pages_of ps seq - num_pages_of ps pre = full + (if n3 = 0 then 0 else 1)"
        using Q by (simp add: n3_def full_def)
      have "seq div ps * ps - B = full * ps" by (simp add: full_def B_def diff_mult_distrib)
      then show "seq = B + full * ps + n3" using Q unfolding n3_def by metis
    qed
    have len: "seq - pre = n1 + full * ps + n3" using q(3) pn by linarith
    have V3: "V (n1 + j) = int (load oob free_pages (fp + j div ps) * ps + j mod ps)" for j
    proof -
      have "pre + (n1 + j) - B = j" "B \<le> pre + (n1 + j)" using pn by simp_all
      then show ?thesis using V2 [of "n1 + j"] by simp
    qed
    have en: "fp + full + (if n3 = 0 then 0 else 1) \<le> length free_pages"
      using enough q(2) by (simp add: fp_def seq_def pre_def)
    define Qp where "Qp = slice fp (fp + full) free_pages"
    have Qp: "length Qp = full" "j < full \<Longrightarrow> Qp ! j = free_pages ! (fp + j)" for j
      using en by (simp_all add: Qp_def slice_def)
    have "map (\<lambda>j. int (Qp ! (j div ps) * ps + j mod ps)) [0..<full * ps] = map (\<lambda>j. V (n1 + j)) [0..<full * ps]"
    proof (rule map_cong [OF refl])
      fix j assume "j \<in> set [0..<full * ps]"
      then have "j div ps < full" by (simp add: less_mult_imp_div_less)
      then show "int (Qp ! (j div ps) * ps + j mod ps) = V (n1 + j)" unfolding V3 using Qp(2) en by (simp add: load_def)
    qed
    then have pages: "concat (map (\<lambda>q. map (\<lambda>j. int (q * ps + j)) [0..<ps]) Qp) = map (\<lambda>j. V (n1 + j)) [0..<full * ps]"
      unfolding pages_concat [OF ps] Qp(1) .
    let ?w = "map (\<lambda>j. V (n1 + j)) [0..<full * ps]"
    have room2: "st + length (map V [0..<n1]) + length ?w \<le> length out" using room len by simp
    have two: "(if full * ps \<noteq> 0 then slice_assign (st + n1) ?w (put st (map V [0..<n1]) out)
        else Inr (put st (map V [0..<n1]) out)) = Inr (put st (map V [0..<n1] @ ?w) out)"
      using put_put [OF room2] room2 by (auto simp: slice_assign_put)
    have need: "fp + (full + (if n3 = 0 then 0 else 1)) - (full + (if n3 = 0 then 0 else 1) - full) = fp + full" by simp
    note unf = naive_row_def Let_def seq_def [symmetric] pre_def [symmetric] at B_def [symmetric]
      n1_def [symmetric] st_def [symmetric] fp_def [symmetric] q(2) full_def [symmetric]
    show ?thesis
    proof (cases "n3 = 0")
      case True
      then have "pre + n1 + full * ps = seq" using q(3) pn by simp
      moreover have "map V [0..<n1] @ ?w = map V [0..<n1 + full * ps]"
        using upt_split3 [of V n1 "full * ps" 0] by simp
      moreover have "seq - pre = n1 + full * ps" using len True by simp
      ultimately show ?thesis
        unfolding row unf need Qp_def [symmetric] pages one rbind_simps if_not_P [OF False] two by simp
    next
      case F: False
      let ?z = "map (\<lambda>j. V (n1 + full * ps + j)) [0..<n3]"
      have "V (n1 + full * ps + j) = int (free_pages ! (fp + full) * ps + j)" if "j < n3" for j
      proof -
        have "(full * ps + j) div ps = full" "(full * ps + j) mod ps = j" using that q(4) by simp_all
        then show ?thesis using V3 [of "full * ps + j"] en F by (simp add: load_def add.assoc)
      qed
      then have last: "map (\<lambda>j. int (free_pages ! (fp + full) * ps + j)) [0..<n3] = ?z" by simp
      have room3: "st + length (map V [0..<n1] @ ?w) + length ?z \<le> length out" using room len by simp
      have pos: "st + (n1 + full * ps + n3) - n3 = st + length (map V [0..<n1] @ ?w)" by simp
      have three: "slice_assign (st + (n1 + full * ps + n3) - n3) ?z (put st (map V [0..<n1] @ ?w) out) =
          Inr (put st (map V [0..<n1 + full * ps + n3]) out)"
        unfolding pos using put_put [OF room3] room3 upt_split3 [of V n1 "full * ps" n3]
        by (subst slice_assign_put) simp_all
      have ne: "pre + n1 + full * ps \<noteq> seq" using q(3) pn F by simp
      have ix: "fp + (full + (if n3 = 0 then 0 else 1)) - 1 = fp + full" using F by simp
      have lt2: "fp + full < length free_pages" using en F by simp
      show ?thesis
        unfolding row unf need Qp_def [symmetric] pages one rbind_simps if_not_P [OF False] two if_not_P [OF ne] q(1)
          if_P [OF F] ix if_P [OF lt2] last len three ..
    qed
  qed
qed

lemma start_of_total: "i < length xs \<Longrightarrow> start_of xs i + xs ! i \<le> sum_list xs"
  using start_of_le [of "Suc i" "length xs" xs] start_of_Suc [of i xs] by (simp add: start_of_def)

lemma naive_rows_spec:
  assumes ps: "0 < ps" and l: "length seq_lens = length pre_lens"
    and le: "\<And>i. i < length pre_lens \<Longrightarrow> pre_lens ! i \<le> seq_lens ! i"
    and out: "length out = sum_list (map2 (-) seq_lens pre_lens)"
    and enough: "get_num_new_pages seq_lens ps pre_lens \<le> length free_pages"
  shows "n \<le> length pre_lens \<Longrightarrow> naive_rows pre_lens seq_lens last_loc free_pages ps [0..<n] out =
    Inr (put 0 (concat (map (row_slots oob pre_lens seq_lens last_loc free_pages ps) [0..<n])) out)"
proof (induction n)
  case (Suc n)
  let ?xs = "map2 (-) seq_lens pre_lens" and ?R = "concat (map (row_slots oob pre_lens seq_lens last_loc free_pages ps) [0..<n])"
  let ?N = "map2 (\<lambda>s p. num_pages_of ps s - num_pages_of ps p) seq_lens pre_lens"
  have n: "n < length pre_lens" "n < length ?xs" "n < length ?N" using Suc.prems l by simp_all
  have xn: "?xs ! n = seq_lens ! n - pre_lens ! n"
    "?N ! n = num_pages_of ps (seq_lens ! n) - num_pages_of ps (pre_lens ! n)" using n l by simp_all
  have R: "length ?R = start_of ?xs n"
  proof -
    have "?R = concat (map (\<lambda>i. map (slot_of oob pre_lens seq_lens last_loc free_pages ps i) [0..<?xs ! i]) [0..<n])"
      unfolding row_slots_def using n l by (intro arg_cong [where f = concat] map_cong) auto
    then show ?thesis using length_rows [of n ?xs] n by simp
  qed
  have room: "start_of ?xs n + ?xs ! n \<le> length out" using start_of_total [OF n(2)] out by simp
  have "get_num_new_pages seq_lens ps pre_lens = sum_list ?N" by (simp add: get_num_new_pages_def)
  then have en: "start_of ?N n + ?N ! n \<le> length free_pages" using start_of_total [OF n(3)] enough by simp
  have "naive_rows pre_lens seq_lens last_loc free_pages ps ([0..<n] @ [n]) out =
      rbind (naive_rows pre_lens seq_lens last_loc free_pages ps [0..<n] out)
        (naive_row pre_lens seq_lens last_loc free_pages ps n)"
  proof -
    have "naive_rows pre_lens seq_lens last_loc free_pages ps (is @ [n]) out =
      rbind (naive_rows pre_lens seq_lens last_loc free_pages ps is out)
        (naive_row pre_lens seq_lens last_loc free_pages ps n)" for "is" out
      by (induction "is" arbitrary: out) (auto simp: rbind_def split: sum.split)
    then show ?thesis .
  qed
  also have "\<dots> = naive_row pre_lens seq_lens last_loc free_pages ps n (put 0 ?R out)" using Suc by simp
  also have "\<dots> = Inr (put (start_of ?xs n) (row_slots oob pre_lens seq_lens last_loc free_pages ps n) (put 0 ?R out))"
    using naive_row_spec [OF ps n(1) l le [OF n(1)], of "put 0 ?R out" free_pages last_loc oob] room en R xn by simp
  also have "\<dots> = Inr (put 0 (?R @ row_slots oob pre_lens seq_lens last_loc free_pages ps n) out)"
    using put_put [of 0 ?R "row_slots oob pre_lens seq_lens last_loc free_pages ps n" out] R room xn
    by (simp add: row_slots_def)
  finally show ?case by simp
qed simp

lemma naive_slots:
  assumes "0 < ps" and "length seq_lens = length pre_lens"
    and "\<And>i. i < length pre_lens \<Longrightarrow> pre_lens ! i \<le> seq_lens ! i"
    and "length out = sum_list (map2 (-) seq_lens pre_lens)"
    and "get_num_new_pages seq_lens ps pre_lens \<le> length free_pages"
  shows "alloc_extend_naive pre_lens seq_lens last_loc free_pages out ps =
    Inr (batch_slots oob pre_lens seq_lens last_loc free_pages ps)"
  using naive_rows_spec [OF assms order_refl, of last_loc oob] length_batch_slots [OF assms(2)] assms(4)
  by (simp add: alloc_extend_naive_def put_def flip: batch_slots_def)

section \<open>Freshness\<close>

lemma distinct_rows:
  assumes "\<And>i j i' j'. i < n \<Longrightarrow> j < len i \<Longrightarrow> i' < n \<Longrightarrow> j' < len i' \<Longrightarrow> f i j = f i' j' \<Longrightarrow> i = i' \<and> j = j'"
  shows "distinct (concat (map (\<lambda>i. map (f i) [0..<len i]) [0..<n]))"
  using assms
proof (induction n)
  case (Suc n)
  have "distinct (map (f n) [0..<len n])" using Suc.prems [of n _ n] by (auto simp: distinct_map inj_on_def)
  moreover have "distinct (concat (map (\<lambda>i. map (f i) [0..<len i]) [0..<n]))"
    by (rule Suc.IH, rule Suc.prems) simp_all
  moreover have "f n j' \<noteq> f i j" if "i < n" "j < len i" "j' < len n" for i j j'
    using Suc.prems [of i j n j'] that by auto
  ultimately show ?case by auto
qed simp

lemma start_of_disjoint:
  assumes "i < length xs" "j < length xs" "a < xs ! i" "b < xs ! j" "start_of xs i + a = start_of xs j + b"
  shows "i = j \<and> a = b"
proof (cases i j rule: linorder_cases)
  case less
  then have "start_of xs i + xs ! i \<le> start_of xs j" using start_of_le [of "Suc i" j xs] start_of_Suc assms(1) by simp
  then show ?thesis using assms by simp
next
  case greater
  then have "start_of xs j + xs ! j \<le> start_of xs i" using start_of_le [of "Suc j" i xs] start_of_Suc assms(2) by simp
  then show ?thesis using assms by simp
qed (use assms in simp)

lemma page_offset_inj:
  assumes "a * ps + x = b * ps + y" "x < ps" "y < (ps::nat)"
  shows "a = b \<and> x = y"
proof -
  have "(a * ps + x) div ps = a" "(b * ps + y) div ps = b" using assms(2,3) by simp_all
  then show ?thesis using assms(1) by (metis add_left_cancel)
qed

text \<open>The page of block \<open>b\<close> of row \<open>i\<close>: the page \<open>own i\<close> that already holds the end of the prefix, or
  a page of the free list.\<close>

definition block_page :: "(nat \<Rightarrow> nat) \<Rightarrow> nat list \<Rightarrow> nat list \<Rightarrow> nat list \<Rightarrow> nat \<Rightarrow> nat \<Rightarrow> nat \<Rightarrow> nat" where
  "block_page own pre_lens seq_lens free_pages ps i b =
     (if b < num_pages_of ps (pre_lens ! i) then own i
      else free_pages ! (start_of (map2 (\<lambda>s p. num_pages_of ps s - num_pages_of ps p) seq_lens pre_lens) i +
                         (b - num_pages_of ps (pre_lens ! i))))"

lemma block_bounds:
  assumes ps: "0 < ps" and t: "pre \<le> t" "t < seq"
  shows "t div ps < num_pages_of ps seq"
    "t < num_pages_of ps pre * ps \<Longrightarrow> Suc (t div ps) = num_pages_of ps pre \<and> pre div ps = t div ps \<and> pre mod ps \<noteq> 0"
    "num_pages_of ps pre * ps \<le> t \<Longrightarrow> num_pages_of ps pre \<le> t div ps"
proof -
  note b = num_pages_of_bounds [OF ps]
  show "t div ps < num_pages_of ps seq" using b(1) [of seq] t(2) ps by (simp add: div_less_iff_less_mult)
  show "num_pages_of ps pre * ps \<le> t \<Longrightarrow> num_pages_of ps pre \<le> t div ps" using ps by (simp add: less_eq_div_iff_mult_less_eq)
  assume lt: "t < num_pages_of ps pre * ps"
  let ?m = "num_pages_of ps pre - 1"
  have m: "num_pages_of ps pre = Suc ?m" using lt by (cases "num_pages_of ps pre") auto
  have e: "num_pages_of ps pre * ps = ?m * ps + ps" using m by (metis add.commute mult_Suc)
  then have lo: "?m * ps < pre" using b(2) [of pre] by linarith
  have "t div ps = ?m" "pre div ps = ?m"
    using lo lt t(1) b(1) [of pre] e by (intro div_nat_eqI; simp add: algebra_simps)+
  then show "Suc (t div ps) = num_pages_of ps pre \<and> pre div ps = t div ps \<and> pre mod ps \<noteq> 0"
    using m lo by (metis add.right_neutral div_mult_mod_eq less_irrefl)
qed

lemma slot_block:
  assumes ps: "0 < ps" and i: "i < length pre_lens" "length seq_lens = length pre_lens"
    and j: "j < seq_lens ! i - pre_lens ! i"
    and own: "pre_lens ! i mod ps \<noteq> 0 \<Longrightarrow> last_loc ! i = int (own i * ps + pre_lens ! i mod ps) - 1"
    and enough: "get_num_new_pages seq_lens ps pre_lens \<le> length free_pages"
  defines "t \<equiv> pre_lens ! i + j"
  shows "slot_of oob pre_lens seq_lens last_loc free_pages ps i j =
    int (block_page own pre_lens seq_lens free_pages ps i (t div ps) * ps + t mod ps)"
proof -
  let ?c = "num_pages_of ps (pre_lens ! i)"
  let ?N = "map2 (\<lambda>s p. num_pages_of ps s - num_pages_of ps p) seq_lens pre_lens"
  note B = block_bounds [OF ps, of "pre_lens ! i" t "seq_lens ! i"]
  have t: "pre_lens ! i \<le> t" "t < seq_lens ! i" using j by (simp_all add: t_def)
  show ?thesis
  proof (cases "t < ?c * ps")
    case True
    have b: "Suc (t div ps) = ?c" "pre_lens ! i div ps = t div ps" "pre_lens ! i mod ps \<noteq> 0" using B(2) [OF t True] by auto
    have "t div ps * ps + t mod ps = pre_lens ! i div ps * ps + (pre_lens ! i mod ps + j)"
      unfolding add.assoc [symmetric] div_mult_mod_eq by (simp add: t_def)
    then have "t mod ps = pre_lens ! i mod ps + j" unfolding b(2) by (rule add_left_imp_eq)
    then show ?thesis using True own [OF b(3)] b(1) by (simp add: slot_of_def Let_def t_def block_page_def)
  next
    case False
    then have c: "?c \<le> t div ps" using B(3) [OF t] by simp
    have "(t - ?c * ps) div ps = t div ps - ?c" "(t - ?c * ps) mod ps = t mod ps"
    proof -
      have "t = ?c * ps + (t - ?c * ps)" using False by simp
      then show "(t - ?c * ps) div ps = t div ps - ?c" "(t - ?c * ps) mod ps = t mod ps"
        using ps by (metis add_diff_cancel_left' div_mult_self3 less_numeral_extra(3), metis mod_mult_self3)
    qed
    moreover have "start_of ?N i + (t div ps - ?c) < length free_pages"
    proof -
      have "?N ! i = num_pages_of ps (seq_lens ! i) - ?c" using i by simp
      then have "t div ps - ?c < ?N ! i" using B(1) [OF t] c by simp
      moreover have "start_of ?N i + ?N ! i \<le> sum_list ?N" using start_of_total [of i ?N] i by simp
      ultimately show ?thesis using enough by (simp add: get_num_new_pages_def)
    qed
    ultimately show ?thesis using False c by (simp add: slot_of_def Let_def t_def block_page_def load_def)
  qed
qed

section \<open>Properties\<close>

text \<open>C13: the Triton kernel computes what the PyTorch routine computes. For every batch whose
  prefixes are not longer than the sequences and for which the free list has enough pages, every
  interleaving of the stores of the kernel's program instances leaves the output
  \<open>alloc_extend_naive\<close> returns, whatever the uninitialised output held and whatever masked-out
  lanes read.\<close>

theorem extend_kernel_equals_naive:
  assumes "0 < ps" and "length seq_lens = length pre_lens" and "length pre_lens \<le> bs_upper"
    and "\<forall>i<length pre_lens. pre_lens ! i \<le> seq_lens ! i"
    and "get_num_new_pages seq_lens ps pre_lens \<le> length free_pages"
    and "length out = sum_list (map2 (-) seq_lens pre_lens)" and "length out' = length out"
    and "mset ws = mset (concat (map
           (alloc_extend_kernel oob other pre_lens seq_lens last_loc free_pages bs_upper ps) [0..<length pre_lens]))"
  shows "alloc_extend_naive pre_lens seq_lens last_loc free_pages out ps = Inr (apply_stores ws out')"
  using grid_slots [OF assms(1,2,3) _ assms(8), of out'] naive_slots [OF assms(1,2) _ assms(6,5), of last_loc oob]
    assms(4,6,7)
  by simp

theorem extend_kernel_equals_naive_witness:
  "alloc_extend_naive [3, 0] [6, 5] [14, - 1] [7, 9, 8] (replicate 8 0) 4 =
     Inr (apply_stores (rev (concat (map (alloc_extend_kernel (\<lambda>_. 0) 17 [3, 0] [6, 5] [14, - 1] [7, 9, 8] 2 4) [0..<2])))
       (replicate 8 1)) \<and>
   alloc_extend_naive [3, 0] [6, 5] [14, - 1] [7, 9, 8] (replicate 8 0) 4 = Inr [15, 28, 29, 36, 37, 38, 39, 32]"
proof -
  have "alloc_extend_naive [3, 0] [6, 5] [14, - 1] [7, 9, 8] (replicate 8 0) 4 = Inr [15, 28, 29, 36, 37, 38, 39, 32]"
    by code_simp
  moreover have "get_num_new_pages [6, 5] 4 [3, 0] \<le> length ([7, 9, 8] :: nat list)" by code_simp
  ultimately show ?thesis
    using extend_kernel_equals_naive [of 4 "[6, 5]" "[3, 0]" 2 "[7, 9, 8]" "replicate 8 0" "replicate 8 1"
        "rev (concat (map (alloc_extend_kernel (\<lambda>_. 0) 17 [3, 0] [6, 5] [14, - 1] [7, 9, 8] 2 4) [0..<2]))"
        "\<lambda>_. 0" 17 "[14, - 1]"]
    by (simp add: less_Suc_eq numeral_2_eq_2)
qed



lemma new_page_iff:
  assumes "2 \<le> ps" "0 < s"
  shows "num_pages_of ps s - num_pages_of ps (s - 1) = (if s mod ps = 1 then 1 else 0)"
proof -
  obtain m where m: "s = Suc m" using assms(2) by (cases s) auto
  have "num_pages_of ps s = Suc (m div ps)"
  proof -
    have "num_pages_of ps s = (m + ps) div ps" by (simp add: num_pages_of_def m)
    also have "\<dots> = Suc (m div ps)" using assms(1) by (subst div_add_self2) simp_all
    finally show ?thesis .
  qed
  moreover have "num_pages_of ps (s - 1) = m div ps + (if m mod ps = 0 then 0 else 1)"
    using num_pages_of_alt [of ps m] assms(1) m by simp
  moreover have "s mod ps = 1 \<longleftrightarrow> m mod ps = 0"
    using assms(1) by (auto simp: m mod_Suc)
  ultimately show ?thesis by simp
qed



text \<open>With page size one the shortcut does not apply: no length is one modulo one, so the count is
  zero although every row takes a new page.\<close>

lemma decode_count_page_size_one:
  assumes "\<forall>s\<in>set seq_lens. 0 < s"
  shows "get_num_new_pages_decode seq_lens 1 = 0"
    "get_num_new_pages seq_lens 1 (map (\<lambda>s. s - 1) seq_lens) = length seq_lens"
proof -
  show "get_num_new_pages_decode seq_lens 1 = 0" by (induction seq_lens) (simp_all add: get_num_new_pages_decode_def)
  show "get_num_new_pages seq_lens 1 (map (\<lambda>s. s - 1) seq_lens) = length seq_lens"
    using assms by (induction seq_lens) (auto simp: get_num_new_pages_def num_pages_of_def)
qed

end
