(* ===== verification/Kv_Allocator.thy ===== *)
theory Kv_Allocator
  imports Radix_Sessions Kv_Pages
begin

text \<open>
  The KV slot allocators: \<open>BaseTokenToKVPoolAllocator\<close> with its free groups and owner bias, the
  token and the paged allocator, and the Mamba slot allocator. The record \<open>kv_pool\<close> is the object
  state; \<open>num_pages\<close> exists on the paged class only. Methods of the base class that call
  \<open>self.free\<close> take the overriding method as their argument \<open>free\<close>. \<open>notified\<close> logs what every
  registered free listener is told. Slots and pages are natural numbers, tensors are lists.
\<close>

datatype notice = Notify_Free "nat list" | Notify_Clear

record kv_pool =
  pool_size :: nat
  pg_size :: nat
  need_sort :: bool
  free_pages :: "nat list"
  release_pages :: "nat list"
  is_not_in_free_group :: bool
  free_group :: "nat list list"
  owner_bias :: "(int \<times> int \<times> int) option"
  num_pages :: "nat option"
  debug_mode :: bool
  notified :: "notice list"

definition notify_free :: "nat list \<Rightarrow> kv_pool \<Rightarrow> kv_pool" where
  "notify_free v a = a\<lparr>notified := notified a @ [Notify_Free v]\<rparr>"

definition notify_clear :: "kv_pool \<Rightarrow> kv_pool" where
  "notify_clear a = a\<lparr>notified := notified a @ [Notify_Clear]\<rparr>"

section \<open>The base class\<close>

definition merge_and_sort_free_unbiased :: "kv_pool \<Rightarrow> kv_pool" where
  "merge_and_sort_free_unbiased a =
     (if 0 < length (release_pages a)
      then a\<lparr>free_pages := sort (free_pages a @ release_pages a), release_pages := []\<rparr> else a)"

definition in_class :: "int \<times> int \<times> int \<Rightarrow> nat \<Rightarrow> bool" where
  "in_class b p = (case b of (m, lo, hi) \<Rightarrow> lo \<le> int p mod m \<and> int p mod m < hi)"

definition apply_owner_bias :: "kv_pool \<Rightarrow> nat \<times> kv_pool" where
  "apply_owner_bias a =
     (case owner_bias a of
        None \<Rightarrow> (0, a)
      | Some bias \<Rightarrow>
          if \<not> is_not_in_free_group a then (0, a)
          else
            let a1 = (if 0 < length (release_pages a) then merge_and_sort_free_unbiased a else a);
                pages = free_pages a1
            in if pages = [] then (0, a1)
               else
                 let n = length (filter (in_class bias) pages) in
                 if n = 0 \<or> n = length pages then (n, a1)
                 else (n, a1\<lparr>free_pages := filter (in_class bias) pages @
                                           filter (\<lambda>p. \<not> in_class bias p) pages\<rparr>))"

definition set_owner_bias :: "(int \<times> int \<times> int) option \<Rightarrow> kv_pool \<Rightarrow> (nat \<times> kv_pool) res" where
  "set_owner_bias bias a =
     (case bias of
        None \<Rightarrow> Inr (apply_owner_bias (a\<lparr>owner_bias := None\<rparr>))
      | Some (m, lo, hi) \<Rightarrow>
          if m \<le> 0 \<or> \<not> (0 \<le> lo \<and> lo < hi \<and> hi \<le> m) then Inl ValueError
          else if pg_size a \<noteq> 1 then Inl ValueError
          else Inr (apply_owner_bias (a\<lparr>owner_bias := Some (m, lo, hi)\<rparr>)))"

definition merge_and_sort_free :: "kv_pool \<Rightarrow> kv_pool" where
  "merge_and_sort_free a =
     (let a1 = merge_and_sort_free_unbiased a
      in if owner_bias a1 \<noteq> None then snd (apply_owner_bias a1) else a1)"

definition base_available_size :: "kv_pool \<Rightarrow> nat" where
  "base_available_size a = (length (free_pages a) + length (release_pages a)) * pg_size a"

definition backup_state :: "kv_pool \<Rightarrow> nat list \<times> nat list" where
  "backup_state a = (free_pages a, release_pages a)"

definition restore_state :: "nat list \<times> nat list \<Rightarrow> kv_pool \<Rightarrow> kv_pool" where
  "restore_state st a = a\<lparr>free_pages := fst st, release_pages := snd st\<rparr>"

definition apply_free_group :: "(nat list \<Rightarrow> kv_pool \<Rightarrow> kv_pool res) \<Rightarrow> kv_pool \<Rightarrow> (nat \<times> kv_pool) res" where
  "apply_free_group free a =
     (if free_group a = [] then Inr (0, a)
      else
        let staged = free_group a; applied = sum_list (map length staged)
        in rbind (free (concat staged) (a\<lparr>free_group := []\<rparr>)) (\<lambda>a1. Inr (applied, a1)))"

definition reclaim_abandoned_free_group ::
  "(nat list \<Rightarrow> kv_pool \<Rightarrow> kv_pool res) \<Rightarrow> kv_pool \<Rightarrow> (nat \<times> kv_pool) res" where
  "reclaim_abandoned_free_group free a =
     (if is_not_in_free_group a \<or> free_group a = [] then Inr (0, a)
      else apply_free_group free (a\<lparr>is_not_in_free_group := True\<rparr>))"

definition free_group_begin :: "(nat list \<Rightarrow> kv_pool \<Rightarrow> kv_pool res) \<Rightarrow> kv_pool \<Rightarrow> kv_pool res" where
  "free_group_begin free a =
     rbind (reclaim_abandoned_free_group free a) (\<lambda>(_, a1).
       Inr (a1\<lparr>is_not_in_free_group := False, free_group := []\<rparr>))"

definition free_group_end :: "(nat list \<Rightarrow> kv_pool \<Rightarrow> kv_pool res) \<Rightarrow> kv_pool \<Rightarrow> kv_pool res" where
  "free_group_end free a =
     rbind (apply_free_group free (a\<lparr>is_not_in_free_group := True\<rparr>)) (\<lambda>(_, a1). Inr a1)"

definition flush_free_group :: "(nat list \<Rightarrow> kv_pool \<Rightarrow> kv_pool res) \<Rightarrow> kv_pool \<Rightarrow> (nat \<times> kv_pool) res" where
  "flush_free_group free a =
     (if is_not_in_free_group a \<or> free_group a = [] then Inr (0, a)
      else
        let staged = free_group a; applied = sum_list (map length staged)
        in rbind (free (concat staged) (a\<lparr>free_group := [], is_not_in_free_group := True\<rparr>)) (\<lambda>a1.
           Inr (applied, a1\<lparr>is_not_in_free_group := False\<rparr>)))"

definition resize :: "(kv_pool \<Rightarrow> kv_pool) \<Rightarrow> nat \<Rightarrow> kv_pool \<Rightarrow> kv_pool" where
  "resize clear max_total_num_tokens a =
     clear (a\<lparr>pool_size := max_total_num_tokens,
             num_pages := map_option (\<lambda>_. max_total_num_tokens div pg_size a) (num_pages a)\<rparr>)"

definition grow_size :: "nat \<Rightarrow> kv_pool \<Rightarrow> kv_pool res" where
  "grow_size new_size a =
     (if new_size < pool_size a then Inl ValueError
      else if new_size = pool_size a then Inr a
      else if new_size mod pg_size a \<noteq> 0 then Inl ValueError
      else
        let old_pages = pool_size a div pg_size a;
            new_pages = new_size div pg_size a;
            fresh = [old_pages + 1..<new_pages + 1]
        in Inr (a\<lparr>free_pages := free_pages a @ fresh, pool_size := new_size,
                 num_pages := map_option (\<lambda>_. new_pages) (num_pages a)\<rparr>))"

definition base_init :: "nat \<Rightarrow> nat \<Rightarrow> bool \<Rightarrow> kv_pool" where
  "base_init pool_len ps sort_needed =
     \<lparr>pool_size = pool_len, pg_size = ps, need_sort = sort_needed, free_pages = [], release_pages = [],
      is_not_in_free_group = True, free_group = [], owner_bias = None, num_pages = None,
      debug_mode = False, notified = []\<rparr>"

section \<open>The token allocator\<close>

definition token_clear :: "kv_pool \<Rightarrow> kv_pool" where
  "token_clear a = notify_clear
     (a\<lparr>free_pages := [1..<pool_size a + 1], is_not_in_free_group := True, free_group := [],
        release_pages := []\<rparr>)"

definition token_init :: "nat \<Rightarrow> bool \<Rightarrow> kv_pool" where
  "token_init pool_len sort_needed = token_clear (base_init pool_len 1 sort_needed)"

definition token_available_size :: "kv_pool \<Rightarrow> nat" where
  "token_available_size a = length (free_pages a) + length (release_pages a)"

definition token_alloc :: "nat \<Rightarrow> kv_pool \<Rightarrow> nat list option \<times> kv_pool" where
  "token_alloc need_size a =
     (let a1 = (if need_sort a \<and> length (free_pages a) < need_size then merge_and_sort_free a else a)
      in if length (free_pages a1) < need_size then (None, a1)
         else (Some (take need_size (free_pages a1)), a1\<lparr>free_pages := drop need_size (free_pages a1)\<rparr>))"

definition token_free :: "nat list \<Rightarrow> kv_pool \<Rightarrow> kv_pool res" where
  "token_free free_index a =
     (if free_index = [] then Inr a
      else if is_not_in_free_group a
      then Inr (notify_free free_index
                  (if need_sort a then a\<lparr>release_pages := release_pages a @ free_index\<rparr>
                   else a\<lparr>free_pages := free_pages a @ free_index\<rparr>))
      else Inr (a\<lparr>free_group := free_group a @ [free_index]\<rparr>))"

section \<open>The paged allocator\<close>

definition paged_clear :: "kv_pool \<Rightarrow> kv_pool" where
  "paged_clear a = notify_clear
     (a\<lparr>free_pages := [1..<the (num_pages a) + 1], is_not_in_free_group := True, free_group := [],
        release_pages := []\<rparr>)"

definition paged_init :: "nat \<Rightarrow> nat \<Rightarrow> bool \<Rightarrow> bool \<Rightarrow> kv_pool" where
  "paged_init pool_len ps sort_needed debug =
     paged_clear ((base_init pool_len ps sort_needed)\<lparr>num_pages := Some (pool_len div ps), debug_mode := debug\<rparr>)"

definition paged_alloc :: "nat \<Rightarrow> kv_pool \<Rightarrow> (nat list option \<times> kv_pool) res" where
  "paged_alloc need_size a =
     (if debug_mode a \<and> need_size mod pg_size a \<noteq> 0 then Inl AssertionError
      else
        let n = need_size div pg_size a;
            a1 = (if need_sort a \<and> length (free_pages a) < n then merge_and_sort_free a else a)
        in if length (free_pages a1) < n then Inr (None, a1)
           else Inr (Some (concat (map (page_of (pg_size a)) (take n (free_pages a1)))),
                     a1\<lparr>free_pages := drop n (free_pages a1)\<rparr>))"

definition paged_alloc_extend ::
  "(nat \<Rightarrow> nat) \<Rightarrow> nat \<Rightarrow> (stores \<Rightarrow> stores) \<Rightarrow> nat list \<Rightarrow> nat list \<Rightarrow> int list \<Rightarrow> nat \<Rightarrow> nat option \<Rightarrow> kv_pool \<Rightarrow>
   (int list option \<times> kv_pool) res" where
  "paged_alloc_extend oob other interleave prefix_lens seq_lens last_loc extend_num_tokens num_new a =
     (if debug_mode a \<and> \<not> list_all2 (\<lambda>l p. (l + 1) mod int (pg_size a) = int (p mod pg_size a)) last_loc prefix_lens
      then Inl AssertionError
      else
        let bs = length prefix_lens;
            a1 = (if need_sort a \<and> length (free_pages a) < extend_num_tokens div pg_size a + bs + 1
                  then merge_and_sort_free a else a);
            out = apply_stores (interleave (concat (map
                    (alloc_extend_kernel oob other prefix_lens seq_lens last_loc (free_pages a1) bs (pg_size a))
                    [0..<bs]))) (replicate extend_num_tokens 0)
        in if debug_mode a \<and> \<not> distinct out then Inl AssertionError
           else
             let n = (case num_new of None \<Rightarrow> get_num_new_pages seq_lens (pg_size a) prefix_lens | Some n \<Rightarrow> n)
             in if length (free_pages a1) < n then Inr (None, a1)
                else Inr (Some out, a1\<lparr>free_pages := drop n (free_pages a1)\<rparr>))"

definition paged_alloc_decode ::
  "(nat \<Rightarrow> nat) \<Rightarrow> nat \<Rightarrow> (stores \<Rightarrow> stores) \<Rightarrow> nat list \<Rightarrow> int list \<Rightarrow> kv_pool \<Rightarrow> (int list option \<times> kv_pool) res" where
  "paged_alloc_decode oob other interleave seq_lens last_loc a =
     (if debug_mode a \<and> \<not> list_all2 (\<lambda>l s. (l + 2) mod int (pg_size a) = int (s mod pg_size a)) last_loc seq_lens
      then Inl AssertionError
      else
        let bs = length seq_lens;
            a1 = (if need_sort a \<and> length (free_pages a) < bs then merge_and_sort_free a else a);
            out = apply_stores (interleave (concat (map
                    (alloc_decode_kernel oob other seq_lens last_loc (free_pages a1) bs (pg_size a)) [0..<bs])))
                    (replicate bs 0)
        in if debug_mode a \<and> \<not> distinct out then Inl AssertionError
           else
             let n = get_num_new_pages_decode seq_lens (pg_size a)
             in if length (free_pages a1) < n then Inr (None, a1)
                else Inr (Some out, a1\<lparr>free_pages := drop n (free_pages a1)\<rparr>))"

fun pick_classes :: "int \<Rightarrow> ((int \<times> int) \<times> nat) list \<Rightarrow> nat list \<Rightarrow> nat list list option" where
  "pick_classes m [] pages = Some []"
| "pick_classes m (((lo, hi), need) # cs) pages =
     (let idxs = take need (filter (in_class (m, lo, hi)) pages) in
      if length idxs < need then None
      else map_option (\<lambda>ps. idxs # ps) (pick_classes m cs pages))"

definition alloc_owner_matched_classes ::
  "int \<Rightarrow> (int \<times> int) list \<Rightarrow> nat list \<Rightarrow> kv_pool \<Rightarrow> (nat list list option \<times> kv_pool) res" where
  "alloc_owner_matched_classes m class_bounds class_needs a =
     (if pg_size a \<noteq> 1 then Inl AssertionError
      else
        let a1 = (if 0 < length (release_pages a) then merge_and_sort_free a else a);
            pages = free_pages a1
        in case pick_classes m (zip class_bounds class_needs) pages of
             None \<Rightarrow> Inr (None, a1)
           | Some picks \<Rightarrow>
               Inr (Some picks, a1\<lparr>free_pages := filter (\<lambda>p. p \<notin> set (concat picks)) pages\<rparr>))"

definition paged_free :: "nat list \<Rightarrow> kv_pool \<Rightarrow> kv_pool res" where
  "paged_free free_index a =
     (if free_index = [] then Inr a
      else
        let a1 = (if is_not_in_free_group a
                  then
                    let free_page_indices = sort (remdups (map (\<lambda>s. s div pg_size a) free_index))
                    in notify_free free_index
                         (if need_sort a then a\<lparr>release_pages := free_page_indices @ release_pages a\<rparr>
                          else a\<lparr>free_pages := free_page_indices @ free_pages a\<rparr>)
                  else a\<lparr>free_group := free_group a @ [free_index]\<rparr>)
        in if debug_mode a1 \<and> \<not> distinct (free_pages a1) then Inl AssertionError else Inr a1)"

section \<open>The Mamba slot allocator\<close>

record mamba_pool =
  mamba_size :: nat
  free_slots :: "nat list"
  alloc_iter :: "nat list option"

definition mamba_clear :: "mamba_pool \<Rightarrow> mamba_pool" where
  "mamba_clear a = a\<lparr>free_slots := [1..<mamba_size a + 1]\<rparr>"

definition mamba_do_alloc :: "nat \<Rightarrow> mamba_pool \<Rightarrow> nat list option \<times> mamba_pool" where
  "mamba_do_alloc need_size a =
     (if length (free_slots a) < need_size then (None, a)
      else (Some (take need_size (free_slots a)), a\<lparr>free_slots := drop need_size (free_slots a)\<rparr>))"

definition mamba_free :: "nat list \<Rightarrow> mamba_pool \<Rightarrow> mamba_pool" where
  "mamba_free free_index a =
     (if free_index = [] then a else a\<lparr>free_slots := free_slots a @ free_index\<rparr>)"

definition alloc_group_begin :: "nat \<Rightarrow> mamba_pool \<Rightarrow> mamba_pool" where
  "alloc_group_begin num_reqs a =
     (let a1 = a\<lparr>alloc_iter := None\<rparr> in
      if 0 < num_reqs
      then (case mamba_do_alloc num_reqs a1 of
              (Some result, a2) \<Rightarrow> a2\<lparr>alloc_iter := Some result\<rparr>
            | (None, a2) \<Rightarrow> a2)
      else a1)"

definition alloc_group_end :: "mamba_pool \<Rightarrow> mamba_pool" where
  "alloc_group_end a =
     (let a1 = (case alloc_iter a of None \<Rightarrow> a | Some remaining \<Rightarrow> mamba_free remaining a)
      in a1\<lparr>alloc_iter := None\<rparr>)"

definition mamba_alloc :: "nat \<Rightarrow> mamba_pool \<Rightarrow> nat list option \<times> mamba_pool" where
  "mamba_alloc need_size a =
     (case alloc_iter a of
        Some (slot # rest) \<Rightarrow>
          if need_size = 1 then (Some [slot], a\<lparr>alloc_iter := Some rest\<rparr>) else mamba_do_alloc need_size a
      | _ \<Rightarrow> mamba_do_alloc need_size a)"

section \<open>Slots of an allocator\<close>

definition avail :: "kv_pool \<Rightarrow> nat multiset" where
  "avail a = page_slots (pg_size a) (free_pages a @ release_pages a) +
     covered (pg_size a) (concat (free_group a))"

definition kv_good :: "nat \<Rightarrow> kv_pool \<Rightarrow> bool" where
  "kv_good ps a \<longleftrightarrow> pg_size a = ps \<and> 0 < ps \<and> once (avail a) \<and> distinct (concat (free_group a)) \<and>
     (is_not_in_free_group a \<longrightarrow> free_group a = [])"

text \<open>Reordering and merging keep the slots.\<close>

lemma merge_unbiased_keeps:
  "avail (merge_and_sort_free_unbiased a) = avail a"
  "pg_size (merge_and_sort_free_unbiased a) = pg_size a" "free_group (merge_and_sort_free_unbiased a) = free_group a"
  "is_not_in_free_group (merge_and_sort_free_unbiased a) = is_not_in_free_group a"
  "pool_size (merge_and_sort_free_unbiased a) = pool_size a" "owner_bias (merge_and_sort_free_unbiased a) = owner_bias a"
  by (auto simp: merge_and_sort_free_unbiased_def avail_def)

text \<open>The bias is a stable partition of the merged list, in every case.\<close>

lemma apply_owner_bias_partition:
  assumes "owner_bias a = Some b" "is_not_in_free_group a"
  defines "m \<equiv> merge_and_sort_free_unbiased a"
  shows "apply_owner_bias a = (length (filter (in_class b) (free_pages m)),
    m\<lparr>free_pages := filter (in_class b) (free_pages m) @ filter (\<lambda>p. \<not> in_class b p) (free_pages m)\<rparr>)"
proof -
  have m: "(if 0 < length (release_pages a) then merge_and_sort_free_unbiased a else a) = m"
    by (simp add: m_def merge_and_sort_free_unbiased_def)
  let ?n = "length (filter (in_class b) (free_pages m))"
  have "filter (in_class b) (free_pages m) @ filter (\<lambda>p. \<not> in_class b p) (free_pages m) = free_pages m"
    if "?n = 0 \<or> ?n = length (free_pages m)"
    using that
  proof
    assume "?n = 0"
    then show ?thesis by (simp add: filter_empty_conv filter_id_conv)
  next
    assume "?n = length (free_pages m)"
    then have "filter (in_class b) (free_pages m) = free_pages m" by (metis length_filter_less less_irrefl filter_id_conv)
    then show ?thesis by (simp add: filter_id_conv filter_empty_conv)
  qed
  moreover have "m\<lparr>free_pages := free_pages m\<rparr> = m" by simp
  ultimately show ?thesis using assms(1,2) unfolding apply_owner_bias_def m by (auto simp: Let_def)
qed

lemma bias_keeps:
  "avail (snd (apply_owner_bias a)) = avail a" "pg_size (snd (apply_owner_bias a)) = pg_size a"
  "free_group (snd (apply_owner_bias a)) = free_group a"
  "is_not_in_free_group (snd (apply_owner_bias a)) = is_not_in_free_group a"
  "pool_size (snd (apply_owner_bias a)) = pool_size a"
proof -
  let ?m = "merge_and_sort_free_unbiased a"
  have "avail (snd (apply_owner_bias a)) = avail a \<and> pg_size (snd (apply_owner_bias a)) = pg_size a \<and>
    free_group (snd (apply_owner_bias a)) = free_group a \<and>
    is_not_in_free_group (snd (apply_owner_bias a)) = is_not_in_free_group a \<and>
    pool_size (snd (apply_owner_bias a)) = pool_size a"
  proof (cases "owner_bias a = None \<or> \<not> is_not_in_free_group a")
    case True
    then show ?thesis by (auto simp: apply_owner_bias_def split: option.split)
  next
    case False
    then obtain b where b: "owner_bias a = Some b" "is_not_in_free_group a" by (cases "owner_bias a") simp_all
    have "avail (?m\<lparr>free_pages := filter (in_class b) (free_pages ?m) @ filter (\<lambda>p. \<not> in_class b p) (free_pages ?m)\<rparr>) =
        avail ?m"
      using page_slots_filter [of "pg_size ?m" "in_class b" "free_pages ?m"] by (simp add: avail_def)
    then show ?thesis using merge_unbiased_keeps unfolding apply_owner_bias_partition [OF b] by simp
  qed
  then show "avail (snd (apply_owner_bias a)) = avail a" "pg_size (snd (apply_owner_bias a)) = pg_size a"
    "free_group (snd (apply_owner_bias a)) = free_group a"
    "is_not_in_free_group (snd (apply_owner_bias a)) = is_not_in_free_group a"
    "pool_size (snd (apply_owner_bias a)) = pool_size a"
    by blast+
qed

lemma merge_keeps:
  "avail (merge_and_sort_free a) = avail a" "pg_size (merge_and_sort_free a) = pg_size a"
  "free_group (merge_and_sort_free a) = free_group a"
  "is_not_in_free_group (merge_and_sort_free a) = is_not_in_free_group a"
  "pool_size (merge_and_sort_free a) = pool_size a"
  by (simp_all add: merge_and_sort_free_def Let_def merge_unbiased_keeps bias_keeps)

definition same_slots :: "kv_pool \<Rightarrow> kv_pool \<Rightarrow> bool" where
  "same_slots a a' \<longleftrightarrow> avail a' = avail a \<and> pg_size a' = pg_size a \<and> free_group a' = free_group a \<and>
     is_not_in_free_group a' = is_not_in_free_group a \<and> pool_size a' = pool_size a"

lemma same_slots_good: "same_slots a a' \<Longrightarrow> kv_good ps a \<Longrightarrow> kv_good ps a'"
  by (simp add: same_slots_def kv_good_def)

lemma merge_same: "same_slots a (merge_and_sort_free a)"
  by (simp add: same_slots_def merge_keeps)

section \<open>The base class over its virtual method\<close>

text \<open>The methods of the base class rely on this of the overriding \<open>free\<close>: outside a group it takes
  whole pages back at once and leaves the flag alone, inside a group it stages them.\<close>

definition took_back :: "nat \<Rightarrow> nat list \<Rightarrow> kv_pool \<Rightarrow> kv_pool \<Rightarrow> bool" where
  "took_back ps v a a' \<longleftrightarrow> kv_good ps a' \<and> avail a' = avail a + covered ps v \<and> pool_size a' = pool_size a \<and>
     is_not_in_free_group a' = is_not_in_free_group a"

locale kv_base =
  fixes free :: "nat list \<Rightarrow> kv_pool \<Rightarrow> kv_pool res" and ps :: nat
  assumes free_law: "kv_good ps a \<Longrightarrow> distinct v \<Longrightarrow> once (avail a + covered ps v) \<Longrightarrow>
    \<exists>a'. free v a = Inr a' \<and> took_back ps v a a'"
begin

lemma apply_group:
  assumes "pg_size a = ps" "0 < ps" "once (avail a)" "distinct (concat (free_group a))" "is_not_in_free_group a"
  shows "\<exists>a'. apply_free_group free a = Inr (sum_list (map length (free_group a)), a') \<and> kv_good ps a' \<and>
    avail a' = avail a \<and> pool_size a' = pool_size a \<and> is_not_in_free_group a'"
proof (cases "free_group a = []")
  case True
  then show ?thesis using assms by (simp add: apply_free_group_def kv_good_def)
next
  case False
  let ?b = "a\<lparr>free_group := []\<rparr>"
  have av: "avail a = avail ?b + covered ps (concat (free_group a))" using assms(1) by (simp add: avail_def)
  have "kv_good ps ?b" using assms av by (auto simp: kv_good_def once_plus)
  then obtain a' where "free (concat (free_group a)) ?b = Inr a'" "took_back ps (concat (free_group a)) ?b a'"
    using free_law [of ?b "concat (free_group a)"] assms(3,4) unfolding av by blast
  then show ?thesis using False assms(5) av by (simp add: apply_free_group_def took_back_def)
qed

lemma reclaim:
  assumes "kv_good ps a"
  shows "\<exists>n a'. reclaim_abandoned_free_group free a = Inr (n, a') \<and> kv_good ps a' \<and> avail a' = avail a \<and>
    pool_size a' = pool_size a \<and> free_group a' = []"
proof (cases "is_not_in_free_group a \<or> free_group a = []")
  case True
  then show ?thesis using assms by (auto simp: reclaim_abandoned_free_group_def kv_good_def)
next
  case False
  let ?b = "a\<lparr>is_not_in_free_group := True\<rparr>"
  have "avail ?b = avail a" by (simp add: avail_def)
  then show ?thesis
    using apply_group [of ?b] assms False by (auto simp: reclaim_abandoned_free_group_def kv_good_def)
qed

lemma group_begin:
  assumes "kv_good ps a"
  shows "\<exists>a'. free_group_begin free a = Inr a' \<and> kv_good ps a' \<and> avail a' = avail a \<and>
    pool_size a' = pool_size a \<and> \<not> is_not_in_free_group a'"
proof -
  obtain n b where b: "reclaim_abandoned_free_group free a = Inr (n, b)" "kv_good ps b" "avail b = avail a"
    "pool_size b = pool_size a" "free_group b = []"
    using reclaim [OF assms] by blast
  have "avail (b\<lparr>is_not_in_free_group := False, free_group := []\<rparr>) = avail b" using b(5) by (simp add: avail_def)
  then show ?thesis using b by (simp add: free_group_begin_def kv_good_def)
qed

lemma group_end:
  assumes "kv_good ps a"
  shows "\<exists>a'. free_group_end free a = Inr a' \<and> kv_good ps a' \<and> avail a' = avail a \<and>
    pool_size a' = pool_size a \<and> is_not_in_free_group a'"
proof -
  let ?b = "a\<lparr>is_not_in_free_group := True\<rparr>"
  have "avail ?b = avail a" by (simp add: avail_def)
  then show ?thesis using apply_group [of ?b] assms by (auto simp: free_group_end_def kv_good_def)
qed

lemma flush:
  assumes "kv_good ps a"
  shows "\<exists>n a'. flush_free_group free a = Inr (n, a') \<and> kv_good ps a' \<and> avail a' = avail a \<and>
    pool_size a' = pool_size a \<and> free_group a' = [] \<and> is_not_in_free_group a' = is_not_in_free_group a"
proof (cases "is_not_in_free_group a \<or> free_group a = []")
  case True
  then show ?thesis using assms by (auto simp: flush_free_group_def kv_good_def)
next
  case False
  let ?b = "a\<lparr>free_group := [], is_not_in_free_group := True\<rparr>"
  have av: "avail a = avail ?b + covered ps (concat (free_group a))"
    using assms by (simp add: avail_def kv_good_def)
  have "kv_good ps ?b" "distinct (concat (free_group a))"
    using assms av by (auto simp: kv_good_def once_plus)
  moreover have "once (avail ?b + covered ps (concat (free_group a)))" using assms av by (simp add: kv_good_def)
  ultimately obtain c where c: "free (concat (free_group a)) ?b = Inr c" "took_back ps (concat (free_group a)) ?b c"
    using free_law by blast
  have "free_group c = []" using c(2) by (simp add: took_back_def kv_good_def)
  moreover have "avail (c\<lparr>is_not_in_free_group := False\<rparr>) = avail c" by (simp add: avail_def)
  ultimately show ?thesis using c False av assms by (auto simp: flush_free_group_def took_back_def kv_good_def)
qed

end

lemma stage_keeps:
  assumes "kv_good ps a" "distinct v" "once (avail a + covered ps v)" "\<not> is_not_in_free_group a"
  shows "took_back ps v a (a\<lparr>free_group := free_group a @ [v]\<rparr>)"
proof -
  have ps: "0 < ps" "pg_size a = ps" using assms(1) by (auto simp: kv_good_def)
  have o: "once (covered ps (concat (free_group a)) + covered ps v)"
    using assms(3) ps by (auto simp: avail_def once_plus)
  have "set (concat (free_group a)) \<inter> set v = {}"
  proof -
    have "x \<notin> set v" if "x \<in> set (concat (free_group a))" for x
      using that o ps(1) unfolding once_plus disjoint_iff covered_mem [OF ps(1)] by blast
    then show ?thesis by blast
  qed
  then have "distinct (concat (free_group a) @ v)" using assms(1,2) by (simp add: kv_good_def)
  moreover have "avail (a\<lparr>free_group := free_group a @ [v]\<rparr>) = avail a + covered ps v"
    using covered_append [OF ps(1) o] ps(2) by (simp add: avail_def ac_simps)
  ultimately show ?thesis using assms ps by (simp add: took_back_def kv_good_def)
qed

lemma token_free_law:
  assumes g: "kv_good 1 a" and v: "distinct v" "once (avail a + covered 1 v)"
  shows "\<exists>a'. token_free v a = Inr a' \<and> took_back 1 v a a'"
proof (cases "is_not_in_free_group a")
  case True
  have "avail (notify_free v (a\<lparr>release_pages := release_pages a @ v\<rparr>)) = avail a + covered 1 v"
    "avail (notify_free v (a\<lparr>free_pages := free_pages a @ v\<rparr>)) = avail a + covered 1 v"
    using g covered_one [OF v(1)] by (simp_all add: avail_def notify_free_def kv_good_def)
  then show ?thesis
    using g v True by (auto simp: token_free_def took_back_def kv_good_def) (simp_all add: notify_free_def)
next
  case False
  then show ?thesis using stage_keeps [OF g v] g by (auto simp: token_free_def took_back_def)
qed

lemma paged_free_law:
  assumes g: "kv_good ps a" and v: "distinct v" "once (avail a + covered ps v)"
  shows "\<exists>a'. paged_free v a = Inr a' \<and> took_back ps v a a'"
proof (cases "v = []")
  case True
  then show ?thesis using g by (simp add: paged_free_def took_back_def)
next
  case False
  have ps: "0 < ps" "pg_size a = ps" using g by (auto simp: kv_good_def)
  define u where "u = sort (remdups (map (\<lambda>s. s div ps) v))"
  have u: "page_slots ps u = covered ps v" by (simp add: u_def covered_def)
  define b where "b = (if is_not_in_free_group a then notify_free v
     (if need_sort a then a\<lparr>release_pages := u @ release_pages a\<rparr> else a\<lparr>free_pages := u @ free_pages a\<rparr>)
     else a\<lparr>free_group := free_group a @ [v]\<rparr>)"
  have t: "took_back ps v a b"
  proof (cases "is_not_in_free_group a")
    case True
    then have "avail b = avail a + covered ps v"
      using u ps by (auto simp: b_def avail_def notify_free_def ac_simps)
    then show ?thesis using True g v unfolding took_back_def kv_good_def by (auto simp: b_def notify_free_def)
  qed (simp add: b_def stage_keeps [OF g v])
  moreover have "distinct (free_pages b)"
  proof (rule once_page_slots [OF ps(1)])
    have "pg_size b = ps" "once (avail b)" using t unfolding took_back_def kv_good_def by blast+
    then show "once (page_slots ps (free_pages b))" by (simp add: avail_def once_plus)
  qed
  moreover have "paged_free v a = (if debug_mode b \<and> \<not> distinct (free_pages b) then Inl AssertionError else Inr b)"
    using False ps(2) by (simp add: paged_free_def Let_def b_def u_def)
  ultimately show ?thesis by simp
qed

interpretation token: kv_base token_free 1
  by unfold_locales (rule token_free_law)

interpretation paged: kv_base paged_free ps for ps
  by unfold_locales (rule paged_free_law)

interpretation token_release: kv_release "\<lambda>v a. lift_py (token_free v a)" 1 "kv_good 1" avail
proof
  fix a :: kv_pool and v
  assume "kv_good 1 a" "distinct v" "once (avail a + covered 1 v)"
  from token_free_law [OF this]
  show "\<exists>a'. lift_py (token_free v a) = Inr a' \<and> kv_good 1 a' \<and> avail a' = avail a + covered 1 v"
    by (auto simp: took_back_def)
qed simp

interpretation paged_release: kv_release "\<lambda>v a. lift_py (paged_free v a)" ps "kv_good ps" avail for ps
proof
  fix a :: kv_pool and v
  assume "kv_good ps a" "distinct v" "once (avail a + covered ps v)"
  from paged_free_law [OF this]
  show "\<exists>a'. lift_py (paged_free v a) = Inr a' \<and> kv_good ps a' \<and> avail a' = avail a + covered ps v"
    by (auto simp: took_back_def)
qed (simp add: kv_good_def)

section \<open>Allocation\<close>

lemma token_alloc_spec:
  assumes "kv_good 1 a" "token_alloc n a = (r, a')"
  shows "kv_good 1 a' \<and> pool_size a' = pool_size a \<and>
    (case r of None \<Rightarrow> avail a' = avail a \<and> length (free_pages a') < n
     | Some v \<Rightarrow> length v = n \<and> avail a = avail a' + mset v)"
proof -
  define b where "b = (if need_sort a \<and> length (free_pages a) < n then merge_and_sort_free a else a)"
  have b: "kv_good 1 b" "avail b = avail a" "pool_size b = pool_size a"
    using assms(1) same_slots_good [OF merge_same] by (simp_all add: b_def merge_keeps)
  have td: "page_slots 1 (take n (free_pages b)) + page_slots 1 (drop n (free_pages b)) = page_slots 1 (free_pages b)"
    by (rule page_slots_take_drop)
  then have "avail b = avail (b\<lparr>free_pages := drop n (free_pages b)\<rparr>) + mset (take n (free_pages b))"
    using b(1) by (simp add: avail_def kv_good_def ac_simps)
  then show ?thesis using assms(2) b unfolding token_alloc_def b_def [symmetric]
    by (auto simp: Let_def kv_good_def once_plus split: if_splits)
qed

lemma paged_alloc_spec:
  assumes "kv_good ps a" "paged_alloc n a = Inr (r, a')"
  shows "kv_good ps a' \<and> pool_size a' = pool_size a \<and>
    (case r of None \<Rightarrow> avail a' = avail a \<and> length (free_pages a') < n div ps
     | Some v \<Rightarrow> length v = n div ps * ps \<and> whole ps v \<and> avail a = avail a' + mset v)"
proof -
  define k where "k = n div ps"
  define b where "b = (if need_sort a \<and> length (free_pages a) < k then merge_and_sort_free a else a)"
  have b: "kv_good ps b" "avail b = avail a" "pool_size b = pool_size a"
    using assms(1) same_slots_good [OF merge_same] by (simp_all add: b_def merge_keeps)
  have ps: "pg_size a = ps" "pg_size b = ps" using assms(1) b(1) by (auto simp: kv_good_def)
  define v where "v = concat (map (page_of ps) (take k (free_pages b)))"
  have "avail b = avail (b\<lparr>free_pages := drop k (free_pages b)\<rparr>) + mset v"
    using page_slots_take_drop [of ps k "free_pages b"] ps
    by (simp add: avail_def v_def page_slots_def [symmetric] ac_simps)
  moreover have "whole ps v" "length v = min k (length (free_pages b)) * ps"
    unfolding v_def whole_def length_concat_pages by auto
  ultimately show ?thesis using assms(2) b
    unfolding paged_alloc_def ps(1) k_def [symmetric] b_def [symmetric] v_def [symmetric] Let_def
    by (auto simp: kv_good_def once_plus min_def split: if_splits)
qed

section \<open>Every run of an allocator\<close>

datatype kind = Token | Paged

definition pool_free :: "kind \<Rightarrow> nat list \<Rightarrow> kv_pool \<Rightarrow> kv_pool res" where
  "pool_free k = (case k of Token \<Rightarrow> token_free | Paged \<Rightarrow> paged_free)"

definition pool_alloc :: "kind \<Rightarrow> nat \<Rightarrow> kv_pool \<Rightarrow> (nat list option \<times> kv_pool) res" where
  "pool_alloc k n a = (case k of Token \<Rightarrow> Inr (token_alloc n a) | Paged \<Rightarrow> paged_alloc n a)"

definition pool_init :: "kind \<Rightarrow> nat \<Rightarrow> nat \<Rightarrow> bool \<Rightarrow> bool \<Rightarrow> kv_pool" where
  "pool_init k pool_len ps sort_needed debug =
     (case k of Token \<Rightarrow> token_init pool_len sort_needed | Paged \<Rightarrow> paged_init pool_len ps sort_needed debug)"

text \<open>The steps the scheduler can make, with the slots \<open>L\<close> that requests and caches hold: it frees
  slots of pages it holds, and may do so inside or outside a group, in any order; a partly listed
  page goes back as a whole.\<close>

inductive kv_step :: "kind \<Rightarrow> kv_pool \<times> nat multiset \<Rightarrow> kv_pool \<times> nat multiset \<Rightarrow> bool" for k where
  alloc: "pool_alloc k n a = Inr (Some v, a') \<Longrightarrow> kv_step k (a, L) (a', L + mset v)"
| refuse: "pool_alloc k n a = Inr (None, a') \<Longrightarrow> kv_step k (a, L) (a', L)"
| free: "distinct v \<Longrightarrow> covered (pg_size a) v \<subseteq># L \<Longrightarrow> pool_free k v a = Inr a' \<Longrightarrow>
     kv_step k (a, L) (a', L - covered (pg_size a) v)"
| begin_group: "free_group_begin (pool_free k) a = Inr a' \<Longrightarrow> kv_step k (a, L) (a', L)"
| end_group: "free_group_end (pool_free k) a = Inr a' \<Longrightarrow> kv_step k (a, L) (a', L)"
| flush: "flush_free_group (pool_free k) a = Inr (n, a') \<Longrightarrow> kv_step k (a, L) (a', L)"
| reclaim: "reclaim_abandoned_free_group (pool_free k) a = Inr (n, a') \<Longrightarrow> kv_step k (a, L) (a', L)"
| merge: "kv_step k (a, L) (merge_and_sort_free a, L)"
| bias: "set_owner_bias b a = Inr (n, a') \<Longrightarrow> kv_step k (a, L) (a', L)"
| grow: "grow_size n a = Inr a' \<Longrightarrow> kv_step k (a, L) (a', L)"

definition pool_inv :: "nat \<Rightarrow> kv_pool \<times> nat multiset \<Rightarrow> bool" where
  "pool_inv ps s = (case s of (a, L) \<Rightarrow> kv_good ps a \<and> ps dvd pool_size a \<and>
     avail a + L = page_slots ps [1..<pool_size a div ps + 1])"

lemma pool_inv_once: "pool_inv ps (a, L) \<Longrightarrow> once (avail a + L)"
proof -
  assume i: "pool_inv ps (a, L)"
  then have "once (page_slots ps [1..<pool_size a div ps + 1])"
    by (intro distinct_pages) (simp_all add: pool_inv_def kv_good_def)
  then show ?thesis using i by (simp only: pool_inv_def prod.case)
qed

lemma pool_free_law:
  assumes "kv_good ps a" "distinct v" "once (avail a + covered ps v)" "k = Token \<longrightarrow> ps = 1"
  shows "\<exists>a'. pool_free k v a = Inr a' \<and> took_back ps v a a'"
  using assms token_free_law paged_free_law by (cases k) (auto simp: pool_free_def)

lemma pool_base: "k = Token \<longrightarrow> ps = 1 \<Longrightarrow> kv_base (pool_free k) ps"
  by unfold_locales (rule pool_free_law)

lemma kv_step_inv:
  assumes "kv_step k s s'" "pool_inv ps s" and ps: "k = Token \<longrightarrow> ps = 1"
  shows "pool_inv ps s'"
  using assms(1,2)
proof (cases rule: kv_step.cases)
  case (alloc n a v a' L)
  have g: "kv_good ps a" using assms(2) alloc by (simp add: pool_inv_def)
  have "kv_good ps a' \<and> pool_size a' = pool_size a \<and> avail a = avail a' + mset v"
    using token_alloc_spec [of a n "Some v" a'] paged_alloc_spec [OF g, of n "Some v" a'] g ps alloc(3)
    by (cases k) (auto simp: pool_alloc_def)
  then show ?thesis using assms(2) alloc by (simp add: pool_inv_def ac_simps)
next
  case (refuse n a a' L)
  have g: "kv_good ps a" using assms(2) refuse by (simp add: pool_inv_def)
  have "kv_good ps a' \<and> pool_size a' = pool_size a \<and> avail a = avail a'"
    using token_alloc_spec [of a n None a'] paged_alloc_spec [OF g, of n None a'] g ps refuse(3)
    by (cases k) (auto simp: pool_alloc_def)
  then show ?thesis using assms(2) refuse by (simp add: pool_inv_def)
next
  case (free v a L a')
  have g: "kv_good ps a" "pg_size a = ps" using assms(2) free by (simp_all add: pool_inv_def kv_good_def)
  have L: "L = (L - covered ps v) + covered ps v" using free(4) g(2) by simp
  have "once (avail a + L)" using pool_inv_once assms(2) free(1) by blast
  then have "once (avail a + covered ps v)" by (subst (asm) L) (auto simp: once_plus)
  then obtain b where "pool_free k v a = Inr b" "took_back ps v a b"
    using pool_free_law [OF g(1) free(3) _ ps] by blast
  then have t: "took_back ps v a a'" using free(5) by simp
  have "avail a + covered ps v + (L - covered ps v) = avail a + L" using L by (metis add.assoc add.commute)
  then show ?thesis using assms(2) free(1,2) t g(2) by (simp add: pool_inv_def took_back_def add.assoc del: upt_Suc)
next
  case (begin_group a a' L)
  then show ?thesis using kv_base.group_begin [OF pool_base [OF ps], of a] assms(2) by (auto simp: pool_inv_def)
next
  case (end_group a a' L)
  then show ?thesis using kv_base.group_end [OF pool_base [OF ps], of a] assms(2) by (auto simp: pool_inv_def)
next
  case (flush a n a' L)
  then show ?thesis using kv_base.flush [OF pool_base [OF ps], of a] assms(2) by (auto simp: pool_inv_def)
next
  case (reclaim a n a' L)
  then show ?thesis using kv_base.reclaim [OF pool_base [OF ps], of a] assms(2) by (auto simp: pool_inv_def)
next
  case (merge a L)
  then show ?thesis using assms(2) same_slots_good [OF merge_same] by (simp add: pool_inv_def merge_keeps)
next
  case (bias b a n a' L)
  then obtain bb where a': "a' = snd (apply_owner_bias (a\<lparr>owner_bias := bb\<rparr>))"
    by (auto simp: set_owner_bias_def split: option.splits if_splits) (metis snd_conv)+
  have "avail (a\<lparr>owner_bias := bb\<rparr>) = avail a" by (simp add: avail_def)
  then show ?thesis using assms(2) bias a' by (simp add: pool_inv_def kv_good_def bias_keeps)
next
  case (grow n a a' L)
  have g: "kv_good ps a" and d: "ps dvd pool_size a" and
    tot: "avail a + L = page_slots ps [1..<pool_size a div ps + 1]" and p: "pg_size a = ps" "0 < ps"
    using assms(2) grow by (auto simp: pool_inv_def kv_good_def)
  show ?thesis
  proof (cases "n = pool_size a")
    case True
    then show ?thesis using assms(2) grow by (simp add: grow_size_def)
  next
    case False
    then have n: "pool_size a < n" "ps dvd n" and a': "a' = a\<lparr>free_pages := free_pages a @
        [pool_size a div ps + 1..<n div ps + 1], pool_size := n, num_pages := map_option (\<lambda>_. n div ps) (num_pages a)\<rparr>"
      using grow(3) p by (auto simp: grow_size_def Let_def mod_eq_0_iff_dvd split: if_splits)
    let ?f = "[pool_size a div ps + 1..<n div ps + 1]"
    have le: "pool_size a div ps \<le> n div ps" using n(1) by (simp add: div_le_mono)
    have av: "avail a' = avail a + page_slots ps ?f" using a' p by (simp add: avail_def ac_simps)
    have "[1..<n div ps + 1] = [1..<pool_size a div ps + 1] @ ?f"
      using le by (metis Suc_eq_plus1 add_le_mono1 le_add1 le_add2 le_add_diff_inverse upt_add_eq_append)
    then have sum: "avail a' + L = page_slots ps [1..<n div ps + 1]" using tot av by (simp add: ac_simps)
    moreover have "once (page_slots ps [1..<n div ps + 1])" using p by (intro distinct_pages) simp_all
    ultimately have "once (avail a')" by (metis once_plus)
    then show ?thesis using g n sum grow(2) a' by (simp add: pool_inv_def kv_good_def)
  qed
qed

lemma pool_init_inv:
  assumes "0 < ps" "ps dvd pool_len" "k = Token \<longrightarrow> ps = 1"
  shows "pool_inv ps (pool_init k pool_len ps sort_needed debug, {#})"
proof -
  have "once (page_slots ps [Suc 0..<Suc (pool_len div ps)])" using assms(1) by (intro distinct_pages) simp_all
  then show ?thesis using assms
    by (cases k) (auto simp: pool_inv_def pool_init_def token_init_def paged_init_def token_clear_def paged_clear_def
        notify_clear_def base_init_def kv_good_def avail_def)
qed

lemma kv_run_inv:
  assumes "(kv_step k)\<^sup>*\<^sup>* s s'" "pool_inv ps s" "k = Token \<longrightarrow> ps = 1"
  shows "pool_inv ps s'"
  using assms(1,2) by (induction rule: rtranclp_induct) (auto intro: kv_step_inv [OF _ _ assms(3)])

lemma size_page_slots: "size (page_slots ps qs) = length qs * ps"
  by (induction qs) auto

section \<open>Owner classes\<close>

lemma pick_classes_spec:
  "pick_classes m cs pages = Some picks \<Longrightarrow>
   length picks = length cs \<and> (\<forall>i<length cs. length (picks ! i) = snd (cs ! i) \<and>
     (\<exists>n. picks ! i = take n (filter (in_class (m, fst (cs ! i))) pages)))"
proof (induction m cs pages arbitrary: picks rule: pick_classes.induct)
  case (2 m lo hi need cs pages)
  then obtain ps where ps: "pick_classes m cs pages = Some ps" "picks = take need (filter (in_class (m, lo, hi)) pages) # ps"
    "need \<le> length (filter (in_class (m, lo, hi)) pages)"
    by (auto simp: Let_def split: if_splits)
  have "length (picks ! i) = snd ((((lo, hi), need) # cs) ! i) \<and>
      (\<exists>n. picks ! i = take n (filter (in_class (m, fst ((((lo, hi), need) # cs) ! i))) pages))"
    if "i < Suc (length cs)" for i
    using that ps(2,3) "2.IH" [OF refl _ ps(1)] by (cases i) auto
  then show ?case using ps(2) "2.IH" [OF refl _ ps(1)] ps(3) by auto
qed simp

text \<open>Disjoint classes pick different slots of a duplicate-free list.\<close>

lemma picks_distinct:
  assumes "pick_classes m cs pages = Some picks" "distinct pages"
    and "\<And>i j p. i < length cs \<Longrightarrow> j < length cs \<Longrightarrow> in_class (m, fst (cs ! i)) p \<Longrightarrow> in_class (m, fst (cs ! j)) p \<Longrightarrow> i = j"
  shows "distinct (concat picks)" "set (concat picks) \<subseteq> set pages"
proof -
  note P = pick_classes_spec [OF assms(1)]
  have sub: "set (picks ! i) \<subseteq> {p \<in> set pages. in_class (m, fst (cs ! i)) p}" if "i < length cs" for i
  proof -
    obtain n where "picks ! i = take n (filter (in_class (m, fst (cs ! i))) pages)" using P \<open>i < length cs\<close> by blast
    then show ?thesis using set_take_subset by fastforce
  qed
  then show "set (concat picks) \<subseteq> set pages" using P by (fastforce simp: in_set_conv_nth)
  have d: "distinct (picks ! i)" if "i < length cs" for i
  proof -
    obtain n where "picks ! i = take n (filter (in_class (m, fst (cs ! i))) pages)" using P \<open>i < length cs\<close> by blast
    then show ?thesis using assms(2) by (simp add: distinct_take)
  qed
  have disj: "set (picks ! i) \<inter> set (picks ! j) = {}" if "i < length cs" "j < length cs" "i \<noteq> j" for i j
    using sub [OF that(1)] sub [OF that(2)] assms(3) [OF that(1,2)] that(3) by blast
  have "distinct (concat (take n picks))" if "n \<le> length cs" for n
    using that
  proof (induction n)
    case (Suc n)
    have "set (concat (take n picks)) \<inter> set (picks ! n) = {}"
    proof -
      have "x \<notin> set (picks ! n)" if x: "x \<in> set (concat (take n picks))" for x
      proof -
        obtain w where "w \<in> set (take n picks)" "x \<in> set w" using x by auto
        then obtain i where "i < n" "x \<in> set (picks ! i)" by (auto simp: in_set_conv_nth [of w])
        then show ?thesis using disj [of i n] Suc.prems by auto
      qed
      then show ?thesis by blast
    qed
    then show ?case using Suc d [of n] P by (simp add: take_Suc_conv_app_nth)
  qed simp
  from this [of "length cs"] show "distinct (concat picks)" using P by simp
qed

lemma mset_filter_out: "distinct xs \<Longrightarrow> distinct ys \<Longrightarrow> set ys \<subseteq> set xs \<Longrightarrow>
    mset (filter (\<lambda>p. p \<notin> set ys) xs) + mset ys = mset xs"
proof -
  assume a: "distinct xs" "distinct ys" "set ys \<subseteq> set xs"
  have "distinct (filter (\<lambda>p. p \<notin> set ys) xs @ ys)" "set (filter (\<lambda>p. p \<notin> set ys) xs @ ys) = set xs"
    using a by auto
  then show ?thesis using set_eq_iff_mset_eq_distinct [OF _ a(1)] by (metis mset_append)
qed

section \<open>Properties\<close>



text \<open>C34: returning held slots never fails. In every reachable state of either allocator, inside or
  outside a free group, freeing slots of held pages succeeds, and exactly the pages they lie on
  become available: the duplicate check of the debug mode cannot fire.\<close>

theorem free_of_held_pages_succeeds:
  assumes "0 < ps" and "ps dvd pool_len" and "k = Token \<longrightarrow> ps = 1"
    and "(kv_step k)\<^sup>*\<^sup>* (pool_init k pool_len ps sort_needed debug, {#}) (a, L)"
    and "distinct v" and "covered ps v \<subseteq># L"
  shows "\<exists>a'. pool_free k v a = Inr a' \<and> avail a' = avail a + covered ps v"
proof -
  have i: "pool_inv ps (a, L)" by (rule kv_run_inv [OF assms(4) pool_init_inv [OF assms(1-3)] assms(3)])
  obtain M where "L = covered ps v + M" using assms(6) by (metis subset_mset.add_diff_inverse)
  then have "once (avail a + covered ps v)" using pool_inv_once [OF i] by (auto simp: once_plus)
  moreover have "kv_good ps a" using i by (simp add: pool_inv_def)
  ultimately show ?thesis using pool_free_law [OF _ assms(5) _ assms(3)] by (auto simp: took_back_def)
qed

theorem free_of_held_pages_succeeds_witness:
  "\<exists>a'. pool_free Paged [4] (snd (projr (paged_alloc 4 (pool_init Paged 8 2 False True)))) = Inr a'"
proof -
  let ?i = "pool_init Paged 8 2 False True"
  have "rbind (paged_alloc 4 ?i) (\<lambda>(r, a). Inr r) = Inr (Some [2, 3, 4, 5])" by code_simp
  then obtain a where a: "paged_alloc 4 ?i = Inr (Some [2, 3, 4, 5], a)" by (auto simp: rbind_Inr_iff)
  then have "pool_alloc Paged 4 ?i = Inr (Some [2, 3, 4, 5], a)" by (simp add: pool_alloc_def)
  from kv_step.alloc [OF this, of "{#}"]
  have r: "(kv_step Paged)\<^sup>*\<^sup>* (?i, {#}) (a, {#} + mset [2, 3, 4, 5])" by (rule r_into_rtranclp)
  have w: "covered 2 [4] = mset [4, 5]" by (simp add: covered_def page_of_def upt_rec)
  have "mset [2, 3, 4, 5 :: nat] = mset [4, 5] + mset [2, 3]" by simp
  then have "covered 2 [4] \<subseteq># {#} + mset [2, 3, 4, 5]" unfolding w by (simp only: add_0_left mset_subset_eq_add_left)
  from free_of_held_pages_succeeds [OF _ _ _ r _ this]
  have "\<exists>a'. pool_free Paged [4] a = Inr a' \<and> avail a' = avail a + covered 2 [4]" by simp
  then show ?thesis using a by auto
qed

text \<open>C35: the owner bias steers and nothing else. For a valid class and page size one, outside a free
  group, \<open>set_owner_bias\<close> returns the number of free slots of the class and leaves a list that
  starts with exactly these, in their old relative order (the sorted order if released slots had
  to be merged); the set of available slots is unchanged, and an allocation of at most that many
  slots is served from the class.\<close>

theorem owner_bias_steers:
  assumes "0 < m" "0 \<le> lo" "lo < hi" "hi \<le> m" and "pg_size a = 1" and "is_not_in_free_group a"
  defines "xs \<equiv> free_pages (merge_and_sort_free_unbiased a)"
  shows "\<exists>a'. set_owner_bias (Some (m, lo, hi)) a = Inr (length (filter (in_class (m, lo, hi)) xs), a') \<and>
    free_pages a' = filter (in_class (m, lo, hi)) xs @ filter (\<lambda>p. \<not> in_class (m, lo, hi) p) xs \<and>
    avail a' = avail a \<and>
    (\<forall>n\<le>length (filter (in_class (m, lo, hi)) xs). \<exists>v a''. token_alloc n a' = (Some v, a'') \<and>
       v = take n (filter (in_class (m, lo, hi)) xs))"
proof -
  let ?b = "a\<lparr>owner_bias := Some (m, lo, hi)\<rparr>" and ?P = "in_class (m, lo, hi)"
  have m: "merge_and_sort_free_unbiased ?b = (merge_and_sort_free_unbiased a)\<lparr>owner_bias := Some (m, lo, hi)\<rparr>"
    by (simp add: merge_and_sort_free_unbiased_def)
  define a' where "a' = snd (apply_owner_bias ?b)"
  have ap: "apply_owner_bias ?b = (length (filter ?P xs), a')" "free_pages a' = filter ?P xs @ filter (\<lambda>p. \<not> ?P p) xs"
    using apply_owner_bias_partition [of ?b "(m, lo, hi)"] assms(6) unfolding m by (simp_all add: a'_def xs_def)
  have "set_owner_bias (Some (m, lo, hi)) a = Inr (length (filter ?P xs), a')"
    using assms(1-5) ap(1) by (simp add: set_owner_bias_def)
  moreover have "avail a' = avail a" unfolding a'_def bias_keeps by (simp add: avail_def)
  moreover have "\<exists>v a''. token_alloc n a' = (Some v, a'') \<and> v = take n (filter ?P xs)" if "n \<le> length (filter ?P xs)" for n
    using that by (simp add: token_alloc_def ap(2) Let_def)
  ultimately show ?thesis using ap(2) by blast
qed

theorem owner_bias_steers_witness:
  "\<exists>a'. set_owner_bias (Some (4, 1, 3)) (pool_init Token 8 1 True False) = Inr (4, a') \<and>
     free_pages a' = [1, 2, 5, 6, 3, 4, 7, 8]"
proof -
  have "filter (in_class (4, 1, 3)) (free_pages (merge_and_sort_free_unbiased (pool_init Token 8 1 True False))) = [1, 2, 5, 6]"
    "filter (\<lambda>p. \<not> in_class (4, 1, 3) p) (free_pages (merge_and_sort_free_unbiased (pool_init Token 8 1 True False))) = [3, 4, 7, 8]"
    "pg_size (pool_init Token 8 1 True False) = 1" "is_not_in_free_group (pool_init Token 8 1 True False)"
    by code_simp+
  then show ?thesis using owner_bias_steers [of 4 1 3 "pool_init Token 8 1 True False"] by auto
qed



end
