(* ===== verification/Radix_Size.thy ===== *)
theory Radix_Size
  imports Radix_Evict
begin

text \<open>
  \<open>total_size\<close> and \<open>all_values_flatten\<close> of the radix cache: the two walks over the whole tree, the
  first with an explicit stack, the second recursive. The walk visits every node once, so the
  sizes the cache keeps incrementally are the true ones.
\<close>

text \<open>\<open>_dfs_helper\<close>: the values of the subtrees in the order of the children dictionaries; the
  recursion is bounded by the number of nodes.\<close>

fun dfs_values :: "nat \<Rightarrow> nat \<Rightarrow> radix_cache \<Rightarrow> nat list list rr" where
  "dfs_values 0 i c = Inl Diverges"
| "dfs_values (Suc fuel) i c =
     rbind (get_node i c) (\<lambda>n.
     rbind (rmap (\<lambda>(_, ch).
        rbind (get_node ch c) (\<lambda>m.
        rbind (get_value m) (\<lambda>v.
        rbind (dfs_values fuel ch c) (\<lambda>vs. Inr (v # vs))))) (children n)) (\<lambda>vss.
     Inr (concat vss)))"

definition all_values_flatten :: "radix_cache \<Rightarrow> nat list rr" where
  "all_values_flatten c =
     rbind (dfs_values (Suc (node_counter c)) (root_node c) c) (\<lambda>vs.
       if vs = [] then Inl (Py RuntimeError) else Inr (concat vs))"

section \<open>Children\<close>

lemma children_facts:
  assumes L: "lab ps big (shape c) r pre vpre" and n: "nodes c i = Some n"
  shows "distinct (map snd (children n))"
    "j \<in> snd ` set (children n) \<longleftrightarrow> nodes c j \<noteq> None \<and> j \<noteq> r \<and> par (shape c) j = i"
proof -
  note S = shape_Some [OF n]
  have dk: "distinct (map fst (children n))" using lab_distinct [OF L S] by simp
  have bk: "\<exists>m. shape c j = Some m \<and> j \<noteq> r \<and> par (shape c) j = i \<and> k = s_ck ps m"
    if "(k, j) \<in> set (children n)" for k j
  proof -
    have "map_of (s_children (skel n)) k = Some j" using that dk by simp
    then show ?thesis by (rule lab_child_of [OF L S]) blast
  qed
  have "inj_on snd (set (children n))"
  proof (rule inj_onI)
    fix x y assume xy: "x \<in> set (children n)" "y \<in> set (children n)" "snd x = snd y"
    obtain k j where x: "x = (k, j)" by fastforce
    obtain k' where y: "y = (k', j)" using xy(3) x by (metis snd_conv prod.collapse)
    show "x = y" using bk [of k j] bk [of k' j] xy x y by auto
  qed
  then show "distinct (map snd (children n))" using dk by (simp add: distinct_map)
  show "j \<in> snd ` set (children n) \<longleftrightarrow> nodes c j \<noteq> None \<and> j \<noteq> r \<and> par (shape c) j = i"
  proof
    assume "j \<in> snd ` set (children n)"
    then obtain k where "(k, j) \<in> set (children n)" by force
    then show "nodes c j \<noteq> None \<and> j \<noteq> r \<and> par (shape c) j = i" using bk by (fastforce simp: shape_Some_iff)
  next
    assume j: "nodes c j \<noteq> None \<and> j \<noteq> r \<and> par (shape c) j = i"
    then obtain m where m: "nodes c j = Some m" by blast
    obtain pn where p: "shape c (par (shape c) j) = Some pn"
      "map_of (s_children pn) (s_ck ps (skel m)) = Some j"
      by (rule lab_par [OF L shape_Some [OF m]]) (use j in blast)+
    then show "j \<in> snd ` set (children n)" using j S by (force dest: map_of_SomeD)
  qed
qed

lemma node_value:
  assumes L: "lab ps big (shape c) r pre vpre" and n: "nodes c i = Some n"
  obtains v where "nvalue n = Some v" "int (length v) = (if i = r then 0 else weight (shape c) i)"
proof (cases "i = r")
  case True
  then show ?thesis using that [of "[]"] lab_root [OF L] shape_Some [OF n] by auto
next
  case False
  obtain v where "s_value (skel n) = Some v" "length v = length (s_units (skel n))"
    by (rule lab_par [OF L shape_Some [OF n] False])
  then show ?thesis using that n False by (simp add: weight_def)
qed

section \<open>The walk with a stack\<close>

text \<open>\<open>V\<close> are the nodes popped so far.\<close>

definition dfs_inv :: "radix_cache \<Rightarrow> nat set \<Rightarrow> nat list \<Rightarrow> bool" where
  "dfs_inv c V stack \<longleftrightarrow> distinct stack \<and> V \<inter> set stack = {} \<and> V \<union> set stack \<subseteq> dom (nodes c) \<and>
     (\<forall>x\<in>dom (nodes c). x \<in> V \<union> set stack \<longleftrightarrow> x = root_node c \<or> par (shape c) x \<in> V)"

lemma dfs_inv_step:
  assumes L: "lab ps big (shape c) (root_node c) pre vpre" and D: "dfs_inv c V (stack @ [i])"
    and n: "nodes c i = Some n"
  shows "dfs_inv c (insert i V) (stack @ map snd (children n))"
proof -
  note ch = children_facts [OF L n]
  have i: "i \<notin> V" "i \<notin> set stack" using D by (auto simp: dfs_inv_def)
  have new: "j \<notin> V \<union> set (stack @ [i])" if "j \<in> snd ` set (children n)" for j
  proof -
    have "j \<in> dom (nodes c)" "j \<noteq> root_node c" "par (shape c) j = i" using that ch(2) by auto
    then show ?thesis using D i(1) unfolding dfs_inv_def by blast
  qed
  have "x \<in> insert i V \<union> set (stack @ map snd (children n)) \<longleftrightarrow> x = root_node c \<or> par (shape c) x \<in> insert i V"
    if x: "x \<in> dom (nodes c)" for x
  proof -
    have "x \<in> V \<union> set (stack @ [i]) \<longleftrightarrow> x = root_node c \<or> par (shape c) x \<in> V"
      using D x unfolding dfs_inv_def by blast
    moreover have "x \<in> snd ` set (children n) \<longleftrightarrow> x \<noteq> root_node c \<and> par (shape c) x = i" using ch(2) x by auto
    ultimately show ?thesis by auto
  qed
  moreover have "snd ` set (children n) \<subseteq> dom (nodes c)" using ch(2) by auto
  ultimately show ?thesis using D ch(1) new i unfolding dfs_inv_def by auto
qed

lemma dfs_inv_end:
  assumes L: "lab ps big (shape c) (root_node c) pre vpre" and D: "dfs_inv c V []"
  shows "V = dom (nodes c)"
proof
  show "V \<subseteq> dom (nodes c)" using D by (simp add: dfs_inv_def)
  have "x \<in> dom (nodes c) \<Longrightarrow> x \<in> V" for x
  proof (induction "length (pre x)" arbitrary: x rule: less_induct)
    case less
    then obtain n where n: "nodes c x = Some n" by blast
    show ?case
    proof (cases "x = root_node c")
      case False
      obtain pn where "shape c (par (shape c) x) = Some pn" "length (pre (par (shape c) x)) < length (pre x)"
        by (rule lab_par [OF L shape_Some [OF n] False])
      then have "par (shape c) x \<in> V" using less.hyps by (auto simp: shape_Some_iff)
      then show ?thesis using D less.prems unfolding dfs_inv_def by auto
    qed (use D less.prems in \<open>auto simp: dfs_inv_def\<close>)
  qed
  then show "dom (nodes c) \<subseteq> V" by blast
qed

lemma total_size_loop_spec:
  assumes L: "lab ps big (shape c) (root_node c) pre vpre" and fin: "finite (dom (nodes c))"
  shows "dfs_inv c V stack \<Longrightarrow> card (dom (nodes c) - V) < fuel \<Longrightarrow>
    total_size_loop fuel stack acc c =
      Inr (acc + (\<Sum>x\<in>dom (nodes c) - V. if x = root_node c then 0 else weight (shape c) x))"
proof (induction fuel arbitrary: V stack acc)
  case 0
  then show ?case by simp
next
  case (Suc fuel)
  let ?w = "\<lambda>x. if x = root_node c then 0 else weight (shape c) x"
  show ?case
  proof (cases stack rule: rev_cases)
    case Nil
    then show ?thesis using dfs_inv_end [OF L] Suc.prems(1) by simp
  next
    case (snoc st i)
    have "i \<in> dom (nodes c) - V" using Suc.prems(1) snoc by (auto simp: dfs_inv_def)
    then obtain n where n: "nodes c i = Some n" and iV: "i \<in> dom (nodes c) - V" by blast
    obtain v where v: "nvalue n = Some v" "int (length v) = ?w i" by (rule node_value [OF L n])
    have ne: "case nodes c j of None \<Rightarrow> False | Some m \<Rightarrow> \<not> evicted m" if "j \<in> snd ` set (children n)" for j
    proof -
      have "nodes c j \<noteq> None" using children_facts(2) [OF L n, of j] that by simp
      then obtain m where m: "nodes c j = Some m" by blast
      obtain w where "nvalue m = Some w" by (rule node_value [OF L m])
      then show ?thesis using m by (simp add: evicted_def)
    qed
    then have fl: "filter (\<lambda>j. case nodes c j of None \<Rightarrow> False | Some m \<Rightarrow> \<not> evicted m) (map snd (children n)) =
        map snd (children n)"
      by (intro filter_True) auto
    define A where "A = dom (nodes c) - insert i V"
    have A: "dom (nodes c) - V = insert i A" "i \<notin> A" "finite A" using iV fin by (auto simp: A_def)
    have "card A < fuel" using Suc.prems(2) A(2,3) unfolding A(1) by simp
    then have "total_size_loop fuel (st @ map snd (children n)) (acc + int (length v)) c =
        Inr (acc + int (length v) + sum ?w A)"
      using Suc.IH [OF dfs_inv_step [OF L _ n], of V st] Suc.prems(1) snoc unfolding A_def by blast
    moreover have "total_size_loop (Suc fuel) stack acc c =
        total_size_loop fuel (st @ map snd (children n)) (acc + int (length v)) c"
      using snoc n v(1) fl by simp
    moreover have "sum ?w (dom (nodes c) - V) = int (length v) + sum ?w A"
      unfolding A(1) v(2) using A(2,3) by (rule sum.insert [rotated])
    ultimately show ?thesis by simp
  qed
qed

lemma total_size_helper_spec:
  assumes "wf_cache cfg holds c"
  shows "total_size_helper c = Inr (evictable_sz c + protected_sz c)"
proof -
  obtain pre vpre where I: "cache_inv cfg holds c pre vpre" using assms by (auto simp: wf_cache_def)
  note L = invD(1) [OF I] and A = invD(3) [OF I]
  let ?D = "dom (nodes c)" and ?r = "root_node c"
  have fin: "finite ?D" using acctD(1) [OF A] by (simp add: dom_shape)
  have r: "?r \<in> ?D" using lab_root [OF L] by (auto simp: shape_Some_iff)
  have D: "dfs_inv c {} [?r]" using r by (auto simp: dfs_inv_def)
  have "card ?D < Suc (node_counter c)"
  proof -
    have "?D \<subseteq> {..<node_counter c}" using invD(4) [OF I] by auto
    from card_mono [OF _ this] show ?thesis by simp
  qed
  then have "total_size_helper c = Inr (\<Sum>x\<in>?D. if x = ?r then 0 else weight (shape c) x)"
    using total_size_loop_spec [OF L fin D, of "Suc (node_counter c)" 0] by (simp add: total_size_helper_def)
  also have "(\<Sum>x\<in>?D. if x = ?r then 0 else weight (shape c) x) = (\<Sum>x\<in>?D - {?r}. weight (shape c) x)"
    using fin r by (simp add: sum.remove)
  also have "\<dots> = ev_size (shape c) ?r + pr_size (shape c) ?r"
    unfolding ev_size_def pr_size_def dom_shape sum.distrib [symmetric] by (intro sum.cong) auto
  finally show ?thesis using acctD(2,3) [OF A] by simp
qed

section \<open>The recursive walk\<close>

lemma dfs_values_return:
  assumes L: "lab ps big (shape c) (root_node c) pre vpre" and fin: "finite (dom (nodes c))"
  shows "nodes c i \<noteq> None \<Longrightarrow> card {x \<in> dom (nodes c). length (pre i) < length (pre x)} < fuel \<Longrightarrow> \<exists>vs. dfs_values fuel i c = Inr vs"
proof (induction fuel arbitrary: i)
  case (Suc fuel)
  then obtain n where n: "nodes c i = Some n" by blast
  let ?f = "\<lambda>(_, ch). rbind (get_node ch c) (\<lambda>m. rbind (get_value m) (\<lambda>v. rbind (dfs_values fuel ch c) (\<lambda>vs. Inr (v # vs))))"
  have each: "\<exists>vs. ?f kc = Inr vs \<and> True" if "kc \<in> set (children n)" for kc
  proof -
    obtain k ch where kc: "kc = (k, ch)" by (cases kc)
    then have ch: "nodes c ch \<noteq> None" "ch \<noteq> root_node c" "par (shape c) ch = i" using children_facts(2) [OF L n, of ch] that by force+
    then obtain m where m: "nodes c ch = Some m" by blast
    obtain v where v: "nvalue m = Some v" by (rule node_value [OF L m])
    have lt: "length (pre i) < length (pre ch)" by (rule lab_par [OF L shape_Some [OF m] ch(2)]) (simp add: ch(3))
    have "card {x \<in> dom (nodes c). length (pre ch) < length (pre x)} < card {x \<in> dom (nodes c). length (pre i) < length (pre x)}"
      using fin lt m by (intro psubset_card_mono) auto
    then have "card {x \<in> dom (nodes c). length (pre ch) < length (pre x)} < fuel" using Suc.prems(2) by linarith
    then obtain vs where "dfs_values fuel ch c = Inr vs" using Suc.IH [OF ch(1)] by blast
    then show ?thesis using kc m v by (simp add: get_node_def get_value_def)
  qed
  have "\<exists>vss. rmap ?f (children n) = Inr vss \<and> list_all2 (\<lambda>_ _. True) (children n) vss" by (rule rmap_exists) (rule each)
  then obtain vss where "rmap ?f (children n) = Inr vss" by blast
  then show ?case using n by (simp add: get_node_def)
qed simp

lemma all_values_flatten_returns:
  assumes "wf_cache cfg holds c"
  shows "all_values_flatten c \<noteq> Inl Diverges"
proof -
  obtain pre vpre where I: "cache_inv cfg holds c pre vpre" using assms by (auto simp: wf_cache_def)
  note L = invD(1) [OF I]
  have fin: "finite (dom (nodes c))" using acctD(1) [OF invD(3) [OF I]] by (simp add: dom_shape)
  have r: "nodes c (root_node c) \<noteq> None" using lab_root [OF L] by (auto simp: shape_Some_iff)
  have "{x \<in> dom (nodes c). length (pre (root_node c)) < length (pre x)} \<subseteq> {..<node_counter c}" using invD(4) [OF I] by auto
  from card_mono [OF _ this] have "card {x \<in> dom (nodes c). length (pre (root_node c)) < length (pre x)} < Suc (node_counter c)" by simp
  then obtain vs where "dfs_values (Suc (node_counter c)) (root_node c) c = Inr vs" using dfs_values_return [OF L fin r] by blast
  then show ?thesis by (simp add: all_values_flatten_def)
qed

text \<open>The sizes add up. On a well-formed cache the walk over the whole tree ends, and the total
  it counts is the sum of the evictable and the protected size the cache keeps incrementally.\<close>

theorem total_size_is_evictable_plus_protected:
  assumes "wf_cache cfg holds c"
  shows "total_size_helper c = Inr (evictable_sz c + protected_sz c)"
  using assms by (rule total_size_helper_spec)

theorem total_size_is_evictable_plus_protected_witness:
  "total_size_helper demo_cache = Inr (evictable_sz demo_cache + protected_sz demo_cache) \<and>
   total_size_helper demo_cache = Inr 4"
  using total_size_is_evictable_plus_protected [OF demo_cache_wf] by (simp add: conjI) code_simp

end
