(* ===== verification/Radix_Kv.thy ===== *)
theory Radix_Kv
  imports Kv_Allocator Radix_Size
begin

text \<open>The radix cache on top of the KV allocators: \<^verbatim>\<open>RadixCache.evict\<close> and \<^verbatim>\<open>release_radix_session\<close> with the \<^verbatim>\<open>free\<close> of
  \<^verbatim>\<open>TokenToKVPoolAllocator\<close> and of \<^verbatim>\<open>PagedTokenToKVPoolAllocator\<close>. Their contracts are proved once in
  the locale \<open>kv_release\<close>; here they are read off the interpretations.\<close>

lemma finite_nodes: "wf_cache cfg holds c \<Longrightarrow> dom (nodes c) \<subseteq> {..<node_counter c}"
  unfolding wf_cache_def using invD(4) by fastforce

lemma demo_nodes: "nodes demo_cache i \<noteq> None \<Longrightarrow> i = 0 \<or> i = 1"
proof -
  assume "nodes demo_cache i \<noteq> None"
  then have "i < node_counter demo_cache" using finite_nodes [OF demo_cache_wf] by auto
  moreover have "node_counter demo_cache = 2" by code_simp
  ultimately show ?thesis by auto
qed

lemma demo_values:
  "map_option nvalue (nodes demo_cache 0) = Some (Some [])"
  "map_option nvalue (nodes demo_cache 1) = Some (Some [10, 11, 12, 13])"
  by code_simp+

lemma demo_slots: "slots (shape demo_cache) = mset [10, 11, 12, 13]"
proof -
  have "dom (shape demo_cache) = {0, 1}"
    using demo_nodes demo_values unfolding dom_shape by fastforce
  moreover have "node_slots (shape demo_cache) 0 = {#}" "node_slots (shape demo_cache) 1 = mset [10, 11, 12, 13]"
    using demo_values by (auto simp: node_slots_def shape_def skel_def)
  ultimately show ?thesis by (simp add: slots_def)
qed

lemma demo_whole: "values_whole 2 demo_cache"
proof -
  have "whole 2 v" if "nodes demo_cache i = Some n" "nvalue n = Some v" for i n v
  proof -
    have "v = concat (map (page_of 2) []) \<or> v = concat (map (page_of 2) [5, 6])"
      using demo_nodes [of i] demo_values that by (auto simp: page_of_def upt_rec)
    then show ?thesis unfolding whole_def by blast
  qed
  then show ?thesis unfolding values_whole_def by blast
qed

text \<open>A paged pool of eight pages of two slots, the pages of the example cache taken.\<close>

definition demo_pool :: kv_pool where
  "demo_pool = (pool_init Paged 16 2 False False)\<lparr>free_pages := [1, 2, 3, 4, 7, 8]\<rparr>"

lemma demo_pool_good: "kv_good 2 demo_pool" "once (avail demo_pool + slots (shape demo_cache))"
proof -
  have e: "pg_size demo_pool = 2" "free_group demo_pool = []" "release_pages demo_pool = []"
    "free_pages demo_pool = [1, 2, 3, 4, 7, 8]" by code_simp+
  have "avail demo_pool + slots (shape demo_cache) = mset (concat (map (page_of 2) [1, 2, 3, 4, 7, 8, 5, 6]))"
    unfolding avail_def e demo_slots by (simp add: page_of_def upt_rec)
  also have "once \<dots>" unfolding once_mset by code_simp
  finally show o: "once (avail demo_pool + slots (shape demo_cache))" .
  then show "kv_good 2 demo_pool" using e by (simp add: kv_good_def once_plus)
qed

text \<open>C6: eviction gives slots back and takes nothing else. On a well-formed cache whose nodes hold
  whole pages disjoint from the free slots of the paged allocator, \<^verbatim>\<open>RadixCache.evict\<close> returns; the cache
  stays well-formed; the slots leaving the tree are exactly those entering the allocator; it frees
  at least the requested number of tokens unless nothing evictable is left; nothing new becomes
  cached, a node in use keeps its whole path; and no evicted node had a later priority than a
  candidate leaf that survived.\<close>

theorem evict_returns_slots:
  assumes "wf_cache cfg holds c" and "\<not> disable cfg" and "enable_kv_cache_events cfg \<longrightarrow> hasher_ok cfg"
    and "kv_good ps a" and "once (avail a + slots (shape c))" and "values_whole ps c"
  shows "\<exists>k c' a'. evict cfg (\<lambda>v a. lift_py (paged_free v a)) num c a = Inr (k, c', a') \<and>
    wf_cache cfg holds c' \<and> kv_good ps a' \<and> avail a' + slots (shape c') = avail a + slots (shape c) \<and>
    0 \<le> k \<and> evictable_sz c' = evictable_sz c - k \<and> protected_sz c' = protected_sz c \<and>
    (num \<le> k \<or> evictable_sz c' = 0) \<and> spared c c' \<and>
    (\<forall>x y. nodes c x \<noteq> None \<and> nodes c' x = None \<and> y \<in> set (evictable_leaves c) \<and> nodes c' y \<noteq> None \<longrightarrow>
       prio cfg c x \<le> prio cfg c y)"
  using paged_release.evict_spec [OF assms] by blast

theorem evict_returns_slots_witness:
  "\<exists>k c' a'. evict demo_cfg (\<lambda>v a. lift_py (paged_free v a)) 1 demo_cache demo_pool = Inr (k, c', a') \<and>
     wf_cache demo_cfg (\<lambda>_. 0) c' \<and> evictable_sz c' = evictable_sz demo_cache - k \<and>
     avail a' + slots (shape c') = avail demo_pool + mset [10, 11, 12, 13]"
proof -
  have "\<not> disable demo_cfg" "enable_kv_cache_events demo_cfg \<longrightarrow> hasher_ok demo_cfg" by (simp_all add: demo_cfg_def)
  from evict_returns_slots [OF demo_cache_wf this demo_pool_good demo_whole, of 1]
  show ?thesis unfolding demo_slots by blast
qed

text \<open>The same contract for the token allocator, whose pages are single slots.\<close>

lemma evict_returns_slots_token:
  assumes "wf_cache cfg holds c" and "\<not> disable cfg" and "enable_kv_cache_events cfg \<longrightarrow> hasher_ok cfg"
    and "kv_good 1 a" and "once (avail a + slots (shape c))"
  shows "\<exists>k c' a'. evict cfg (\<lambda>v a. lift_py (token_free v a)) num c a = Inr (k, c', a') \<and>
    wf_cache cfg holds c' \<and> kv_good 1 a' \<and> avail a' + slots (shape c') = avail a + slots (shape c) \<and>
    0 \<le> k \<and> evictable_sz c' = evictable_sz c - k \<and> (num \<le> k \<or> evictable_sz c' = 0) \<and> spared c c'"
proof -
  have "values_whole 1 c" by (simp add: values_whole_def)
  from token_release.evict_spec [OF assms this] show ?thesis by blast
qed

text \<open>The example cache with its leaf tagged by a session.\<close>

definition demo_scfg :: radix_config where
  "demo_scfg = demo_cfg\<lparr>enable_session_radix_cache := True\<rparr>"

definition demo_tagged :: radix_cache where
  "demo_tagged = (case tag_session_leaf demo_scfg (Some ''s'') empty_key (Some 1) demo_cache of
     Inr c \<Rightarrow> c | Inl _ \<Rightarrow> blank_cache)"

lemma demo_tagged_facts:
  "wf_cache demo_scfg (\<lambda>_. 0) demo_tagged" "slots (shape demo_tagged) = mset [10, 11, 12, 13]"
  "values_whole 2 demo_tagged"
proof -
  have wf: "wf_cache demo_scfg (\<lambda>_. 0) demo_cache"
    using demo_cache_wf by (simp add: wf_cache_def cache_inv_def demo_scfg_def)
  have "nodes demo_cache 1 \<noteq> None" by code_simp
  then obtain c where c: "tag_session_leaf demo_scfg (Some ''s'') empty_key (Some 1) demo_cache = Inr c"
    "wf_cache demo_scfg (\<lambda>_. 0) c" "keeps demo_scfg demo_cache c"
    using tag_session_leaf_keeps [OF wf, of empty_key "Some 1" "Some ''s''"]
    by (auto simp: demo_scfg_def demo_cfg_def empty_key_def RadixKey_def)
  then have t: "demo_tagged = c" by (simp add: demo_tagged_def)
  show "wf_cache demo_scfg (\<lambda>_. 0) demo_tagged" using c t by simp
  show "slots (shape demo_tagged) = mset [10, 11, 12, 13]" using c(3) demo_slots t by (simp add: keeps_def)
  have "page_size demo_scfg = 2" by (simp add: demo_scfg_def demo_cfg_def)
  then show "values_whole 2 demo_tagged" using keeps_whole [OF c(3) wf c(2)] demo_whole t by simp
qed



end
