(* ===== verification/Kv_Requests.thy ===== *)
theory Kv_Requests
  imports Radix_Kv
begin

text \<open>
  Requests and the KV memory they hold: \<^verbatim>\<open>ReqToTokenPool\<close> (\<^verbatim>\<open>mem_cache/memory_pool.py\<close>), the length
  bookkeeping of \<^verbatim>\<open>Req\<close> (\<^verbatim>\<open>managers/schedule_batch.py\<close>), \<^verbatim>\<open>cache_finished_req\<close> and \<^verbatim>\<open>cache_unfinished_req\<close> of
  \<^verbatim>\<open>RadixCache\<close> and of the chunk caches (\<^verbatim>\<open>mem_cache/chunk_cache.py\<close>), and \<^verbatim>\<open>release_kv_cache\<close>
  (\<^verbatim>\<open>mem_cache/common.py\<close>). The row table is a list of rows. The allocator is the argument \<open>free\<close>.
  A row index of \<^verbatim>\<open>None\<close> is refused with \<open>TypeError\<close> where the source indexes with it; the callers
  test for it before. \<^verbatim>\<open>get_server_args().strip_thinking_cache\<close> is the argument \<open>strip\<close>.
\<close>

section \<open>Requests\<close>

record req =
  origin_input_ids :: "token list"
  output_ids :: "token list"
  full_untruncated_fill_ids :: "token list"
  extend_range :: "(nat \<times> nat) option"
  req_extra_key :: "string option"
  req_priority :: "int option"
  session_id :: "string option"
  req_pool_idx :: "nat option"
  prefix_indices :: "nat list"
  cache_protected_len :: nat
  last_node :: "nat option"
  kv_committed_len :: nat
  kv_allocated_len :: nat
  kv_committed_freed :: bool
  kv_overallocated_freed :: bool
  reasoning_tokens :: nat
  inflight_middle_chunks :: nat
  skip_radix_cache_insert :: bool
  kv_spilled_to_host :: bool
  swa_evict_floor :: nat
  swa_evicted_seqlen :: nat

definition cache_commit_len :: "bool \<Rightarrow> req \<Rightarrow> nat" where
  "cache_commit_len strip r =
     (if strip \<and> 0 < reasoning_tokens r then min (kv_committed_len r) (length (origin_input_ids r))
      else kv_committed_len r)"

definition pop_committed_kv_cache :: "bool \<Rightarrow> req \<Rightarrow> (nat \<times> req) rr" where
  "pop_committed_kv_cache strip r =
     (if kv_committed_freed r then Inl (Py AssertionError)
      else Inr (cache_commit_len strip r, r\<lparr>kv_committed_freed := True\<rparr>))"

definition pop_overallocated_kv_cache :: "bool \<Rightarrow> req \<Rightarrow> ((nat \<times> nat) \<times> req) rr" where
  "pop_overallocated_kv_cache strip r =
     (if kv_overallocated_freed r then Inl (Py AssertionError)
      else Inr ((cache_commit_len strip r, kv_allocated_len r), r\<lparr>kv_overallocated_freed := True\<rparr>))"

definition set_extend_range :: "nat \<Rightarrow> nat \<Rightarrow> req \<Rightarrow> req" where
  "set_extend_range s e r = r\<lparr>extend_range := Some (s, e)\<rparr>"

definition range_end :: "req \<Rightarrow> nat rr" where
  "range_end r = (case extend_range r of None \<Rightarrow> Inl AttributeError | Some (s, e) \<Rightarrow> Inr e)"

definition get_fill_ids :: "req \<Rightarrow> token list rr" where
  "get_fill_ids r = rbind (range_end r) (\<lambda>e. Inr (take e (full_untruncated_fill_ids r)))"

text \<open>\<open>aliased\<close> tells whether the fill array is the origin array itself.\<close>

definition refresh_fill_ids :: "bool \<Rightarrow> req \<Rightarrow> req" where
  "refresh_fill_ids aliased r =
     (let n_have_output = int (length (full_untruncated_fill_ids r)) - int (length (origin_input_ids r)) in
      if \<not> aliased \<and> 0 \<le> n_have_output \<and> n_have_output \<le> int (length (output_ids r))
      then r\<lparr>full_untruncated_fill_ids := full_untruncated_fill_ids r @ drop (nat n_have_output) (output_ids r)\<rparr>
      else r\<lparr>full_untruncated_fill_ids := origin_input_ids r @ output_ids r\<rparr>)"

section \<open>The row pool\<close>

record req_pool =
  rp_size :: nat
  rp_alloc_size :: nat
  max_context_len :: nat
  req_to_token :: "nat list list"
  rp_free_slots :: "nat list"
  req_generation :: "nat list"

definition rp_init :: "nat \<Rightarrow> nat \<Rightarrow> req_pool" where
  "rp_init sz ctx =
     \<lparr>rp_size = sz, rp_alloc_size = sz + 1, max_context_len = ctx,
      req_to_token = replicate (sz + 1) (replicate ctx 0),
      rp_free_slots = [1..<sz + 1], req_generation = replicate (sz + 1) 0\<rparr>"

definition rp_available_size :: "req_pool \<Rightarrow> nat" where
  "rp_available_size p = length (rp_free_slots p)"

definition rp_row :: "nat option \<Rightarrow> req_pool \<Rightarrow> nat list rr" where
  "rp_row idx p =
     (case idx of None \<Rightarrow> Inl TypeError
      | Some i \<Rightarrow> if i < length (req_to_token p) then Inr (req_to_token p ! i) else Inl (Py IndexError))"

text \<open>\<open>write((idx, slice(s, e)), values)\<close>: a slice of the wrong length is refused by the tensor library.\<close>

definition rp_write :: "nat option \<Rightarrow> nat \<Rightarrow> nat \<Rightarrow> nat list \<Rightarrow> req_pool \<Rightarrow> req_pool rr" where
  "rp_write idx s e vals p =
     rbind (rp_row idx p) (\<lambda>row.
       let e' = min e (length row) in
       if length vals \<noteq> e' - s then Inl (Py RuntimeError)
       else Inr (p\<lparr>req_to_token := (req_to_token p)[the idx := take s row @ vals @ drop (s + length vals) row]\<rparr>))"

fun assign_rows :: "nat list \<Rightarrow> req list \<Rightarrow> nat list \<Rightarrow> req list \<times> nat list" where
  "assign_rows sel [] gens = ([], gens)"
| "assign_rows sel (r # rs) gens =
     (case req_pool_idx r of
        Some i \<Rightarrow> (let (rs', g) = assign_rows sel rs gens in (r # rs', g))
      | None \<Rightarrow>
          (let i = hd sel;
               (rs', g) = assign_rows (tl sel) rs (gens[i := gens ! i + 1])
           in (r\<lparr>req_pool_idx := Some i\<rparr> # rs', g)))"

definition rp_alloc :: "req list \<Rightarrow> req_pool \<Rightarrow> (nat option list option \<times> req list \<times> req_pool) rr" where
  "rp_alloc reqs p =
     (let reusing = filter (\<lambda>r. req_pool_idx r \<noteq> None) reqs in
      if \<not> list_all (\<lambda>r. 0 < inflight_middle_chunks r \<or> 0 < kv_committed_len r) reusing
      then Inl (Py AssertionError)
      else
        let need_size = length reqs - length reusing in
        if length (rp_free_slots p) < need_size then Inr (None, reqs, p)
        else
          let select_index = take need_size (rp_free_slots p);
              (reqs', gens) = assign_rows select_index reqs (req_generation p)
          in Inr (Some (map req_pool_idx reqs'), reqs',
                  p\<lparr>rp_free_slots := drop need_size (rp_free_slots p), req_generation := gens\<rparr>))"

definition rp_free_slot :: "int option \<Rightarrow> bool \<Rightarrow> req_pool \<Rightarrow> req_pool rr" where
  "rp_free_slot idx prepend p =
     (case idx of
        None \<Rightarrow> Inl (Py ValueError)
      | Some i \<Rightarrow>
          if \<not> (0 \<le> i \<and> i < int (rp_alloc_size p)) then Inl (Py ValueError)
          else if nat i \<in> set (rp_free_slots p) then Inl (Py ValueError)
          else if prepend then Inr (p\<lparr>rp_free_slots := nat i # rp_free_slots p\<rparr>)
          else Inr (p\<lparr>rp_free_slots := rp_free_slots p @ [nat i]\<rparr>))"

definition rp_free :: "req \<Rightarrow> req_pool \<Rightarrow> (req \<times> req_pool) rr" where
  "rp_free r p =
     (case req_pool_idx r of
        None \<Rightarrow> Inl (Py AssertionError)
      | Some i \<Rightarrow> rbind (rp_free_slot (Some (int i)) False p) (\<lambda>p'. Inr (r\<lparr>req_pool_idx := None\<rparr>, p')))"

definition rp_clear :: "req_pool \<Rightarrow> req_pool" where
  "rp_clear p =
     p\<lparr>rp_free_slots := [1..<rp_alloc_size p], req_generation := map (\<lambda>_. 0) (req_generation p),
       req_to_token := map (map (\<lambda>_. 0)) (req_to_token p)\<rparr>"

section \<open>Caching a request in the radix tree\<close>

definition req_key :: "radix_config \<Rightarrow> token list \<Rightarrow> req \<Rightarrow> radix_key" where
  "req_key cfg ids r =
     page_aligned (page_size cfg) (RadixKey ids (req_extra_key r) (is_eagle cfg) None)"

definition cache_finished_req ::
  "radix_config \<Rightarrow> (nat list \<Rightarrow> 'a \<Rightarrow> 'a rr) \<Rightarrow> bool \<Rightarrow> bool \<Rightarrow> req_pool \<Rightarrow> req \<Rightarrow> radix_cache \<Rightarrow> 'a \<Rightarrow>
   (req \<times> radix_cache \<times> 'a) rr" where
  "cache_finished_req cfg free strip is_insert p r c a =
     (let is_insert = (is_insert \<and> \<not> disable_finished_insert cfg) in
      rbind (pop_committed_kv_cache strip r) (\<lambda>(committed, r1).
      rbind (rp_row (req_pool_idx r) p) (\<lambda>row.
      if disable cfg then rbind (free (take committed row) a) (\<lambda>a1. Inr (r1, c, a1))
      else
        let ids = take committed (origin_input_ids r @ output_ids r);
            kv_indices = take (length ids) row;
            radix_key = req_key cfg ids r;
            len = key_len radix_key;
            vals = take len kv_indices
        in rbind (if is_insert
                  then rbind (radix_insert cfg radix_key (Some vals)
                                (case req_priority r of None \<Rightarrow> 0 | Some q \<Rightarrow> q) False c) (\<lambda>((prefix_len, leaf), c1).
                       rbind (free (drop (cache_protected_len r) (take prefix_len kv_indices)) a) (\<lambda>a1.
                       Inr (leaf, c1, a1)))
                  else rbind (free (drop (cache_protected_len r) (take len kv_indices)) a) (\<lambda>a1. Inr (None, c, a1)))
             (\<lambda>(session_leaf, c1, a1).
           rbind (free (drop len kv_indices) a1) (\<lambda>a2.
           rbind (tag_session_leaf cfg (session_id r) radix_key session_leaf c1) (\<lambda>c2.
           case last_node r of
             None \<Rightarrow> Inr (r1, c2, a2)
           | Some i \<Rightarrow> rbind (dec_lock_ref cfg i c2) (\<lambda>(_, c3). Inr (r1, c3, a2))))))))"

definition cache_unfinished_req ::
  "radix_config \<Rightarrow> (nat list \<Rightarrow> 'a \<Rightarrow> 'a rr) \<Rightarrow> bool \<Rightarrow> req_pool \<Rightarrow> req \<Rightarrow> radix_cache \<Rightarrow> 'a \<Rightarrow>
   (req \<times> req_pool \<times> radix_cache \<times> 'a) rr" where
  "cache_unfinished_req cfg free chunked p r c a =
     (if disable cfg then Inr (r, p, c, a)
      else
        rbind (get_fill_ids r) (\<lambda>ids.
        rbind (rp_row (req_pool_idx r) p) (\<lambda>row.
        let kv_indices = take (length ids) row;
            radix_key = req_key cfg ids r;
            vals = take (key_len radix_key) kv_indices
        in rbind (radix_insert cfg radix_key (Some vals)
                   (case req_priority r of None \<Rightarrow> 0 | Some q \<Rightarrow> q) chunked c) (\<lambda>((new_prefix_len, _), c1).
           rbind (free (drop (cache_protected_len r) (take new_prefix_len kv_indices)) a) (\<lambda>a1.
           rbind (match_prefix cfg radix_key c1) (\<lambda>((new_indices, new_last_node), c2).
           if length new_indices \<noteq> key_len radix_key then Inl (Py AssertionError)
           else
             rbind (rp_write (req_pool_idx r) (cache_protected_len r) (length new_indices)
                      (drop (cache_protected_len r) new_indices) p) (\<lambda>p1.
             case last_node r of
               None \<Rightarrow> Inl AttributeError
             | Some i \<Rightarrow>
                 rbind (dec_lock_ref cfg i c2) (\<lambda>(_, c3).
                 rbind (inc_lock_ref cfg new_last_node c3) (\<lambda>(_, c4).
                 let prefix = (if length new_indices < length kv_indices
                               then new_indices @ drop (length new_indices) kv_indices else new_indices);
                     r1 = r\<lparr>cache_protected_len := length new_indices, prefix_indices := prefix,
                            last_node := Some new_last_node\<rparr>
                 in rbind (tag_session_leaf cfg (session_id r) radix_key (Some new_last_node) c4) (\<lambda>c5.
                    Inr (r1, p1, c5, a1)))))))))))"

section \<open>The chunk caches\<close>

definition chunk_cache_finished_req ::
  "(nat list \<Rightarrow> 'a \<Rightarrow> 'a rr) \<Rightarrow> bool \<Rightarrow> req_pool \<Rightarrow> req \<Rightarrow> 'a \<Rightarrow> (req \<times> 'a) rr" where
  "chunk_cache_finished_req free strip p r a =
     rbind (pop_committed_kv_cache strip r) (\<lambda>(committed, r1).
     rbind (rp_row (req_pool_idx r) p) (\<lambda>row.
     rbind (free (take committed row) a) (\<lambda>a1. Inr (r1, a1))))"

definition chunk_cache_unfinished_req :: "req_pool \<Rightarrow> req \<Rightarrow> req rr" where
  "chunk_cache_unfinished_req p r =
     rbind (range_end r) (\<lambda>e. rbind (rp_row (req_pool_idx r) p) (\<lambda>row.
     Inr (r\<lparr>prefix_indices := take e row\<rparr>)))"

definition pure_swa_finished_req ::
  "(nat list \<Rightarrow> 'a \<Rightarrow> 'a rr) \<Rightarrow> bool \<Rightarrow> req_pool \<Rightarrow> req \<Rightarrow> 'a \<Rightarrow> (req \<times> 'a) rr" where
  "pure_swa_finished_req free strip p r a =
     rbind (pop_committed_kv_cache strip r) (\<lambda>(committed, r1).
     rbind (rp_row (req_pool_idx r) p) (\<lambda>row.
     let kv_indices = take committed row;
         evict_floor = swa_evict_floor r;
         evicted_seqlen = swa_evicted_seqlen r
     in if evict_floor < evicted_seqlen
        then
          let parts = (if 0 < evict_floor then [take evict_floor kv_indices] else []) @
                      (if evicted_seqlen < committed then [drop evicted_seqlen kv_indices] else [])
          in if parts = [] then Inr (r1, a) else rbind (free (concat parts) a) (\<lambda>a1. Inr (r1, a1))
        else rbind (free kv_indices a) (\<lambda>a1. Inr (r1, a1))))"

text \<open>A request that must not be inserted, or whose tail lives on the host, only advances its prefix.\<close>

definition maybe_cache_unfinished_req ::
  "radix_config \<Rightarrow> (nat list \<Rightarrow> 'a \<Rightarrow> 'a rr) \<Rightarrow> bool \<Rightarrow> req_pool \<Rightarrow> req \<Rightarrow> radix_cache \<Rightarrow> 'a \<Rightarrow>
   (req \<times> req_pool \<times> radix_cache \<times> 'a) rr" where
  "maybe_cache_unfinished_req cfg free chunked p r c a =
     (if skip_radix_cache_insert r \<or> kv_spilled_to_host r
      then rbind (chunk_cache_unfinished_req p r) (\<lambda>r1. Inr (r1, p, c, a))
      else cache_unfinished_req cfg free chunked p r c a)"

section \<open>Releasing a request\<close>

definition ceil_align :: "nat \<Rightarrow> nat \<Rightarrow> nat" where
  "ceil_align x align = (x + align - 1) div align * align"

text \<open>\<open>release_kv_cache\<close> over a radix cache without Mamba states. \<open>spec\<close>: a speculative algorithm is
  configured. A request whose KV was spilled to the host is handed to the offload manager, the
  argument \<open>release_spilled\<close>.\<close>

definition release_kv_cache ::
  "radix_config \<Rightarrow> (nat list \<Rightarrow> 'a \<Rightarrow> 'a rr) \<Rightarrow>
   (req \<Rightarrow> req_pool \<Rightarrow> radix_cache \<Rightarrow> 'a \<Rightarrow> (req \<times> req_pool \<times> radix_cache \<times> 'a) rr) \<Rightarrow> bool \<Rightarrow> bool \<Rightarrow> bool \<Rightarrow>
   req \<Rightarrow> req_pool \<Rightarrow> radix_cache \<Rightarrow> 'a \<Rightarrow> (req \<times> req_pool \<times> radix_cache \<times> 'a) rr" where
  "release_kv_cache cfg free release_spilled strip spec is_insert r p c a =
     (if req_pool_idx r = None then Inl (Py AssertionError)
      else if kv_spilled_to_host r then release_spilled r p c a
      else
        rbind (cache_finished_req cfg free strip (is_insert \<and> \<not> skip_radix_cache_insert r) p r c a) (\<lambda>(r1, c1, a1).
        if req_pool_idx r1 = None then Inr (r1, p, c1, a1)
        else
          rbind (pop_overallocated_kv_cache strip r1) (\<lambda>((start_p, end_p), r2).
          if \<not> spec \<and> \<not> strip \<and> start_p \<noteq> end_p then Inl (Py AssertionError)
          else
            let start_q = (if 1 < page_size cfg then ceil_align start_p (page_size cfg) else start_p)
            in rbind (if start_q < end_p
                      then rbind (rp_row (req_pool_idx r2) p) (\<lambda>row. free (drop start_q (take end_p row)) a1)
                      else Inr a1) (\<lambda>a2.
               rbind (rp_free r2 p) (\<lambda>(r3, p1). Inr (r3, p1, c1, a2))))))"

section \<open>Runs of pages\<close>

text \<open>The slots of a sequence: pages \<open>qs\<close> in order, the last one perhaps only partly used.\<close>

definition paged_run :: "nat \<Rightarrow> nat list \<Rightarrow> nat list \<Rightarrow> bool" where
  "paged_run ps qs v \<longleftrightarrow> distinct qs \<and> length qs = num_pages_of ps (length v) \<and>
     v = take (length v) (concat (map (page_of ps) qs))"

lemma num_pages_shift:
  assumes "0 < ps" "ps dvd k"
  shows "num_pages_of ps (k + j) = k div ps + num_pages_of ps j"
proof -
  obtain q where q: "k = ps * q" using assms(2) by blast
  have "num_pages_of ps (k + j) = (q * ps + (j + ps - 1)) div ps"
    using assms(1) by (simp add: num_pages_of_def q mult.commute add.assoc)
  also have "\<dots> = q + num_pages_of ps j"
    using assms(1) unfolding num_pages_of_def by (subst div_mult_self3) simp_all
  finally show ?thesis using assms(1) q by simp
qed

lemma num_pages_0 [simp]: "num_pages_of ps 0 = 0"
  by (cases ps) (simp_all add: num_pages_of_def)

lemma num_pages_dvd: "0 < ps \<Longrightarrow> ps dvd k \<Longrightarrow> num_pages_of ps k = k div ps"
  using num_pages_shift [of ps k 0] by simp

lemma run_take:
  assumes "0 < ps" "paged_run ps qs v" "n \<le> length v"
  shows "paged_run ps (take (num_pages_of ps n) qs) (take n v)"
proof -
  let ?k = "num_pages_of ps n"
  have v: "v = take (length v) (concat (map (page_of ps) qs))" "length qs = num_pages_of ps (length v)" "distinct qs"
    using assms(2) by (simp_all add: paged_run_def)
  have "take n v = take n (concat (map (page_of ps) qs))" using v(1) assms(3) by (metis min.absorb1 take_take)
  also have "\<dots> = take n (take (?k * ps) (concat (map (page_of ps) qs)))"
    using num_pages_of_bounds(1) [OF assms(1), of n] by (simp add: min_absorb1)
  also have "\<dots> = take n (concat (map (page_of ps) (take ?k qs)))" by (simp only: take_concat_pages)
  finally have t: "take n v = take n (concat (map (page_of ps) (take ?k qs)))" .
  have n: "length (take n v) = n" using assms(3) by simp
  show ?thesis unfolding paged_run_def n
    by (intro conjI t) (use v(2,3) num_pages_of_mono [OF assms(3), of ps] in simp_all)
qed

lemma run_drop:
  assumes "0 < ps" "paged_run ps qs v" "k \<le> length v" "ps dvd k"
  shows "paged_run ps (drop (k div ps) qs) (drop k v)"
proof -
  have v: "v = take (length v) (concat (map (page_of ps) qs))" "length qs = num_pages_of ps (length v)" "distinct qs"
    using assms(2) by (simp_all add: paged_run_def)
  have k: "k = k div ps * ps" using assms(4) by simp
  have "drop k v = take (length v - k) (drop k (concat (map (page_of ps) qs)))"
    using v(1) by (metis drop_take)
  also have "drop k (concat (map (page_of ps) qs)) = concat (map (page_of ps) (drop (k div ps) qs))"
    using drop_concat_pages [of "k div ps" ps qs] k by simp
  finally have d: "drop k v = take (length v - k) (concat (map (page_of ps) (drop (k div ps) qs)))" .
  have "num_pages_of ps (length v) = k div ps + num_pages_of ps (length v - k)"
    using num_pages_shift [OF assms(1,4), of "length v - k"] assms(3) by simp
  then show ?thesis unfolding paged_run_def length_drop by (intro conjI d) (use v(2,3) in simp_all)
qed

lemma take_covers_page:
  assumes "0 < ps" "0 < n" "n \<le> ps"
  shows "covered ps (take n (page_of ps q)) = mset (page_of ps q)"
proof -
  have "set (map (\<lambda>s. s div ps) (take n (page_of ps q))) = {q}"
  proof
    show "set (map (\<lambda>s. s div ps) (take n (page_of ps q))) \<subseteq> {q}" by (auto simp: page_of_mem dest: in_set_takeD)
    have "q * ps \<in> set (take n (page_of ps q))" using assms by (auto simp: page_of_def take_map)
    then have "q * ps div ps \<in> set (map (\<lambda>s. s div ps) (take n (page_of ps q)))" by (metis image_eqI list.set_map)
    then show "{q} \<subseteq> set (map (\<lambda>s. s div ps) (take n (page_of ps q)))" using assms(1) by simp
  qed
  then have "mset (remdups (map (\<lambda>s. s div ps) (take n (page_of ps q)))) = mset [q]"
    by (intro set_eq_iff_mset_eq_distinct [THEN iffD1]) auto
  from page_slots_mset [OF this, of ps] show ?thesis by (simp add: covered_def)
qed

lemma take_covered:
  "0 < ps \<Longrightarrow> distinct qs \<Longrightarrow> n \<le> length qs * ps \<Longrightarrow>
   covered ps (take n (concat (map (page_of ps) qs))) = page_slots ps (take (num_pages_of ps n) qs)"
proof (induction qs arbitrary: n)
  case (Cons q qs)
  show ?case
  proof (cases "n \<le> ps")
    case True
    have "num_pages_of ps n = (if n = 0 then 0 else 1)"
      using True Cons.prems(1) num_pages_of_alt [of ps n] by (cases "n = ps") auto
    then show ?thesis using True Cons.prems(1) take_covers_page [of ps n q] by (cases "n = 0") simp_all
  next
    case False
    let ?w = "take (n - ps) (concat (map (page_of ps) qs))"
    have w: "covered ps ?w = page_slots ps (take (num_pages_of ps (n - ps)) qs)"
      using Cons.IH [of "n - ps"] Cons.prems False by simp
    have q: "covered ps (page_of ps q) = page_slots ps [q]"
      using take_covers_page [OF Cons.prems(1,1), of q] by simp
    have "once (page_slots ps (q # take (num_pages_of ps (n - ps)) qs))"
      using Cons.prems by (intro distinct_pages) (auto dest: in_set_takeD)
    then have "covered ps (page_of ps q @ ?w) = page_slots ps [q] + page_slots ps (take (num_pages_of ps (n - ps)) qs)"
      using covered_append [OF Cons.prems(1), of "page_of ps q" ?w] unfolding q w by simp
    moreover have "num_pages_of ps n = Suc (num_pages_of ps (n - ps))"
      using num_pages_shift [OF Cons.prems(1), of ps "n - ps"] False Cons.prems(1) by simp
    ultimately show ?thesis using False by simp
  qed
qed simp

lemma run_covered: "0 < ps \<Longrightarrow> paged_run ps qs v \<Longrightarrow> covered ps v = page_slots ps qs"
proof -
  assume a: "0 < ps" "paged_run ps qs v"
  have "length v \<le> length qs * ps" using a num_pages_of_bounds(1) [OF a(1), of "length v"] by (simp add: paged_run_def)
  from take_covered [OF a(1) _ this] show ?thesis using a(2) by (simp add: paged_run_def)
qed

lemma run_distinct: "0 < ps \<Longrightarrow> paged_run ps qs v \<Longrightarrow> distinct v"
  using distinct_pages [of ps qs] unfolding paged_run_def page_slots_def once_mset by (metis distinct_take)

lemma run_whole:
  assumes "0 < ps" "paged_run ps qs v" "ps dvd length v"
  shows "whole ps v"
proof -
  have "length qs * ps = length v" using assms num_pages_dvd [OF assms(1,3)] by (simp add: paged_run_def)
  then have "v = concat (map (page_of ps) qs)"
    using assms(2) length_concat_pages [of ps qs] unfolding paged_run_def by (metis order_refl take_all)
  then show ?thesis unfolding whole_def by blast
qed

text \<open>A run cut at two page boundaries.\<close>

lemma run_split:
  assumes ps: "0 < ps" and r: "paged_run ps qs v" and x: "ps dvd x" "ps dvd y" "x \<le> y" "y \<le> length v"
  shows "page_slots ps qs = covered ps (take x v) + mset (take (y - x) (drop x v)) + covered ps (drop y v)"
    "whole ps (take (y - x) (drop x v))"
    "covered ps (drop y v) = page_slots ps (drop (y div ps) qs)"
proof -
  have d: "ps dvd y - x" "x div ps + (y - x) div ps = y div ps"
    using x(1-3) div_add [of ps x "y - x"] by (simp_all add: dvd_diff_nat)
  have m: "paged_run ps (take ((y - x) div ps) (drop (x div ps) qs)) (take (y - x) (drop x v))"
    using run_take [OF ps run_drop [OF ps r _ x(1)], of "y - x"] x num_pages_dvd [OF ps d(1)] by simp
  show w: "whole ps (take (y - x) (drop x v))" by (rule run_whole [OF ps m]) (use x d in simp)
  show t: "covered ps (drop y v) = page_slots ps (drop (y div ps) qs)"
    by (rule run_covered [OF ps run_drop [OF ps r x(4,2)]])
  have h: "covered ps (take x v) = page_slots ps (take (x div ps) qs)"
    using run_covered [OF ps run_take [OF ps r, of x]] x num_pages_dvd [OF ps x(1)] by simp
  have "mset (take (y - x) (drop x v)) = page_slots ps (take ((y - x) div ps) (drop (x div ps) qs))"
    using covered_whole [OF ps w run_distinct [OF ps m]] run_covered [OF ps m] by simp
  moreover have "page_slots ps qs = page_slots ps (take (x div ps) qs) +
      (page_slots ps (take ((y - x) div ps) (drop (x div ps) qs)) + page_slots ps (drop (y div ps) qs))"
    unfolding d(2) [symmetric] by (metis add.commute append_take_drop_id drop_drop page_slots_simps(3))
  ultimately show "page_slots ps qs = covered ps (take x v) + mset (take (y - x) (drop x v)) + covered ps (drop y v)"
    using h t by (simp add: add.assoc)
qed

section \<open>What a request holds\<close>

text \<open>A request with row \<open>row\<close> and tokens \<open>ids\<close>: its protected prefix is the cached one, the rest of
  its slots is a run of the pages \<open>qs\<close>, which it owns; it holds a lock on its last node if it has one.\<close>

definition req_units :: "radix_config \<Rightarrow> token list \<Rightarrow> req \<Rightarrow> tunit list" where
  "req_units cfg ids r = lookup_units cfg (req_key cfg ids r)"

definition req_holds ::
  "radix_config \<Rightarrow> (nat \<Rightarrow> nat) \<Rightarrow> radix_cache \<Rightarrow> req \<Rightarrow> nat list \<Rightarrow> token list \<Rightarrow> nat list \<Rightarrow> bool" where
  "req_holds cfg holds c r row ids qs \<longleftrightarrow>
     length ids \<le> length row \<and> cache_protected_len r \<le> key_len (req_key cfg ids r) \<and>
     page_size cfg dvd cache_protected_len r \<and>
     cached cfg c (take (cache_protected_len r) (req_units cfg ids r)) (take (cache_protected_len r) row) \<and>
     paged_run (page_size cfg) qs (drop (cache_protected_len r) (take (length ids) row)) \<and>
     (\<forall>i. last_node r = Some i \<longrightarrow> 0 < holds i)"

definition unhold :: "req \<Rightarrow> (nat \<Rightarrow> nat) \<Rightarrow> nat \<Rightarrow> nat" where
  "unhold r holds = (case last_node r of None \<Rightarrow> holds | Some i \<Rightarrow> holds(i := holds i - 1))"

text \<open>The lock moves from node \<open>i\<close> to node \<open>j\<close>.\<close>

definition rehold :: "(nat \<Rightarrow> nat) \<Rightarrow> nat \<Rightarrow> nat \<Rightarrow> nat \<Rightarrow> nat" where
  "rehold holds i j = (let h = holds(i := holds i - 1) in h(j := h j + 1))"

lemma req_key_facts:
  assumes "0 < page_size cfg"
  shows "is_bigram (req_key cfg ids r) = is_eagle cfg" "key_len (req_key cfg ids r) \<le> length ids"
    "page_size cfg dvd key_len (req_key cfg ids r)" "length (req_units cfg ids r) = key_len (req_key cfg ids r)"
proof -
  let ?k = "RadixKey ids (req_extra_key r) (is_eagle cfg) None"
  show b: "is_bigram (req_key cfg ids r) = is_eagle cfg" by (simp add: req_key_def RadixKey_def)
  have "key_len ?k \<le> length ids" by (simp add: key_len_def raw_len_def RadixKey_def Let_def)
  then show "key_len (req_key cfg ids r) \<le> length ids"
    using key_len_page_aligned [OF assms, of ?k] div_times_less_eq_dividend [of "key_len ?k" "page_size cfg"]
    by (simp add: req_key_def del: div_times_less_eq_dividend)
  show d: "page_size cfg dvd key_len (req_key cfg ids r)"
    using key_len_page_aligned [OF assms, of ?k] by (simp add: req_key_def)
  have "lookup_key cfg (req_key cfg ids r) = page_aligned (page_size cfg) (req_key cfg ids r)"
    using b by (simp add: lookup_key_def maybe_to_bigram_view_def)
  then show "length (req_units cfg ids r) = key_len (req_key cfg ids r)"
    using d key_len_page_aligned [OF assms] by (simp add: req_units_def)
qed

lemma rbind_Inr' [simp]: "rbind (Inr x) f = f x"
  by (simp add: rbind_def)

text \<open>The tree after an insertion, as seen by the request whose slots were inserted.\<close>

lemma req_insert:
  assumes wf: "wf_cache cfg holds c" and "\<not> disable cfg" and ev: "enable_kv_cache_events cfg \<longrightarrow> hasher_ok cfg"
    and h: "req_holds cfg holds c r row ids qs" and w: "values_whole (page_size cfg) c"
  defines "K \<equiv> key_len (req_key cfg ids r)" and "P \<equiv> cache_protected_len r"
    and "v \<equiv> drop (cache_protected_len r) (take (length ids) row)"
  obtains m mv j c' where
    "radix_insert cfg (req_key cfg ids r) (Some (take K (take (length ids) row))) pri chunked c = Inr ((m, Some j), c')"
    "wf_cache cfg holds c'" "P \<le> m" "m \<le> K" "page_size cfg dvd m" "cached cfg c (take m (req_units cfg ids r)) mv"
    "slots (shape c') = slots (shape c) + mset (take (K - m) (drop (m - P) v))"
    "node_path c' j (req_units cfg ids r) (mv @ drop m (take K row))"
    "\<And>i u v. node_path c i u v \<Longrightarrow> node_path c' i u v" "\<And>u v. cached cfg c u v \<Longrightarrow> cached cfg c' u v"
    "values_whole (page_size cfg) c'" "root_node c' = root_node c"
proof -
  have ps: "0 < page_size cfg" by (rule wf_page [OF wf])
  note k = req_key_facts [OF ps, of ids r]
  let ?U = "req_units cfg ids r" and ?ps = "page_size cfg"
  have hs: "length ids \<le> length row" "P \<le> K" "?ps dvd P" "cached cfg c (take P ?U) (take P row)" "paged_run ?ps qs v"
    using h by (simp_all add: req_holds_def K_def P_def v_def)
  have K: "K \<le> length ids" "?ps dvd K" "length ?U = K" using k by (simp_all add: K_def)
  have row: "take K (take (length ids) row) = take K row" using K(1) by (simp add: min_absorb1)
  obtain m mv j c' where ins: "radix_insert cfg (req_key cfg ids r) (Some (take K row)) pri chunked c = Inr ((m, Some j), c')"
    "inserted cfg holds c ?U (take (length ?U) (take K row)) m mv c' j"
    using radix_insert_spec [OF wf assms(2) _ _ ev, of "req_key cfg ids r" "take K row" pri chunked] k K hs(1)
    unfolding req_units_def by auto
  have iv: "wf_cache cfg holds c'" "m \<le> K" "?ps dvd m" "cached cfg c (take m ?U) mv"
    "\<And>n x. n \<le> K \<Longrightarrow> ?ps dvd n \<Longrightarrow> cached cfg c (take n ?U) x \<Longrightarrow> n \<le> m"
    "\<And>u x. cached cfg c' u x \<longleftrightarrow> cached cfg c u x \<or>
        (\<exists>n. m < n \<and> n \<le> K \<and> ?ps dvd n \<and> u = take n ?U \<and> x = mv @ drop m (take n (take K row)))"
    "node_path c' j ?U (mv @ drop m (take K row))" "root_node c' = root_node c"
    "slots (shape c') = slots (shape c) + mset (drop m (take K row))"
    "\<And>i u x. node_path c i u x \<Longrightarrow> node_path c' i u x"
    using ins(2) K(3) unfolding inserted_def by simp_all blast
  have m: "P \<le> m" using iv(5) [OF hs(2,3,4)] .
  have seg: "drop m (take n row) = take (n - m) (drop (m - P) v)" if "n \<le> K" for n
  proof -
    have "drop (m - P) v = drop m (take (length ids) row)" using m by (simp add: v_def P_def)
    then have "take (n - m) (drop (m - P) v) = drop m (take n (take (length ids) row))" by (simp only: drop_take)
    also have "take n (take (length ids) row) = take n row" using that K(1) by (simp add: min_absorb1)
    finally show ?thesis ..
  qed
  have "whole ?ps x" if "cached cfg c' u x" for u x
    using that unfolding iv(6)
  proof
    assume "cached cfg c u x"
    then show ?thesis using w values_whole_cached [OF wf] by blast
  next
    assume "\<exists>n. m < n \<and> n \<le> K \<and> ?ps dvd n \<and> u = take n ?U \<and> x = mv @ drop m (take n (take K row))"
    then obtain n where n: "m < n" "n \<le> K" "?ps dvd n" "x = mv @ drop m (take n row)" by (auto simp: min_absorb1)
    have "whole ?ps mv" using w values_whole_cached [OF wf] iv(4) by blast
    moreover have "whole ?ps (take (n - P - (m - P)) (drop (m - P) v))"
      by (rule run_split(2) [OF ps hs(5)]) (use n m hs(1,3) K(1) iv(3) in \<open>auto simp: v_def P_def dvd_diff_nat\<close>)
    ultimately show ?thesis using seg [OF n(2)] n(4) m by (simp add: whole_append)
  qed
  then have wh: "values_whole ?ps c'" using values_whole_cached [OF iv(1)] by blast
  show ?thesis
    by (rule that [OF _ iv(1) m iv(2-4) _ iv(7)]) (use ins(1) row iv(6,8,9,10) wh seg [of K] in auto)
qed

context kv_release
begin

text \<open>Freeing the duplicates in front and the tail behind what the tree took.\<close>

lemma free_around:
  assumes "good a" and r: "paged_run ps qs v" and x: "ps dvd x" "ps dvd y" "x \<le> y" "y \<le> length v"
    and o: "once (avail a + M + page_slots ps qs)"
  obtains a1 a2 where "free (take x v) a = Inr a1" "free (drop y v) a1 = Inr a2" "good a1" "good a2"
    "avail a1 = avail a + covered ps (take x v)"
    "avail a2 + mset (take (y - x) (drop x v)) = avail a + page_slots ps qs"
proof -
  have ps: "0 < ps" by (rule page_pos [OF assms(1)])
  note S = run_split [OF ps r x]
  have d: "distinct v" by (rule run_distinct [OF ps r])
  have "once (avail a + covered ps (take x v))" using o unfolding S(1) by (auto simp: once_plus)
  then obtain a1 where a1: "free (take x v) a = Inr a1" "good a1" "avail a1 = avail a + covered ps (take x v)"
    using free_returns [OF assms(1), of "take x v"] d by (auto simp: distinct_take)
  have "once (avail a1 + covered ps (drop y v))" using o unfolding S(1) a1(3) by (auto simp: once_plus)
  then obtain a2 where a2: "free (drop y v) a1 = Inr a2" "good a2" "avail a2 = avail a1 + covered ps (drop y v)"
    using free_returns [OF a1(2), of "drop y v"] d by (auto simp: distinct_drop)
  show ?thesis by (rule that [OF a1(1) a2(1) a1(2) a2(2) a1(3)]) (simp add: a2(3) a1(3) S(1) ac_simps)
qed

text \<open>The end of a request: what it held goes to the tree or back to the allocator.\<close>

lemma finish_spec:
  assumes wf: "wf_cache cfg holds c" and "\<not> disable cfg" and ev: "enable_kv_cache_events cfg \<longrightarrow> hasher_ok cfg"
    and p: "page_size cfg = ps" and w: "values_whole ps c" and "good a"
    and row: "rp_row (req_pool_idx r) p = Inr row" and fr: "\<not> kv_committed_freed r"
    and ids: "ids = take (cache_commit_len strip r) (origin_input_ids r @ output_ids r)"
    and h: "req_holds cfg holds c r row ids qs" and o: "once (avail a + slots (shape c) + page_slots ps qs)"
  shows "\<exists>c' a'. cache_finished_req cfg free strip is_insert p r c a = Inr (r\<lparr>kv_committed_freed := True\<rparr>, c', a') \<and>
    wf_cache cfg (unhold r holds) c' \<and> good a' \<and> values_whole ps c' \<and>
    avail a' + slots (shape c') = avail a + slots (shape c) + page_slots ps qs \<and>
    (\<forall>u v. cached cfg c u v \<longrightarrow> cached cfg c' u v) \<and>
    (is_insert \<and> \<not> disable_finished_insert cfg \<longrightarrow> (\<exists>v. cached cfg c' (req_units cfg ids r) v))"
proof -
  have ps: "0 < page_size cfg" by (rule wf_page [OF wf])
  let ?k = "req_key cfg ids r" and ?U = "req_units cfg ids r" and ?P = "cache_protected_len r"
    and ?ins = "is_insert \<and> \<not> disable_finished_insert cfg"
  define K where "K = key_len ?k"
  define v where "v = drop ?P (take (length ids) row)"
  note k = req_key_facts [OF ps, of ids r]
  have hs: "length ids \<le> length row" "?P \<le> K" "ps dvd ?P" "paged_run ps qs v" "\<And>i. last_node r = Some i \<Longrightarrow> 0 < holds i"
    using h p by (simp_all add: req_holds_def K_def v_def)
  have K: "K \<le> length ids" "ps dvd K" "length ?U = K" using k p by (simp_all add: K_def)
  have lv: "length v = length ids - ?P" using hs(1) by (simp add: v_def)
  have e: "drop ?P (take x (take (length ids) row)) = take (x - ?P) v" for x by (simp only: v_def drop_take)
  \<comment> \<open>the tree after the optional insertion\<close>
  obtain m leaf c1 where c1: "wf_cache cfg holds c1" "?P \<le> m" "m \<le> K" "ps dvd m" "values_whole ps c1"
    "slots (shape c1) = slots (shape c) + mset (take (K - m) (drop (m - ?P) v))"
    "\<And>u v. cached cfg c u v \<Longrightarrow> cached cfg c1 u v" "\<And>i. leaf = Some i \<Longrightarrow> nodes c1 i \<noteq> None"
    "?ins \<Longrightarrow> \<exists>v. cached cfg c1 ?U v"
    "\<And>f. (if ?ins then rbind (radix_insert cfg ?k (Some (take K (take (length ids) row)))
          (case req_priority r of None \<Rightarrow> 0 | Some q \<Rightarrow> q) False c) (\<lambda>((prefix_len, leaf), c1).
        rbind (free (drop ?P (take prefix_len (take (length ids) row))) a) (\<lambda>a1. Inr (leaf, c1, a1)))
      else rbind (free (drop ?P (take K (take (length ids) row))) a) (\<lambda>a1. Inr (None, c, a1))) =
      rbind (free (take (m - ?P) v) a) (\<lambda>a1. Inr (leaf, c1, a1))"
  proof (cases ?ins)
    case True
    obtain m mv j c1 where i: "radix_insert cfg ?k (Some (take K (take (length ids) row)))
        (case req_priority r of None \<Rightarrow> 0 | Some q \<Rightarrow> q) False c = Inr ((m, Some j), c1)"
      "wf_cache cfg holds c1" "?P \<le> m" "m \<le> K" "ps dvd m"
      "slots (shape c1) = slots (shape c) + mset (take (K - m) (drop (m - ?P) v))"
      "node_path c1 j ?U (mv @ drop m (take K row))" "\<And>u v. cached cfg c u v \<Longrightarrow> cached cfg c1 u v" "values_whole ps c1"
      using req_insert [OF wf assms(2) ev h, where thesis = thesis] w unfolding p K_def v_def by metis
    show ?thesis
      by (rule that [OF i(2-5,9,6,8), of "Some j"])
        (use True i(1) node_path_node [OF i(2,7)] cached_node_path [OF i(2,7)] in \<open>auto simp: e simp del: take_take\<close>)
  next
    case False
    show ?thesis by (rule that [OF wf hs(2) order_refl K(2) w, of None]) (use False in \<open>auto simp: e simp del: take_take\<close>)
  qed
  have xy: "ps dvd m - ?P" "ps dvd K - ?P" "m - ?P \<le> K - ?P" "K - ?P \<le> length v"
    using c1(2-4) hs(2,3) K(1,2) lv by (auto simp: dvd_diff_nat)
  obtain a1 a2 where a: "free (take (m - ?P) v) a = Inr a1" "free (drop (K - ?P) v) a1 = Inr a2" "good a2"
    "avail a2 + mset (take (K - ?P - (m - ?P)) (drop (m - ?P) v)) = avail a + page_slots ps qs"
    by (rule free_around [OF \<open>good a\<close> hs(4) xy o])
  have tail: "drop K (take (length ids) row) = drop (K - ?P) v" using hs(2) by (simp add: v_def)
  obtain c2 where c2: "tag_session_leaf cfg (session_id r) ?k leaf c1 = Inr c2" "wf_cache cfg holds c2" "keeps cfg c1 c2"
    using tag_session_leaf_keeps [OF c1(1) assms(2), of ?k leaf "session_id r"] k(1) c1(8) by blast
  obtain c3 where c3: "(case last_node r of None \<Rightarrow> Inr (r\<lparr>kv_committed_freed := True\<rparr>, c2, a2)
      | Some i \<Rightarrow> rbind (dec_lock_ref cfg i c2) (\<lambda>(_, c3). Inr (r\<lparr>kv_committed_freed := True\<rparr>, c3, a2))) =
      Inr (r\<lparr>kv_committed_freed := True\<rparr>, c3, a2)"
    "wf_cache cfg (unhold r holds) c3" "keeps cfg c2 c3"
  proof (cases "last_node r")
    case None
    then show ?thesis using that [of c2] c2(2) by (simp add: unhold_def)
  next
    case (Some i)
    then show ?thesis using that dec_lock_ref_keeps [OF c2(2) assms(2) hs(5)] by (fastforce simp: unhold_def)
  qed
  have kp: "keeps cfg c1 c3" by (rule keeps_trans [OF c2(3) c3(3)])
  have run: "cache_finished_req cfg free strip is_insert p r c a = Inr (r\<lparr>kv_committed_freed := True\<rparr>, c3, a2)"
    by (simp only: cache_finished_req_def pop_committed_kv_cache_def Let_def fr assms(2) if_False rbind_Inr' prod.case
        row ids [symmetric] K_def [symmetric] c1(10) a(1,2) tail c2(1) c3(1))
  have tot: "avail a2 + slots (shape c3) = avail a + slots (shape c) + page_slots ps qs"
  proof -
    have "slots (shape c3) = slots (shape c) + mset (take (K - ?P - (m - ?P)) (drop (m - ?P) v))"
      using kp c1(2,6) by (simp add: keeps_def)
    then show ?thesis using a(4) by (metis add.assoc add.commute)
  qed
  have vw: "values_whole ps c3" using keeps_whole [OF kp c1(1) c3(2)] c1(5) p by simp
  have cc: "cached cfg c3 u x = cached cfg c1 u x" for u x using kp by (simp add: keeps_def)
  show ?thesis
    by (intro exI [of _ c3] exI [of _ a2] conjI run c3(2) a(3) vw tot) (use c1(7,9) cc in blast)+
qed

text \<open>Releasing a request: the pages past the committed length go back as well, and its row.\<close>

lemma release_spec:
  assumes wf: "wf_cache cfg holds c" and "\<not> disable cfg" and ev: "enable_kv_cache_events cfg \<longrightarrow> hasher_ok cfg"
    and p: "page_size cfg = ps" and w: "values_whole ps c" and "good a"
    and idx: "req_pool_idx r = Some i" "i < rp_alloc_size p" "i \<notin> set (rp_free_slots p)"
    and row: "rp_row (Some i) p = Inr row" "kv_allocated_len r \<le> length row"
    and fl: "\<not> kv_committed_freed r" "\<not> kv_overallocated_freed r" "\<not> kv_spilled_to_host r"
    and len: "cache_commit_len strip r \<le> kv_allocated_len r" "spec \<or> strip \<or> cache_commit_len strip r = kv_allocated_len r"
    and ids: "ids = take (cache_commit_len strip r) (origin_input_ids r @ output_ids r)"
      "length ids = cache_commit_len strip r"
    and run: "paged_run ps qs (drop (cache_protected_len r) (take (kv_allocated_len r) row))"
    and h: "req_holds cfg holds c r row ids (take (num_pages_of ps (length ids - cache_protected_len r)) qs)"
    and o: "once (avail a + slots (shape c) + page_slots ps qs)"
  shows "\<exists>r' c' a'. release_kv_cache cfg free spilled strip spec is_insert r p c a =
      Inr (r', p\<lparr>rp_free_slots := rp_free_slots p @ [i]\<rparr>, c', a') \<and> req_pool_idx r' = None \<and>
    wf_cache cfg (unhold r holds) c' \<and> good a' \<and> values_whole ps c' \<and>
    avail a' + slots (shape c') = avail a + slots (shape c) + page_slots ps qs \<and>
    (\<forall>u v. cached cfg c u v \<longrightarrow> cached cfg c' u v)"
proof -
  have ps: "0 < ps" using wf_page [OF wf] p by simp
  let ?P = "cache_protected_len r" and ?K = "cache_commit_len strip r" and ?E = "kv_allocated_len r"
  define n where "n = num_pages_of ps (?K - ?P)"
  define v where "v = drop ?P (take ?E row)"
  have P: "?P \<le> ?K" "ps dvd ?P"
    using h req_key_facts(2) [of cfg ids r] ps p ids(2) by (auto simp: req_holds_def)
  have split: "page_slots ps qs = page_slots ps (take n qs) + page_slots ps (drop n qs)"
    by (metis append_take_drop_id page_slots_simps(3))
  have o1: "once (avail a + slots (shape c) + page_slots ps (take n qs))" using o unfolding split by (auto simp: once_plus)
  have row': "rp_row (req_pool_idx r) p = Inr row" using idx(1) row(1) by simp
  obtain c1 a1 where f: "cache_finished_req cfg free strip (is_insert \<and> \<not> skip_radix_cache_insert r) p r c a =
      Inr (r\<lparr>kv_committed_freed := True\<rparr>, c1, a1)" "wf_cache cfg (unhold r holds) c1" "good a1" "values_whole ps c1"
    "avail a1 + slots (shape c1) = avail a + slots (shape c) + page_slots ps (take n qs)"
    "\<And>u v. cached cfg c u v \<Longrightarrow> cached cfg c1 u v"
    using finish_spec [OF wf assms(2) ev p w \<open>good a\<close> row' fl(1) ids(1) h [unfolded ids(2), folded n_def] o1,
        of "is_insert \<and> \<not> skip_radix_cache_insert r"] by blast
  define q where "q = (if 1 < ps then ceil_align ?K ps else ?K)"
  have q: "q = ?P + n * ps"
  proof -
    have "num_pages_of ps ?K = ?P div ps + n" using num_pages_shift [OF ps P(2), of "?K - ?P"] P(1) by (simp add: n_def)
    then have "ceil_align ?K ps = ?P + n * ps"
      using P(2) unfolding ceil_align_def num_pages_of_def [symmetric] by (simp add: distrib_right)
    moreover have "ceil_align ?K ps = ?K" if "\<not> 1 < ps" using that ps by (simp add: ceil_align_def not_less le_Suc_eq)
    ultimately show ?thesis unfolding q_def by auto
  qed
  have o2: "once (avail a1 + page_slots ps (drop n qs))"
  proof -
    have "once (avail a1 + slots (shape c1) + page_slots ps (drop n qs))"
      using o unfolding split f(5) by (simp add: ac_simps)
    then show ?thesis by (auto simp: once_plus)
  qed
  obtain a2 where a2: "(if q < ?E then free (drop q (take ?E row)) a1 else Inr a1) = Inr a2" "good a2"
    "avail a2 = avail a1 + page_slots ps (drop n qs)"
  proof (cases "q < ?E")
    case True
    have "paged_run ps (drop (n * ps div ps) qs) (drop (n * ps) v)"
      by (rule run_drop [OF ps]) (use run True q row(2) in \<open>auto simp: v_def\<close>)
    then have r: "paged_run ps (drop n qs) (drop q (take ?E row))" using ps q by (simp add: v_def add.commute)
    then show ?thesis using free_returns [OF f(3) run_distinct [OF ps r]] o2 True that
      unfolding run_covered [OF ps r] by auto
  next
    case False
    have "num_pages_of ps (?E - ?P) \<le> n" using num_pages_of_mono [of "?E - ?P" "n * ps" ps] num_pages_dvd [OF ps, of "n * ps"] False q ps by simp
    then have "drop n qs = []" using run row(2) by (simp add: paged_run_def min_absorb2)
    then show ?thesis using that [of a1] False f(3) by simp
  qed
  let ?r2 = "r\<lparr>kv_committed_freed := True, kv_overallocated_freed := True\<rparr>"
  have pop: "pop_overallocated_kv_cache strip (r\<lparr>kv_committed_freed := True\<rparr>) = Inr ((?K, ?E), ?r2)"
    using fl(2) by (simp add: pop_overallocated_kv_cache_def cache_commit_len_def)
  have fr: "rp_free ?r2 p = Inr (?r2\<lparr>req_pool_idx := None\<rparr>, p\<lparr>rp_free_slots := rp_free_slots p @ [i]\<rparr>)"
    using idx by (simp add: rp_free_def rp_free_slot_def)
  have as: "\<not> (\<not> spec \<and> \<not> strip \<and> ?K \<noteq> ?E)" using len(2) by blast
  have sel: "req_pool_idx (r\<lparr>kv_committed_freed := True\<rparr>) = Some i" "req_pool_idx ?r2 = Some i" using idx(1) by simp_all
  have rn: "release_kv_cache cfg free spilled strip spec is_insert r p c a =
      Inr (?r2\<lparr>req_pool_idx := None\<rparr>, p\<lparr>rp_free_slots := rp_free_slots p @ [i]\<rparr>, c1, a2)"
    by (simp only: release_kv_cache_def idx(1) option.distinct fl(3) if_False f(1) rbind_Inr' prod.case pop sel as Let_def
        p q_def [symmetric] row(1) a2(1) fr)
  have tot: "avail a2 + slots (shape c1) = avail a + slots (shape c) + page_slots ps qs"
    using f(5) unfolding a2(3) split by (metis add.assoc add.commute)
  show ?thesis by (intro exI [of _ "?r2\<lparr>req_pool_idx := None\<rparr>"] exI [of _ c1] exI [of _ a2] conjI rn f(2) a2(2) f(4) tot)
      (use f(6) in auto)
qed

text \<open>An unfinished request: its full pages move into the tree, its lock moves to the new node.\<close>

lemma unfinished_spec:
  assumes wf: "wf_cache cfg holds c" and nd: "\<not> disable cfg" and ev: "enable_kv_cache_events cfg \<longrightarrow> hasher_ok cfg"
    and p: "page_size cfg = ps" and w: "values_whole ps c" and "good a"
    and row: "rp_row (req_pool_idx r) p = Inr row" and ids: "get_fill_ids r = Inr ids"
    and h: "req_holds cfg holds c r row ids qs" and last: "last_node r = Some i"
    and o: "once (avail a + slots (shape c) + page_slots ps qs)"
  defines "K \<equiv> key_len (req_key cfg ids r)"
  defines "qs' \<equiv> drop ((K - cache_protected_len r) div ps) qs"
  shows "\<exists>r' row' j c' a'. cache_unfinished_req cfg free chunked p r c a =
      Inr (r', p\<lparr>req_to_token := (req_to_token p)[the (req_pool_idx r) := row']\<rparr>, c', a') \<and>
    cache_protected_len r' = K \<and> last_node r' = Some j \<and> prefix_indices r' = take (length ids) row' \<and>
    length row' = length row \<and> drop K row' = drop K row \<and>
    wf_cache cfg (rehold holds i j) c' \<and> good a' \<and> values_whole ps c' \<and>
    req_holds cfg (rehold holds i j) c' r' row' ids qs' \<and>
    avail a' + slots (shape c') + page_slots ps qs' = avail a + slots (shape c) + page_slots ps qs"
proof -
  have ps: "0 < page_size cfg" "0 < ps" using wf_page [OF wf] p by simp_all
  let ?k = "req_key cfg ids r" and ?U = "req_units cfg ids r" and ?P = "cache_protected_len r" and ?n = "length ids"
  define v where "v = drop ?P (take ?n row)"
  note k = req_key_facts [OF ps(1), of ids r]
  have hs: "?n \<le> length row" "?P \<le> K" "ps dvd ?P" "paged_run ps qs v" "0 < holds i"
    "cached cfg c (take ?P ?U) (take ?P row)"
    using h p last by (simp_all add: req_holds_def K_def v_def)
  have K: "K \<le> ?n" "ps dvd K" "length ?U = K" using k p by (simp_all add: K_def)
  have lv: "length v = ?n - ?P" using hs(1) by (simp add: v_def)
  have e: "drop ?P (take x (take ?n row)) = take (x - ?P) v" for x by (simp only: v_def drop_take)
  obtain m mv l c1 where ins: "radix_insert cfg ?k (Some (take K (take ?n row)))
      (case req_priority r of None \<Rightarrow> 0 | Some q \<Rightarrow> q) chunked c = Inr ((m, Some l), c1)"
    "wf_cache cfg holds c1" "?P \<le> m" "m \<le> K" "ps dvd m"
    "slots (shape c1) = slots (shape c) + mset (take (K - m) (drop (m - ?P) v))"
    "node_path c1 l ?U (mv @ drop m (take K row))" "\<And>u v. cached cfg c u v \<Longrightarrow> cached cfg c1 u v" "values_whole ps c1"
    using req_insert [OF wf nd ev h, where thesis = thesis] w unfolding p K_def v_def by metis
  have xy: "ps dvd m - ?P" "ps dvd K - ?P" "m - ?P \<le> K - ?P" "K - ?P \<le> length v"
    using ins(3-5) hs(2,3) K(1,2) lv by (auto simp: dvd_diff_nat)
  note S = run_split [OF ps(2) hs(4) xy]
  have "once (avail a + covered ps (take (m - ?P) v))" using o unfolding S(1) by (auto simp: once_plus)
  then obtain a1 where a1: "free (take (m - ?P) v) a = Inr a1" "good a1" "avail a1 = avail a + covered ps (take (m - ?P) v)"
    using free_returns [OF \<open>good a\<close>, of "take (m - ?P) v"] run_distinct [OF ps(2) hs(4)] by (auto simp: distinct_take)
  obtain new j c2 where mt: "match_prefix cfg ?k c1 = Inr ((new, j), c2)" "wf_cache cfg holds c2" "keeps cfg c1 c2"
    "node_path c2 j (take (length new) ?U) new" "length new \<le> K"
    "\<And>n x. n \<le> K \<Longrightarrow> ps dvd n \<Longrightarrow> cached cfg c1 (take n ?U) x \<Longrightarrow> n \<le> length new"
    using match_prefix_keeps [OF ins(2) nd, of ?k] k(1) K(3) p unfolding req_units_def by metis
  have full: "cached cfg c1 ?U (mv @ drop m (take K row))" by (rule cached_node_path [OF ins(2,7)])
  have new: "length new = K" using mt(6) [of K "mv @ drop m (take K row)"] full K(2,3) mt(5) by simp
  have npj: "node_path c2 j ?U new" using mt(4) new K(3) by simp
  have cn: "cached cfg c2 (take ?P ?U) (take ?P new)"
    using npj hs(2,3) K(3) p unfolding cached_def by (metis order_trans)
  have pre: "take ?P new = take ?P row"
  proof (rule cached_unique [OF mt(2) cn])
    show "cached cfg c2 (take ?P ?U) (take ?P row)" using ins(8) [OF hs(6)] mt(3) by (simp add: keeps_def)
  qed
  obtain d3 c3 where c3: "dec_lock_ref cfg i c2 = Inr (d3, c3)" "wf_cache cfg (holds(i := holds i - 1)) c3" "keeps cfg c2 c3"
    using dec_lock_ref_keeps [OF mt(2) nd hs(5)] by blast
  have np3: "node_path c3 j ?U new" using npj c3(3) by (simp add: keeps_def)
  define H where "H = rehold holds i j"
  obtain d4 c4 where c4: "inc_lock_ref cfg j c3 = Inr (d4, c4)" "wf_cache cfg H c4" "keeps cfg c3 c4"
    using inc_lock_ref_keeps [OF c3(2) nd node_path_node [OF c3(2) np3]] unfolding H_def rehold_def Let_def by blast
  have np4: "node_path c4 j ?U new" using np3 c4(3) by (simp add: keeps_def)
  obtain c5 where c5: "tag_session_leaf cfg (session_id r) ?k (Some j) c4 = Inr c5" "wf_cache cfg H c5" "keeps cfg c4 c5"
    using tag_session_leaf_keeps [OF c4(2) nd, of ?k "Some j" "session_id r"] k(1) node_path_node [OF c4(2) np4] by auto
  have kp: "keeps cfg c1 c5" using mt(3) c3(3) c4(3) c5(3) by (meson keeps_trans)
  \<comment> \<open>the row\<close>
  define row' where "row' = take ?P row @ drop ?P new @ drop K row"
  have r': "length row' = length row" "drop K row' = drop K row" "take K row' = new"
    using pre new hs(1,2) K(1) unfolding row'_def pre [symmetric] by simp_all
  have wr: "rp_write (req_pool_idx r) ?P K (drop ?P new) p =
      Inr (p\<lparr>req_to_token := (req_to_token p)[the (req_pool_idx r) := row']\<rparr>)"
    using row new hs(1,2) K(1) by (simp add: rp_write_def Let_def row'_def)
  have px: "(if K < length (take ?n row) then new @ drop K (take ?n row) else new) = take ?n row'"
  proof -
    have "take ?n row' = new @ drop K (take ?n row)"
      using r' K(1) by (metis append_take_drop_id drop_take min.absorb1 take_take)
    then show ?thesis using hs(1) K(1) by auto
  qed
  let ?r1 = "r\<lparr>cache_protected_len := K, prefix_indices := take ?n row', last_node := Some j\<rparr>"
  have run: "cache_unfinished_req cfg free chunked p r c a =
      Inr (?r1, p\<lparr>req_to_token := (req_to_token p)[the (req_pool_idx r) := row']\<rparr>, c5, a1)"
    by (simp only: cache_unfinished_req_def nd if_False ids rbind_Inr' row Let_def K_def [symmetric] ins(1) prod.case e a1(1)
        mt(1) new wr last option.case c3(1) c4(1) px c5(1) simp_thms if_True)
  have key1: "req_key cfg ids ?r1 = ?k" "req_units cfg ids ?r1 = ?U" by (simp_all add: req_key_def req_units_def)
  have "paged_run ps qs' (drop (K - ?P) v)" unfolding qs'_def by (rule run_drop [OF ps(2) hs(4) xy(4,2)])
  moreover have "drop (K - ?P) v = drop K (take ?n row')" using hs(2) r'(2) by (simp add: v_def drop_take)
  moreover have "cached cfg c5 ?U new" using cached_node_path [OF c4(2) np4] c5(3) by (simp add: keeps_def)
  ultimately have rh: "req_holds cfg H c5 ?r1 row' ids qs'"
    unfolding req_holds_def key1 using hs(1) K r'(1,3) p k(3) by (simp add: K_def H_def rehold_def)
  have tot: "avail a1 + slots (shape c5) + page_slots ps qs' = avail a + slots (shape c) + page_slots ps qs"
  proof -
    have "slots (shape c5) = slots (shape c) + mset (take (K - ?P - (m - ?P)) (drop (m - ?P) v))"
      using kp ins(3,6) by (simp add: keeps_def)
    then show ?thesis unfolding S(1) a1(3) qs'_def S(3) [symmetric] by (simp add: ac_simps)
  qed
  have vw: "values_whole ps c5" using keeps_whole [OF kp ins(2) c5(2)] ins(9) p by simp
  show ?thesis
    by (intro exI [of _ ?r1] exI [of _ row'] exI [of _ j] exI [of _ c5] exI [of _ a1] conjI run r'(1,2) a1(2) tot vw rh [unfolded H_def]
          c5(2) [unfolded H_def]) simp_all
qed

end

section \<open>Rows\<close>

text \<open>Every row but the padding row 0 is free or held, exactly once.\<close>

definition rows_ok :: "req_pool \<Rightarrow> nat list \<Rightarrow> bool" where
  "rows_ok p held \<longleftrightarrow> length (req_generation p) = rp_alloc_size p \<and>
     mset (rp_free_slots p) + mset held = mset [1..<rp_alloc_size p]"

definition needs_row :: "req \<Rightarrow> bool" where
  "needs_row r \<longleftrightarrow> req_pool_idx r = None"

lemma assign_rows_spec:
  "length sel = length (filter needs_row reqs) \<Longrightarrow> assign_rows sel reqs gens = (reqs', gens') \<Longrightarrow>
   list_all2 (\<lambda>r r'. r' = r\<lparr>req_pool_idx := req_pool_idx r'\<rparr> \<and> req_pool_idx r' \<noteq> None \<and> (\<not> needs_row r \<longrightarrow> r' = r)) reqs reqs' \<and>
   map (req_pool_idx \<circ> snd) (filter (needs_row \<circ> fst) (zip reqs reqs')) = map Some sel \<and>
   length gens' = length gens \<and>
   (distinct sel \<longrightarrow> (\<forall>i<length gens. gens' ! i = gens ! i + (if i \<in> set sel then 1 else 0)))"
proof (induction sel reqs gens arbitrary: reqs' gens' rule: assign_rows.induct)
  case (2 sel r rs gens)
  show ?case
  proof (cases "req_pool_idx r")
    case None
    then have nr: "needs_row r" by (simp add: needs_row_def)
    then obtain i sel' where sel: "sel = i # sel'" using "2.prems"(1) by (cases sel) auto
    obtain rs' where rs: "assign_rows sel' rs (gens[i := gens ! i + 1]) = (rs', gens')"
      "reqs' = r\<lparr>req_pool_idx := Some i\<rparr> # rs'"
      using "2.prems"(2) None sel by (auto simp: Let_def split: prod.splits)
    have l: "length (tl sel) = length (filter needs_row rs)" using "2.prems"(1) nr sel by simp
    have "assign_rows (tl sel) rs (gens[hd sel := gens ! hd sel + 1]) = (rs', gens')" using rs(1) sel by simp
    note IH = "2.IH"(1) [OF None refl l this]
    have "gens' ! x = gens ! x + (if x \<in> set sel then 1 else 0)" if "distinct sel" "x < length gens" for x
      using IH that sel by (cases "x = i") auto
    then show ?thesis using IH nr rs(2) sel by simp
  next
    case (Some i)
    then have nr: "\<not> needs_row r" by (simp add: needs_row_def)
    obtain rs' where rs: "assign_rows sel rs gens = (rs', gens')" "reqs' = r # rs'"
      using "2.prems"(2) Some by (auto split: prod.splits)
    have "length sel = length (filter needs_row rs)" using "2.prems"(1) nr by simp
    note IH = "2.IH"(2) [OF Some this rs(1)]
    then show ?thesis using Some nr rs(2) by simp
  qed
qed simp

section \<open>Properties\<close>

text \<open>C37: rows are handed out once. On a pool in which every row is free or held exactly once,
  \<^verbatim>\<open>ReqToTokenPool.alloc\<close> either refuses because too few rows are free, changing nothing, or gives every
  request without a row a row of its own, taken from the free list and never the padding row, keeps
  the rows of the others, and counts up the generation of exactly the rows it handed out.\<close>

theorem rows_handed_out_once:
  assumes "rows_ok p held"
    and "list_all (\<lambda>r. needs_row r \<or> 0 < inflight_middle_chunks r \<or> 0 < kv_committed_len r) reqs"
  shows "\<exists>res reqs' p'. rp_alloc reqs p = Inr (res, reqs', p') \<and>
    (case res of None \<Rightarrow> reqs' = reqs \<and> p' = p \<and> rp_available_size p < length (filter needs_row reqs)
     | Some rows \<Rightarrow> \<exists>new. rows = map req_pool_idx reqs' \<and> rows_ok p' (new @ held) \<and> distinct (new @ held) \<and> 0 \<notin> set new \<and>
         map (req_pool_idx \<circ> snd) (filter (needs_row \<circ> fst) (zip reqs reqs')) = map Some new \<and>
         list_all2 (\<lambda>r r'. r' = r\<lparr>req_pool_idx := req_pool_idx r'\<rparr> \<and> req_pool_idx r' \<noteq> None \<and> (\<not> needs_row r \<longrightarrow> r' = r)) reqs reqs' \<and>
         (\<forall>i<rp_alloc_size p. req_generation p' ! i = req_generation p ! i + (if i \<in> set new then 1 else 0)))"
proof -
  define n where "n = length (filter needs_row reqs)"
  have nd: "length reqs - length (filter (\<lambda>r. req_pool_idx r \<noteq> None) reqs) = n"
    using sum_length_filter_compl [of needs_row reqs] by (simp add: n_def needs_row_def)
  have ok: "list_all (\<lambda>r. 0 < inflight_middle_chunks r \<or> 0 < kv_committed_len r) (filter (\<lambda>r. req_pool_idx r \<noteq> None) reqs)"
    using assms(2) by (auto simp: list_all_iff needs_row_def)
  show ?thesis
  proof (cases "length (rp_free_slots p) < n")
    case True
    then have "rp_alloc reqs p = Inr (None, reqs, p)" using nd ok by (simp add: rp_alloc_def Let_def)
    then show ?thesis using True by (simp add: rp_available_size_def n_def)
  next
    case False
    define new where "new = take n (rp_free_slots p)"
    obtain reqs' gens where as: "assign_rows new reqs (req_generation p) = (reqs', gens)" by fastforce
    define p' where "p' = p\<lparr>rp_free_slots := drop n (rp_free_slots p), req_generation := gens\<rparr>"
    have run: "rp_alloc reqs p = Inr (Some (map req_pool_idx reqs'), reqs', p')"
      using nd ok False as by (simp add: rp_alloc_def Let_def new_def p'_def)
    have "length new = length (filter needs_row reqs)" using False by (simp add: new_def n_def)
    note A = assign_rows_spec [OF this as]
    have tot: "mset (drop n (rp_free_slots p)) + mset (new @ held) = mset [1..<rp_alloc_size p]"
      using assms(1) union_code [of new "drop n (rp_free_slots p)"] by (simp add: rows_ok_def new_def ac_simps)
    then have ms: "mset (drop n (rp_free_slots p) @ new @ held) = mset [1..<rp_alloc_size p]" by simp
    have d: "distinct (new @ held)" "0 \<notin> set new"
      using mset_eq_imp_distinct_iff [OF ms] mset_eq_setD [OF ms] by auto
    then have "distinct new" by simp
    then have g: "\<forall>i<rp_alloc_size p. gens ! i = req_generation p ! i + (if i \<in> set new then 1 else 0)"
      using A assms(1) by (simp add: rows_ok_def)
    have rk: "rows_ok p' (new @ held)" using A tot assms(1) by (simp add: rows_ok_def p'_def)
    show ?thesis by (rule exI [of _ "Some (map req_pool_idx reqs')"], rule exI [of _ reqs'], rule exI [of _ p'])
        (use run rk d A g in \<open>auto intro!: exI [of _ new] simp: p'_def\<close>)
  qed
qed

text \<open>A request in the middle of its life: four tokens cached in the example tree and locked, three more
  on two pages of its own.\<close>

definition demo_req :: req where
  "demo_req = \<lparr>origin_input_ids = [1, 2, 3, 4, 5], output_ids = [6, 7],
     full_untruncated_fill_ids = [1, 2, 3, 4, 5, 6, 7], extend_range = Some (4, 7), req_extra_key = None,
     req_priority = None, session_id = None, req_pool_idx = Some 1, prefix_indices = [10, 11, 12, 13],
     cache_protected_len = 4, last_node = Some 1, kv_committed_len = 7, kv_allocated_len = 7,
     kv_committed_freed = False, kv_overallocated_freed = False, reasoning_tokens = 0,
     inflight_middle_chunks = 0, skip_radix_cache_insert = False, kv_spilled_to_host = False,
     swa_evict_floor = 0, swa_evicted_seqlen = 0\<rparr>"

definition demo_row :: "nat list" where
  "demo_row = [10, 11, 12, 13, 4, 5, 6, 0]"

definition demo_rp :: req_pool where
  "demo_rp = (rp_init 2 8)\<lparr>req_to_token := [replicate 8 0, demo_row, replicate 8 0], rp_free_slots := [2]\<rparr>"

definition demo_locked :: radix_cache where
  "demo_locked = (case inc_lock_ref demo_cfg 1 demo_cache of Inr (_, c) \<Rightarrow> c | Inl _ \<Rightarrow> blank_cache)"

definition demo_free :: kv_pool where
  "demo_free = (pool_init Paged 16 2 False False)\<lparr>free_pages := [1, 4, 7, 8]\<rparr>"

lemma demo_locked_facts:
  "wf_cache demo_cfg ((\<lambda>_. 0)(1 := 1)) demo_locked" "keeps demo_cfg demo_cache demo_locked" "values_whole 2 demo_locked"
proof -
  have "nodes demo_cache 1 \<noteq> None" by code_simp
  then obtain d c where c: "inc_lock_ref demo_cfg 1 demo_cache = Inr (d, c)" "wf_cache demo_cfg ((\<lambda>_. 0)(1 := 1)) c"
    "keeps demo_cfg demo_cache c"
    using inc_lock_ref_keeps [OF demo_cache_wf, of 1] by (auto simp: demo_cfg_def)
  then have e: "demo_locked = c" by (simp add: demo_locked_def)
  show "wf_cache demo_cfg ((\<lambda>_. 0)(1 := 1)) demo_locked" "keeps demo_cfg demo_cache demo_locked" using c e by simp_all
  show "values_whole 2 demo_locked"
    using keeps_whole [OF c(3) demo_cache_wf c(2)] demo_whole e by (simp add: demo_cfg_def)
qed

lemma demo_req_holds:
  "req_holds demo_cfg ((\<lambda>_. 0)(1 := 1)) demo_locked demo_req demo_row [1, 2, 3, 4, 5, 6, 7] [2, 3]"
proof -
  let ?k = "req_key demo_cfg [1, 2, 3, 4, 5, 6, 7] demo_req"
  have run: "rbind (match_prefix demo_cfg ?k demo_cache) (\<lambda>((idx, _), _). Inr idx) = Inr [10, 11, 12, 13]" by code_simp
  have b: "\<not> disable demo_cfg" "is_bigram ?k \<longrightarrow> is_eagle demo_cfg" by code_simp+
  obtain idx node c' where m: "match_prefix demo_cfg ?k demo_cache = Inr ((idx, node), c')" "wf_cache demo_cfg (\<lambda>_. 0) c'"
    "keeps demo_cfg demo_cache c'" "node_path c' node (take (length idx) (lookup_units demo_cfg ?k)) idx"
    by (rule match_prefix_keeps [OF demo_cache_wf b])
  have "idx = [10, 11, 12, 13]" "length idx = 4" using run m(1) by auto
  then have "cached demo_cfg demo_locked (take 4 (req_units demo_cfg [1, 2, 3, 4, 5, 6, 7] demo_req)) [10, 11, 12, 13]"
    using cached_node_path [OF m(2,4)] m(3) demo_locked_facts(2)
    unfolding keeps_def req_units_def by metis
  moreover have "key_len ?k = 6" "page_size demo_cfg = 2" "cache_protected_len demo_req = 4" "take 4 demo_row = [10, 11, 12, 13]"
    "paged_run 2 [2, 3] (drop 4 (take (length [1, 2, 3, 4, 5, 6, 7 :: nat]) demo_row))" "last_node demo_req = Some 1"
    "length demo_row = 8"
    by code_simp+
  ultimately show ?thesis by (simp add: req_holds_def del: take_Suc_Cons)
qed

lemma demo_free_good: "kv_good 2 demo_free" "once (avail demo_free + slots (shape demo_locked) + page_slots 2 [2, 3])"
proof -
  have e: "pg_size demo_free = 2" "free_group demo_free = []" "release_pages demo_free = []"
    "free_pages demo_free = [1, 4, 7, 8]" by code_simp+
  have "slots (shape demo_locked) = mset [10, 11, 12, 13]" using demo_locked_facts(2) demo_slots by (simp add: keeps_def)
  then have "avail demo_free + slots (shape demo_locked) + page_slots 2 [2, 3] =
      mset (concat (map (page_of 2) [1, 4, 7, 8, 5, 6, 2, 3]))"
    unfolding avail_def e by (simp add: page_of_def upt_rec)
  also have "once \<dots>" unfolding once_mset by code_simp
  finally show o: "once (avail demo_free + slots (shape demo_locked) + page_slots 2 [2, 3])" .
  then show "kv_good 2 demo_free" using e by (simp add: kv_good_def once_plus)
qed

theorem rows_handed_out_once_witness:
  "\<exists>res reqs' p'. rp_alloc [demo_req, demo_req\<lparr>req_pool_idx := None\<rparr>] demo_rp = Inr (res, reqs', p') \<and>
     res = Some [Some 1, Some 2]"
proof -
  have "rows_ok demo_rp [1]" "list_all (\<lambda>r. needs_row r \<or> 0 < inflight_middle_chunks r \<or> 0 < kv_committed_len r)
      [demo_req, demo_req\<lparr>req_pool_idx := None\<rparr>]"
    by code_simp+
  moreover have "rbind (rp_alloc [demo_req, demo_req\<lparr>req_pool_idx := None\<rparr>] demo_rp) (\<lambda>(res, _). Inr res) =
      Inr (Some [Some 1, Some 2])" by code_simp
  ultimately show ?thesis
    using rows_handed_out_once [of demo_rp "[1]" "[demo_req, demo_req\<lparr>req_pool_idx := None\<rparr>]"] by auto
qed

text \<open>C38: a corrupt return is refused by name. \<^verbatim>\<open>free_slot\<close> takes back a held row, after which it is free and no
  longer held; a missing index, an index outside the table and a row that is already free raise
  \<open>ValueError\<close> and leave the pool alone.\<close>

theorem free_slot_refuses_corruption:
  assumes "rows_ok p held"
  shows "(\<forall>i\<in>set held. \<exists>p'. rp_free_slot (Some (int i)) prepend p = Inr p' \<and> rows_ok p' (remove1 i held) \<and>
            rp_available_size p' = rp_available_size p + 1) \<and>
    rp_free_slot None prepend p = Inl (Py ValueError) \<and>
    (\<forall>i. i < 0 \<or> int (rp_alloc_size p) \<le> i \<longrightarrow> rp_free_slot (Some i) prepend p = Inl (Py ValueError)) \<and>
    (\<forall>i\<in>set (rp_free_slots p). rp_free_slot (Some (int i)) prepend p = Inl (Py ValueError))"
proof -
  have ms: "mset (rp_free_slots p @ held) = mset [1..<rp_alloc_size p]" using assms by (simp add: rows_ok_def)
  have "\<exists>p'. rp_free_slot (Some (int i)) prepend p = Inr p' \<and> rows_ok p' (remove1 i held) \<and>
      rp_available_size p' = rp_available_size p + 1" if "i \<in> set held" for i
  proof -
    have "i \<notin> set (rp_free_slots p)" "i < rp_alloc_size p"
      using that mset_eq_imp_distinct_iff [OF ms] mset_eq_setD [OF ms] by auto
    then have "rp_free_slot (Some (int i)) prepend p =
        Inr (p\<lparr>rp_free_slots := (if prepend then i # rp_free_slots p else rp_free_slots p @ [i])\<rparr>)"
      by (simp add: rp_free_slot_def)
    then show ?thesis using that assms by (auto simp: rows_ok_def rp_available_size_def)
  qed
  moreover have "rp_free_slot (Some (int i)) prepend p = Inl (Py ValueError)" if "i \<in> set (rp_free_slots p)" for i
    using that by (simp add: rp_free_slot_def)
  ultimately show ?thesis by (auto simp: rp_free_slot_def)
qed

theorem free_slot_refuses_corruption_witness:
  "rows_ok demo_rp [1] \<and> rp_free_slot (Some 2) False demo_rp = Inl (Py ValueError) \<and>
   (\<exists>p'. rp_free_slot (Some 1) True demo_rp = Inr p' \<and> rows_ok p' [])"
proof -
  have "rows_ok demo_rp [1]" "rp_free_slots demo_rp = [2]" by code_simp+
  then show ?thesis using free_slot_refuses_corruption [of demo_rp "[1]"] by auto
qed

text \<open>A flushed pool equals a fresh one. Clearing a pool gives exactly the pool the constructor builds
  for the same size and context length, whatever was written to its rows.\<close>

theorem clear_is_fresh_boot:
  assumes "rp_alloc_size p = rp_size p + 1" and "length (req_generation p) = rp_alloc_size p"
    and "length (req_to_token p) = rp_alloc_size p" and "list_all (\<lambda>row. length row = max_context_len p) (req_to_token p)"
  shows "rp_clear p = rp_init (rp_size p) (max_context_len p)"
proof -
  have "map (\<lambda>_. 0) (req_generation p) = replicate (rp_size p + 1) (0 :: nat)"
    using assms(1,2) by (simp add: map_replicate_const del: replicate_Suc)
  moreover have "map (map (\<lambda>_. 0)) (req_to_token p) = replicate (rp_size p + 1) (replicate (max_context_len p) (0 :: nat))"
    using assms(1,3,4) by (intro nth_equalityI) (auto simp: list_all_length map_replicate_const simp del: replicate_Suc)
  ultimately show ?thesis using assms(1) by (simp add: rp_clear_def rp_init_def del: replicate_Suc)
qed

theorem clear_is_fresh_boot_witness: "rp_clear demo_rp = rp_init 2 8"
proof -
  have "rp_alloc_size demo_rp = rp_size demo_rp + 1" "length (req_generation demo_rp) = rp_alloc_size demo_rp"
    "length (req_to_token demo_rp) = rp_alloc_size demo_rp"
    "list_all (\<lambda>row. length row = max_context_len demo_rp) (req_to_token demo_rp)" "rp_size demo_rp = 2"
    "max_context_len demo_rp = 8"
    by code_simp+
  then show ?thesis using clear_is_fresh_boot [of demo_rp] by simp
qed

text \<open>C3: releasing a request leaks nothing. Given a request whose protected prefix is cached and whose
  other slots lie on pages it alone owns, \<^verbatim>\<open>release_kv_cache\<close> over the radix cache and the paged allocator
  returns; every page it owned is afterwards in the tree or in the allocator, exactly once, including a
  partly filled last page and pages allocated past the committed length; its lock is dropped, its row
  is free again, and nothing that was cached is lost.\<close>

theorem release_leaks_nothing:
  assumes "wf_cache cfg holds c" and "\<not> disable cfg" and "enable_kv_cache_events cfg \<longrightarrow> hasher_ok cfg"
    and "page_size cfg = ps" and "values_whole ps c" and "kv_good ps a"
    and "req_pool_idx r = Some i" and "i < rp_alloc_size p" and "i \<notin> set (rp_free_slots p)"
    and "rp_row (Some i) p = Inr row" and "kv_allocated_len r \<le> length row"
    and "\<not> kv_committed_freed r" and "\<not> kv_overallocated_freed r" and "\<not> kv_spilled_to_host r"
    and "cache_commit_len strip r \<le> kv_allocated_len r"
    and "spec \<or> strip \<or> cache_commit_len strip r = kv_allocated_len r"
    and "ids = take (cache_commit_len strip r) (origin_input_ids r @ output_ids r)"
    and "length ids = cache_commit_len strip r"
    and "paged_run ps qs (drop (cache_protected_len r) (take (kv_allocated_len r) row))"
    and "req_holds cfg holds c r row ids (take (num_pages_of ps (length ids - cache_protected_len r)) qs)"
    and "once (avail a + slots (shape c) + page_slots ps qs)"
  shows "\<exists>r' c' a'. release_kv_cache cfg (\<lambda>v a. lift_py (paged_free v a)) spilled strip spec is_insert r p c a =
      Inr (r', p\<lparr>rp_free_slots := rp_free_slots p @ [i]\<rparr>, c', a') \<and> req_pool_idx r' = None \<and>
    wf_cache cfg (unhold r holds) c' \<and> kv_good ps a' \<and> values_whole ps c' \<and>
    avail a' + slots (shape c') = avail a + slots (shape c) + page_slots ps qs \<and>
    (\<forall>u v. cached cfg c u v \<longrightarrow> cached cfg c' u v)"
  by (rule paged_release.release_spec [OF assms])

theorem release_leaks_nothing_witness:
  "\<exists>r' c' a'. release_kv_cache demo_cfg (\<lambda>v a. lift_py (paged_free v a)) (\<lambda>r p c a. Inr (r, p, c, a)) False False True
      demo_req demo_rp demo_locked demo_free =
      Inr (r', demo_rp\<lparr>rp_free_slots := rp_free_slots demo_rp @ [1]\<rparr>, c', a') \<and>
    avail a' + slots (shape c') = avail demo_free + slots (shape demo_locked) + page_slots 2 [2, 3]"
proof -
  have f: "\<not> disable demo_cfg" "enable_kv_cache_events demo_cfg \<longrightarrow> hasher_ok demo_cfg" "page_size demo_cfg = 2"
    by (simp_all add: demo_cfg_def)
  have r: "req_pool_idx demo_req = Some 1" "1 < rp_alloc_size demo_rp" "1 \<notin> set (rp_free_slots demo_rp)"
    "rp_row (Some 1) demo_rp = Inr demo_row" "kv_allocated_len demo_req \<le> length demo_row"
    "\<not> kv_committed_freed demo_req" "\<not> kv_overallocated_freed demo_req" "\<not> kv_spilled_to_host demo_req"
    "cache_commit_len False demo_req \<le> kv_allocated_len demo_req"
    "False \<or> False \<or> cache_commit_len False demo_req = kv_allocated_len demo_req"
    "[1, 2, 3, 4, 5, 6, 7] = take (cache_commit_len False demo_req) (origin_input_ids demo_req @ output_ids demo_req)"
    "length [1, 2, 3, 4, 5, 6, 7 :: nat] = cache_commit_len False demo_req"
    "paged_run 2 [2, 3] (drop (cache_protected_len demo_req) (take (kv_allocated_len demo_req) demo_row))"
    "take (num_pages_of 2 (length [1, 2, 3, 4, 5, 6, 7 :: nat] - cache_protected_len demo_req)) [2, 3 :: nat] = [2, 3]"
    by code_simp+
  from release_leaks_nothing [OF demo_locked_facts(1) f demo_locked_facts(3) demo_free_good(1) r(1-13) _ demo_free_good(2)]
    demo_req_holds
  show ?thesis unfolding r(14) by blast
qed



end
