(* ===== verification/Cache_System.thy ===== *)
theory Cache_System
  imports Kv_Requests
begin

text \<open>
  The radix cache, the KV allocator and the requests as one system. A state has the cache, the pool, the
  lock counts that requests took on nodes, and the slots that requests hold outside the tree. A step is
  one call of the scheduler on the cache or on the allocator; the calls are interleaved freely. The
  invariant puts the contracts of the components together.
\<close>

type_synonym system = "radix_cache \<times> kv_pool \<times> (nat \<Rightarrow> nat) \<times> nat multiset"

abbreviation sys_free :: "kind \<Rightarrow> nat list \<Rightarrow> kv_pool \<Rightarrow> kv_pool rr" where
  "sys_free k \<equiv> \<lambda>v a. lift_py (pool_free k v a)"

text \<open>A request looks a prefix up; it hands over the part of its slots that is new to the tree, on whole pages; it takes
  and drops a lock; the scheduler evicts; it closes a session; or the allocator makes a step of its own with the
  slots \<open>H\<close> the requests hold.\<close>

inductive sys_step :: "radix_config \<Rightarrow> kind \<Rightarrow> system \<Rightarrow> system \<Rightarrow> bool" for cfg k where
  lookup: "is_bigram q \<longrightarrow> is_eagle cfg \<Longrightarrow> match_prefix cfg q c = Inr (x, c') \<Longrightarrow> sys_step cfg k (c, a, holds, H) (c', a, holds, H)"
| insert: "is_bigram q \<longrightarrow> is_eagle cfg \<Longrightarrow> length (lookup_units cfg q) \<le> length val \<Longrightarrow>
     radix_insert cfg q (Some val) pri chunked c = Inr ((m, j), c') \<Longrightarrow> new = drop m (take (length (lookup_units cfg q)) val) \<Longrightarrow>
     whole (page_size cfg) new \<Longrightarrow> mset new \<subseteq># H \<Longrightarrow> sys_step cfg k (c, a, holds, H) (c', a, holds, H - mset new)"
| lock: "nodes c i \<noteq> None \<Longrightarrow> inc_lock_ref cfg i c = Inr (d, c') \<Longrightarrow>
     sys_step cfg k (c, a, holds, H) (c', a, holds(i := holds i + 1), H)"
| unlock: "0 < holds i \<Longrightarrow> dec_lock_ref cfg i c = Inr (d, c') \<Longrightarrow>
     sys_step cfg k (c, a, holds, H) (c', a, holds(i := holds i - 1), H)"
| evict: "evict cfg (sys_free k) num c a = Inr (n, c', a') \<Longrightarrow> sys_step cfg k (c, a, holds, H) (c', a', holds, H)"
| close: "session_indexed sid c \<Longrightarrow> release_radix_session cfg (sys_free k) sid c a = Inr (n, c', a') \<Longrightarrow>
     sys_step cfg k (c, a, holds, H) (c', a', holds, H)"
| pool: "kv_step k (a, H) (a', H') \<Longrightarrow> sys_step cfg k (c, a, holds, H) (c, a', holds, H')"

inductive_cases sys_stepE: "sys_step cfg k s s'"

definition sys_init :: "radix_config \<Rightarrow> kind \<Rightarrow> nat \<Rightarrow> bool \<Rightarrow> bool \<Rightarrow> radix_cache \<Rightarrow> system" where
  "sys_init cfg k pool_len sort_needed debug c =
     (reset cfg c, pool_init k pool_len (page_size cfg) sort_needed debug, \<lambda>_. 0, {#})"

definition sys_inv :: "radix_config \<Rightarrow> system \<Rightarrow> bool" where
  "sys_inv cfg s = (case s of (c, a, holds, H) \<Rightarrow>
     wf_cache cfg holds c \<and> values_whole (page_size cfg) c \<and> pool_inv (page_size cfg) (a, slots (shape c) + H))"

text \<open>What the system needs of its configuration.\<close>

definition sys_cfg :: "radix_config \<Rightarrow> kind \<Rightarrow> bool" where
  "sys_cfg cfg k \<longleftrightarrow> \<not> disable cfg \<and> 0 < page_size cfg \<and> (k = Token \<longrightarrow> page_size cfg = 1) \<and>
     (enable_kv_cache_events cfg \<longrightarrow> hasher_ok cfg)"

section \<open>The allocator as the system sees it\<close>

interpretation sized: kv_release "sys_free k" ps "\<lambda>a. kv_good ps a \<and> pool_size a = N \<and> (k = Token \<longrightarrow> ps = 1)" avail for k ps N
proof
  fix a :: kv_pool and v
  assume a: "kv_good ps a \<and> pool_size a = N \<and> (k = Token \<longrightarrow> ps = 1)" "distinct v" "once (avail a + covered ps v)"
  then show "\<exists>a'. sys_free k v a = Inr a' \<and> (kv_good ps a' \<and> pool_size a' = N \<and> (k = Token \<longrightarrow> ps = 1)) \<and> avail a' = avail a + covered ps v"
    using pool_free_law [of ps a v k] by (auto simp: took_back_def)
qed (simp add: kv_good_def)

text \<open>An allocator step does not depend on slots it does not touch.\<close>

lemma kv_step_frame:
  assumes "kv_step k (a, H) (a', H')"
  shows "kv_step k (a, X + H) (a', X + H')"
  using assms
proof (cases rule: kv_step.cases)
  case (alloc n v)
  then show ?thesis using kv_step.alloc [of k n a v a' "X + H"] by (simp add: add.assoc)
next
  case (free v)
  have sub: "covered (pg_size a) v \<subseteq># X + H" using free(3) by (simp add: subset_mset.add_increasing)
  have "X + H - covered (pg_size a) v = X + H'" unfolding free(1) using free(3) by (rule subset_mset.diff_add_assoc)
  then show ?thesis using kv_step.free [OF free(2) sub free(4)] by (simp only:)
qed (blast intro: kv_step.intros)+

lemma pool_inv_moved:
  assumes "pool_inv ps (a, S + H)" "kv_good ps a'" "pool_size a' = pool_size a" "avail a' + S' = avail a + S"
  shows "pool_inv ps (a', S' + H)"
  using assms by (simp add: pool_inv_def add.assoc [symmetric])

lemma sys_good:
  assumes "sys_inv cfg (c, a, holds, H)" "sys_cfg cfg k"
  shows "kv_good (page_size cfg) a \<and> pool_size a = pool_size a \<and> (k = Token \<longrightarrow> page_size cfg = 1)"
    "once (avail a + slots (shape c))"
proof -
  have p: "pool_inv (page_size cfg) (a, slots (shape c) + H)" using assms(1) by (simp add: sys_inv_def)
  then show "kv_good (page_size cfg) a \<and> pool_size a = pool_size a \<and> (k = Token \<longrightarrow> page_size cfg = 1)"
    using assms(2) by (simp add: pool_inv_def sys_cfg_def)
  have "once ((avail a + slots (shape c)) + H)" using pool_inv_once [OF p] by (simp add: add.assoc)
  then show "once (avail a + slots (shape c))" by (simp only: once_plus)
qed

section \<open>Steps keep the invariant\<close>

lemma insert_whole:
  assumes wf: "wf_cache cfg holds c" and w: "values_whole (page_size cfg) c" and i: "inserted cfg holds c U V m mv c' j"
    and n: "whole (page_size cfg) (drop m V)" "length V = length U"
  shows "values_whole (page_size cfg) c'"
proof -
  have wf': "wf_cache cfg holds c'" and m: "page_size cfg dvd m" and mv: "cached cfg c (take m U) mv" using i by (simp_all add: inserted_def)
  have old: "whole (page_size cfg) x" if "cached cfg c u x" for u x using that w values_whole_cached [OF wf] by blast
  have "whole (page_size cfg) x" if "cached cfg c' u x" for u x
  proof -
    consider "cached cfg c u x" | n' where "m < n'" "page_size cfg dvd n'" "x = mv @ drop m (take n' V)"
    proof -
      have "cached cfg c' u x \<longleftrightarrow> cached cfg c u x \<or> (\<exists>n. m < n \<and> n \<le> length U \<and> page_size cfg dvd n \<and> u = take n U \<and> x = mv @ drop m (take n V))"
        using i by (simp only: inserted_def)
      then show ?thesis using \<open>cached cfg c' u x\<close> that by metis
    qed
    then show ?thesis
    proof cases
      case 2
      have "whole (page_size cfg) (take (n' - m) (drop m V))" using whole_take [OF n(1)] 2 m by (simp add: dvd_diff_nat)
      then have "whole (page_size cfg) (drop m (take n' V))" by (simp only: drop_take)
      then show ?thesis unfolding 2(3) by (rule whole_append [OF old [OF mv]])
    qed (rule old)
  qed
  then show ?thesis using values_whole_cached [OF wf'] by blast
qed

lemma sys_insert:
  assumes I: "sys_inv cfg (c, a, holds, H)" and C: "sys_cfg cfg k" and q: "is_bigram q \<longrightarrow> is_eagle cfg" "length (lookup_units cfg q) \<le> length val"
    and r: "radix_insert cfg q (Some val) pri chunked c = Inr ((m, j), c')" and n: "new = drop m (take (length (lookup_units cfg q)) val)"
    and w: "whole (page_size cfg) new" "mset new \<subseteq># H"
  shows "sys_inv cfg (c', a, holds, H - mset new)"
proof -
  let ?U = "lookup_units cfg q"
  have inv: "wf_cache cfg holds c" "values_whole (page_size cfg) c" "pool_inv (page_size cfg) (a, slots (shape c) + H)"
    using I by (simp_all add: sys_inv_def)
  obtain mv j' where ins: "inserted cfg holds c ?U (take (length ?U) val) m mv c' j'"
    using radix_insert_spec [OF inv(1) _ q, of pri chunked] C r by (auto simp: sys_cfg_def)
  then have s: "slots (shape c') = slots (shape c) + mset new" and wf': "wf_cache cfg holds c'" by (simp_all add: inserted_def n)
  have "slots (shape c') + (H - mset new) = slots (shape c) + H" using s w(2) by (simp add: add.assoc)
  moreover have "values_whole (page_size cfg) c'"
    by (rule insert_whole [OF inv(1,2) ins]) (use w n q in \<open>simp_all\<close>)
  ultimately show ?thesis using wf' inv(3) by (simp add: sys_inv_def)
qed

lemma sys_keeps:
  assumes I: "sys_inv cfg (c, a, holds, H)" and "wf_cache cfg holds' c'" "keeps cfg c c'"
  shows "sys_inv cfg (c', a, holds', H)"
  using keeps_whole [OF assms(3) _ assms(2), of holds] assms by (auto simp: sys_inv_def keeps_def)

lemma sys_evict:
  assumes I: "sys_inv cfg (c, a, holds, H)" and C: "sys_cfg cfg k"
  shows "\<exists>n c' a'. evict cfg (sys_free k) num c a = Inr (n, c', a') \<and> sys_inv cfg (c', a', holds, H)"
proof -
  have inv: "wf_cache cfg holds c" "values_whole (page_size cfg) c" "pool_inv (page_size cfg) (a, slots (shape c) + H)"
    using I by (simp_all add: sys_inv_def)
  have "\<not> disable cfg" "enable_kv_cache_events cfg \<longrightarrow> hasher_ok cfg" using C by (simp_all add: sys_cfg_def)
  from sized.evict_spec [OF inv(1) this sys_good [OF I C] inv(2), of num] obtain n c' a' where
    "evict cfg (sys_free k) num c a = Inr (n, c', a')" "wf_cache cfg holds c'" "kv_good (page_size cfg) a'" "pool_size a' = pool_size a"
    "avail a' + slots (shape c') = avail a + slots (shape c)" "values_whole (page_size cfg) c'" by blast
  then show ?thesis using pool_inv_moved [OF inv(3)] by (auto simp: sys_inv_def)
qed

lemma sys_close:
  assumes I: "sys_inv cfg (c, a, holds, H)" and C: "sys_cfg cfg k" and s: "session_indexed sid c"
  shows "\<exists>n c' a'. release_radix_session cfg (sys_free k) sid c a = Inr (n, c', a') \<and> sys_inv cfg (c', a', holds, H)"
proof -
  have inv: "wf_cache cfg holds c" "values_whole (page_size cfg) c" "pool_inv (page_size cfg) (a, slots (shape c) + H)"
    using I by (simp_all add: sys_inv_def)
  from sized.release_session_spec [OF inv(1) sys_good [OF I C] inv(2) s] obtain n c' a' where
    "release_radix_session cfg (sys_free k) sid c a = Inr (n, c', a')" "wf_cache cfg holds c'" "kv_good (page_size cfg) a'" "pool_size a' = pool_size a"
    "avail a' + slots (shape c') = avail a + slots (shape c)" "values_whole (page_size cfg) c'" by blast
  then show ?thesis using pool_inv_moved [OF inv(3)] by (auto simp: sys_inv_def)
qed

lemma sys_step_inv:
  assumes "sys_step cfg k s s'" "sys_inv cfg s" and C: "sys_cfg cfg k"
  shows "sys_inv cfg s'"
  using assms(1,2)
proof (cases rule: sys_step.cases)
  case (lookup q c x c' a holds H)
  have "wf_cache cfg holds c" using assms(2) lookup by (simp add: sys_inv_def)
  then obtain y c2 where "match_prefix cfg q c = Inr (y, c2)" "wf_cache cfg holds c2" "keeps cfg c c2"
    using match_prefix_keeps [of cfg holds c q] C lookup(3) by (metis sys_cfg_def)
  then show ?thesis using sys_keeps assms(2) lookup by auto
next
  case (insert q val pri chunked c m j c' new H a holds)
  then show ?thesis using sys_insert [OF _ C] assms(2) by metis
next
  case (lock c i d c' a holds H)
  have "wf_cache cfg holds c" using assms(2) lock by (simp add: sys_inv_def)
  then show ?thesis using inc_lock_ref_keeps [of cfg holds c i] sys_keeps C assms(2) lock by (auto simp: sys_cfg_def)
next
  case (unlock holds i c d c' a H)
  have "wf_cache cfg holds c" using assms(2) unlock by (simp add: sys_inv_def)
  then show ?thesis using dec_lock_ref_keeps [of cfg holds c i] sys_keeps C assms(2) unlock by (auto simp: sys_cfg_def)
next
  case (evict num c a n c' a' holds H)
  then show ?thesis using sys_evict [OF _ C, of c a holds H num] assms(2) by auto
next
  case (close sid c a n c' a' holds H)
  then show ?thesis using sys_close [OF _ C, of c a holds H sid] assms(2) by auto
next
  case (pool a H a' H' c holds)
  have "pool_inv (page_size cfg) (a', slots (shape c) + H')"
    by (rule kv_step_inv [OF kv_step_frame [OF pool(3)]]) (use assms(2) pool(1) C in \<open>simp_all add: sys_inv_def sys_cfg_def\<close>)
  then show ?thesis using assms(2) pool by (simp add: sys_inv_def)
qed

lemma reset_slots: "slots (shape (reset cfg c)) = {#}" "values_whole ps (reset cfg c)"
proof -
  obtain n where n: "nodes (reset cfg c) = [node_counter c \<mapsto> n]" "nvalue n = Some []"
    by (simp add: reset_def TreeNode_def record_all_cleared_event_def Let_def)
  then show "values_whole ps (reset cfg c)" by (simp add: values_whole_def)
  have "node_slots (shape (reset cfg c)) i = {#}" for i using n by (simp add: node_slots_def shape_def skel_def)
  then show "slots (shape (reset cfg c)) = {#}" by (simp add: slots_def)
qed

lemma sys_init_inv:
  assumes "sys_cfg cfg k" "page_size cfg dvd pool_len"
  shows "sys_inv cfg (sys_init cfg k pool_len sort_needed debug c)"
  using assms reset_wf [of cfg c] pool_init_inv [of "page_size cfg" pool_len k sort_needed debug]
  by (auto simp: sys_inv_def sys_init_def sys_cfg_def reset_slots)

lemma sys_run_inv:
  assumes "(sys_step cfg k)\<^sup>*\<^sup>* (sys_init cfg k pool_len sort_needed debug c0) s" "sys_cfg cfg k" "page_size cfg dvd pool_len"
  shows "sys_inv cfg s"
  using assms(1)
  by (induction rule: rtranclp_induct) (use sys_init_inv [OF assms(2,3)] sys_step_inv [OF _ _ assms(2)] in auto)

section \<open>Properties\<close>

text \<open>A run of the example configuration: allocate two pages and hand them to the tree.\<close>

definition demo_sys :: system where
  "demo_sys = sys_init demo_cfg Paged 16 False False blank_cache"

definition demo_taken :: kv_pool where
  "demo_taken = (case pool_alloc Paged 4 (fst (snd demo_sys)) of Inr (_, a) \<Rightarrow> a | Inl _ \<Rightarrow> fst (snd demo_sys))"

definition demo_filled :: radix_cache where
  "demo_filled = (case radix_insert demo_cfg (RadixKey [1, 2, 3, 4] None False None) (Some [2, 3, 4, 5]) 0 False (fst demo_sys) of
     Inr (_, c) \<Rightarrow> c | Inl _ \<Rightarrow> fst demo_sys)"

lemma demo_sys_cfg: "sys_cfg demo_cfg Paged" "page_size demo_cfg dvd 16"
  by (simp_all add: sys_cfg_def demo_cfg_def)

lemma demo_run: "(sys_step demo_cfg Paged)\<^sup>*\<^sup>* (sys_init demo_cfg Paged 16 False False blank_cache) (demo_filled, demo_taken, \<lambda>_. 0, {#})"
proof -
  let ?k = "RadixKey [1, 2, 3, 4] None False None" and ?c = "fst demo_sys" and ?a = "fst (snd demo_sys)"
  have sys: "sys_init demo_cfg Paged 16 False False blank_cache = (?c, ?a, \<lambda>_. 0, {#})" by (simp add: demo_sys_def sys_init_def)
  have "case pool_alloc Paged 4 ?a of Inr (v, _) \<Rightarrow> v = Some [2, 3, 4, 5] | Inl _ \<Rightarrow> False" by code_simp
  then have "pool_alloc Paged 4 ?a = Inr (Some [2, 3, 4, 5], demo_taken)" by (auto simp: demo_taken_def split: sum.splits)
  then have al: "sys_step demo_cfg Paged (?c, ?a, \<lambda>_. 0, {#}) (?c, demo_taken, \<lambda>_. 0, {#} + mset [2, 3, 4, 5])"
    by (intro sys_step.pool kv_step.alloc)
  have "case radix_insert demo_cfg ?k (Some [2, 3, 4, 5]) 0 False ?c of Inr ((m, _), _) \<Rightarrow> m = 0 | Inl _ \<Rightarrow> False" by code_simp
  then obtain j where "radix_insert demo_cfg ?k (Some [2, 3, 4, 5]) 0 False ?c = Inr ((0, j), demo_filled)"
    by (auto simp: demo_filled_def split: sum.splits)
  moreover have "length (lookup_units demo_cfg ?k) = 4" by code_simp
  moreover have "whole 2 [2, 3, 4, 5]" unfolding whole_def by (rule exI [of _ "[1, 2]"]) (simp add: page_of_def upt_rec)
  ultimately have "sys_step demo_cfg Paged (?c, demo_taken, \<lambda>_. 0, mset [2, 3, 4, 5]) (demo_filled, demo_taken, \<lambda>_. 0, mset [2, 3, 4, 5] - mset [2, 3, 4, 5])"
    by (intro sys_step.insert [of ?k]) (auto simp: demo_cfg_def)
  then show ?thesis unfolding sys using al by (auto intro: rtranclp_trans [OF r_into_rtranclp r_into_rtranclp])
qed

text \<open>C1: every reachable state of cache and pool is well-formed. Starting from an empty cache and a new pool, after any
  interleaving of lookups, insertions, locks, evictions, session closings and allocator operations the tree is
  well-formed with the locks that were taken, the sizes it reports are those of the tree, its nodes hold whole pages,
  and every slot of the pool is in exactly one place: available in the allocator, in the tree, or held by a
  request.\<close>

theorem reachable_states_well_formed:
  assumes "(sys_step cfg k)\<^sup>*\<^sup>* (sys_init cfg k pool_len sort_needed debug c0) (c, a, holds, H)"
    and "sys_cfg cfg k" and "page_size cfg dvd pool_len"
  shows "wf_cache cfg holds c \<and> values_whole (page_size cfg) c \<and> total_size_helper c = Inr (evictable_sz c + protected_sz c) \<and>
    avail a + slots (shape c) + H = page_slots (page_size cfg) [1..<pool_size a div page_size cfg + 1] \<and>
    once (avail a + slots (shape c) + H)"
proof -
  have I: "wf_cache cfg holds c" "values_whole (page_size cfg) c" "pool_inv (page_size cfg) (a, slots (shape c) + H)"
    using sys_run_inv [OF assms] by (simp_all add: sys_inv_def)
  have "avail a + slots (shape c) + H = page_slots (page_size cfg) [1..<pool_size a div page_size cfg + 1]"
    using I(3) by (simp add: pool_inv_def add.assoc del: upt_Suc)
  moreover have "once (avail a + slots (shape c) + H)" using pool_inv_once [OF I(3)] by (simp only: add.assoc)
  ultimately show ?thesis using I(1,2) total_size_helper_spec [OF I(1)] by blast
qed

theorem reachable_states_well_formed_witness:
  "wf_cache demo_cfg (\<lambda>_. 0) demo_filled \<and> total_size_helper demo_filled = Inr 4 \<and>
   avail demo_taken + slots (shape demo_filled) = page_slots 2 [1..<9]"
proof -
  have p: "page_size demo_cfg = 2" by (simp add: demo_cfg_def)
  have "pool_size demo_taken = 16" "evictable_sz demo_filled + protected_sz demo_filled = 4" by code_simp+
  then show ?thesis using reachable_states_well_formed [OF demo_run demo_sys_cfg] unfolding p by simp
qed



end
