(* ===== verification/Ledger.thy ===== *)
theory Ledger
  imports Prelude "HOL-Library.List_Lexorder" "HOL-Library.Char_ord"
begin

text \<open>
  The VRAM reservation ledger of the model registry (\<^verbatim>\<open>registry/ledger.py\<close>). The store is the map from
  ledger file names to the entries a file holds; every operation of \<^verbatim>\<open>ReservationStore\<close> runs under the
  exclusive lock of one card, so it is one function of the store, and processes interleave whole
  operations. Writing and parsing the JSON file, the locks themselves and the log messages are not
  modelled: a file is its list of entries. Clock readings and leases are integers in one unit;
  they are only added and compared; a sequence of readings is a function \<open>clock\<close>. Parameters: \<open>pid_alive\<close> (the process table), \<open>resolve\<close> (the total
  memory NVML reports for a card) and the clock reading \<open>now\<close>.
\<close>

section \<open>Entries\<close>

datatype tenant_state = HOT | WARM_GPU | WARM_HOST | COLD

definition gpu_resident_states :: "tenant_state list" where
  "gpu_resident_states = [HOT, WARM_GPU]"

record reservation_entry =
  tenant_id :: string
  klass :: int
  tenant_state :: tenant_state
  reserved_bytes :: int
  measured_bytes :: int
  posts :: "(string \<times> int) list"
  pid :: int
  heartbeat_ts :: int
  lease_expiry_ts :: int
  in_grace :: bool
  grace_since_ts :: int

definition is_gpu_resident :: "reservation_entry \<Rightarrow> bool" where
  "is_gpu_resident e \<longleftrightarrow> tenant_state e \<in> set gpu_resident_states"

definition lease_expired :: "int \<Rightarrow> reservation_entry \<Rightarrow> bool" where
  "lease_expired now e \<longleftrightarrow> lease_expiry_ts e < now"

datatype ledger_error =
    Ledger_ValueError
  | Ledger_KeyError
  | ReservationRejected (card_of: string) (requested_of: int) (shortfall_of: int) (holders_of: "string list")
  | UnknownTenantError

section \<open>The contents of one card\<close>

record card_ledger =
  card_uuid :: string
  entries :: "reservation_entry list"

definition find_tenant :: "string \<Rightarrow> reservation_entry list \<Rightarrow> reservation_entry option" where
  "find_tenant t es = find (\<lambda>e. tenant_id e = t) es"

definition gpu_resident :: "reservation_entry list \<Rightarrow> reservation_entry list" where
  "gpu_resident es = filter is_gpu_resident es"

definition held_bytes :: "reservation_entry list \<Rightarrow> int" where
  "held_bytes es = sum_list (map reserved_bytes (gpu_resident es))"

definition ledger_measured_bytes :: "card_ledger \<Rightarrow> int" where
  "ledger_measured_bytes l = sum_list (map measured_bytes (gpu_resident (entries l)))"

definition waste_bytes :: "card_ledger \<Rightarrow> int" where
  "waste_bytes l = held_bytes (entries l) - ledger_measured_bytes l"

definition grace_bytes :: "card_ledger \<Rightarrow> int" where
  "grace_bytes l = sum_list (map reserved_bytes (filter in_grace (gpu_resident (entries l))))"

section \<open>The store\<close>

type_synonym store = "string \<Rightarrow> reservation_entry list"

text \<open>\<open>_safe_name\<close>, for ASCII names.\<close>

definition safe_char :: "char \<Rightarrow> char" where
  "safe_char c =
     (let n = (of_char c :: nat) in
      if (48 \<le> n \<and> n \<le> 57) \<or> (65 \<le> n \<and> n \<le> 90) \<or> (97 \<le> n \<and> n \<le> 122) \<or> c \<in> set ''-_.'' then c
      else CHR ''_'')"

definition safe_name :: "string \<Rightarrow> string" where
  "safe_name u = map safe_char u"

definition read_unlocked :: "string \<Rightarrow> store \<Rightarrow> reservation_entry list" where
  "read_unlocked u st = st (safe_name u)"

definition write_unlocked :: "string \<Rightarrow> reservation_entry list \<Rightarrow> store \<Rightarrow> store" where
  "write_unlocked u es st = st(safe_name u := es)"

definition ledger_read :: "string \<Rightarrow> store \<Rightarrow> card_ledger" where
  "ledger_read u st = \<lparr>card_uuid = u, entries = read_unlocked u st\<rparr>"

definition ledger_waste :: "string \<Rightarrow> store \<Rightarrow> int" where
  "ledger_waste u st = waste_bytes (ledger_read u st)"

definition reap_unlocked ::
  "(int \<Rightarrow> bool) \<Rightarrow> int \<Rightarrow> reservation_entry list \<Rightarrow> reservation_entry list \<times> reservation_entry list" where
  "reap_unlocked pid_alive now es =
     (filter (\<lambda>e. \<not> (lease_expired now e \<and> \<not> pid_alive (pid e))) es,
      filter (\<lambda>e. lease_expired now e \<and> \<not> pid_alive (pid e)) es)"

definition reap :: "(int \<Rightarrow> bool) \<Rightarrow> int \<Rightarrow> string \<Rightarrow> store \<Rightarrow> reservation_entry list \<times> store" where
  "reap pid_alive now u st =
     (let (live, stale) = reap_unlocked pid_alive now (read_unlocked u st)
      in (stale, if stale \<noteq> [] then write_unlocked u live st else st))"

definition resolve_total :: "(string \<Rightarrow> int) \<Rightarrow> string \<Rightarrow> int option \<Rightarrow> int" where
  "resolve_total resolve u override = (case override of Some n \<Rightarrow> n | None \<Rightarrow> resolve u)"

definition rejection ::
  "int \<Rightarrow> string \<Rightarrow> reservation_entry list \<Rightarrow> reservation_entry \<Rightarrow> int \<Rightarrow> int \<Rightarrow> ledger_error" where
  "rejection corridor u others e held tot =
     ReservationRejected u (reserved_bytes e) (held + reserved_bytes e + corridor - tot)
       (map tenant_id (gpu_resident others))"

record reserve_args =
  ra_tenant :: string
  ra_klass :: int
  ra_state :: tenant_state
  ra_measured :: int
  ra_pid :: int
  ra_lease :: int

definition new_entry :: "int \<Rightarrow> int \<Rightarrow> (string \<times> int) list \<Rightarrow> reserve_args \<Rightarrow> reservation_entry" where
  "new_entry now bytes ps args =
     \<lparr>tenant_id = ra_tenant args, klass = ra_klass args, tenant_state = ra_state args,
      reserved_bytes = bytes, measured_bytes = ra_measured args, posts = ps, pid = ra_pid args,
      heartbeat_ts = now, lease_expiry_ts = now + ra_lease args, in_grace = False, grace_since_ts = 0\<rparr>"

definition ledger_acquire ::
  "(int \<Rightarrow> bool) \<Rightarrow> (string \<Rightarrow> int) \<Rightarrow> int \<Rightarrow> int \<Rightarrow> string \<Rightarrow> int \<Rightarrow> int option \<Rightarrow> (string \<times> int) list \<Rightarrow> reserve_args \<Rightarrow>
   store \<Rightarrow> ledger_error + (reservation_entry \<times> store)" where
  "ledger_acquire pid_alive resolve corridor now u bytes override ps args st =
     (if bytes < 0 then Inl Ledger_ValueError
      else if ra_lease args \<le> 0 then Inl Ledger_ValueError
      else
        let tot = resolve_total resolve u override;
            (es, _) = reap_unlocked pid_alive now (read_unlocked u st);
            others = filter (\<lambda>e. tenant_id e \<noteq> ra_tenant args) es;
            e = new_entry now bytes ps args;
            held = held_bytes others
        in if is_gpu_resident e \<and> tot < held + reserved_bytes e + corridor
           then Inl (rejection corridor u others e held tot)
           else Inr (e, write_unlocked u (others @ [e]) st))"

definition replace_locked ::
  "string \<Rightarrow> reservation_entry list \<Rightarrow> string \<Rightarrow> reservation_entry \<Rightarrow> store \<Rightarrow> reservation_entry \<times> store" where
  "replace_locked u es t updated st =
     (updated, write_unlocked u (map (\<lambda>e. if tenant_id e = t then updated else e) es) st)"

definition mutate ::
  "string \<Rightarrow> string \<Rightarrow> (reservation_entry \<Rightarrow> reservation_entry) \<Rightarrow> store \<Rightarrow> ledger_error + (reservation_entry \<times> store)" where
  "mutate u t fn st =
     (let es = read_unlocked u st in
      case find_tenant t es of
        None \<Rightarrow> Inl UnknownTenantError
      | Some current \<Rightarrow> Inr (replace_locked u es t (fn current) st))"

definition ledger_heartbeat :: "int \<Rightarrow> int \<Rightarrow> string \<Rightarrow> string \<Rightarrow> store \<Rightarrow> ledger_error + (reservation_entry \<times> store)" where
  "ledger_heartbeat now lease u t st = mutate u t (\<lambda>e. e\<lparr>heartbeat_ts := now, lease_expiry_ts := now + lease\<rparr>) st"

definition set_grace :: "int \<Rightarrow> bool \<Rightarrow> string \<Rightarrow> string \<Rightarrow> store \<Rightarrow> ledger_error + (reservation_entry \<times> store)" where
  "set_grace now b u t st = mutate u t (\<lambda>e. e\<lparr>in_grace := b, grace_since_ts := (if b then now else 0)\<rparr>) st"

definition update_measured :: "int \<Rightarrow> string \<Rightarrow> string \<Rightarrow> store \<Rightarrow> ledger_error + (reservation_entry \<times> store)" where
  "update_measured n u t st = mutate u t (\<lambda>e. e\<lparr>measured_bytes := n\<rparr>) st"

definition set_state ::
  "(string \<Rightarrow> int) \<Rightarrow> int \<Rightarrow> string \<Rightarrow> string \<Rightarrow> tenant_state \<Rightarrow> store \<Rightarrow> ledger_error + (reservation_entry \<times> store)" where
  "set_state resolve corridor u t s st =
     (if s \<in> set gpu_resident_states
      then
        let es = read_unlocked u st in
        case find_tenant t es of
          None \<Rightarrow> Inl UnknownTenantError
        | Some current \<Rightarrow>
            if is_gpu_resident current then Inr (replace_locked u es t (current\<lparr>tenant_state := s\<rparr>) st)
            else
              let others = filter (\<lambda>e. tenant_id e \<noteq> t) es;
                  held = held_bytes others;
                  tot = resolve_total resolve u None;
                  promoted = current\<lparr>tenant_state := s\<rparr>
              in if tot < held + reserved_bytes promoted + corridor
                 then Inl (rejection corridor u others promoted held tot)
                 else Inr (replace_locked u es t promoted st)
      else mutate u t (\<lambda>e. e\<lparr>tenant_state := s\<rparr>) st)"

definition ledger_release :: "string \<Rightarrow> string \<Rightarrow> store \<Rightarrow> bool \<times> store" where
  "ledger_release u t st =
     (let es = read_unlocked u st; kept = filter (\<lambda>e. tenant_id e \<noteq> t) es
      in if length kept = length es then (False, st) else (True, write_unlocked u kept st))"

definition available_bytes :: "int \<Rightarrow> string \<Rightarrow> int \<Rightarrow> string option \<Rightarrow> store \<Rightarrow> int" where
  "available_bytes corridor u tot excluding st =
     (let held = sum_list (map reserved_bytes
            (filter (\<lambda>e. excluding = None \<or> Some (tenant_id e) \<noteq> excluding) (gpu_resident (read_unlocked u st))))
      in max 0 (tot - held - corridor))"

section \<open>Several cards\<close>

record card_demand =
  demand_card :: string
  demand_bytes :: int
  demand_posts :: "(string \<times> int) list"

definition CardDemand :: "string \<Rightarrow> int \<Rightarrow> (string \<times> int) list \<Rightarrow> ledger_error + card_demand" where
  "CardDemand u n ps = (if n < 0 then Inl Ledger_ValueError
     else Inr \<lparr>demand_card = u, demand_bytes = n, demand_posts = ps\<rparr>)"

record card_shortfall =
  cs_card :: string
  cs_requested :: int
  cs_held :: int
  cs_corridor :: int
  cs_total :: int
  cs_holders :: "string list"

definition shortfall_bytes :: "card_shortfall \<Rightarrow> int" where
  "shortfall_bytes s = (cs_held s + cs_requested s + cs_corridor s) - cs_total s"

record feasibility_report =
  fits :: bool
  shortfalls :: "card_shortfall list"

definition report_shortfall_bytes :: "feasibility_report \<Rightarrow> int" where
  "report_shortfall_bytes r = sum_list (map shortfall_bytes (shortfalls r))"

fun plan_shortfalls ::
  "int \<Rightarrow> (string \<rightharpoonup> int) \<Rightarrow> string list \<Rightarrow> bool \<Rightarrow> store \<Rightarrow> card_demand list \<Rightarrow> ledger_error + card_shortfall list" where
  "plan_shortfalls corridor totals ignored empty_rig st [] = Inr []"
| "plan_shortfalls corridor totals ignored empty_rig st (d # ds) =
     (let resident = (if empty_rig then []
                      else filter (\<lambda>e. tenant_id e \<notin> set ignored) (gpu_resident (read_unlocked (demand_card d) st)));
          held = sum_list (map reserved_bytes resident)
      in case totals (demand_card d) of
           None \<Rightarrow> Inl Ledger_KeyError
         | Some tot \<Rightarrow>
             (case plan_shortfalls corridor totals ignored empty_rig st ds of
                Inl e \<Rightarrow> Inl e
              | Inr rest \<Rightarrow>
                  if tot < held + demand_bytes d + corridor
                  then Inr (\<lparr>cs_card = demand_card d, cs_requested = demand_bytes d, cs_held = held,
                             cs_corridor = corridor, cs_total = tot, cs_holders = map tenant_id resident\<rparr> # rest)
                  else Inr rest))"

definition plan_reservation ::
  "int \<Rightarrow> (string \<rightharpoonup> int) \<Rightarrow> string option \<Rightarrow> string list \<Rightarrow> bool \<Rightarrow> store \<Rightarrow> card_demand list \<Rightarrow>
   ledger_error + feasibility_report" where
  "plan_reservation corridor totals excluding ignoring on_empty_rig st demands =
     (let ignored = ignoring @ (case excluding of None \<Rightarrow> [] | Some t \<Rightarrow> [t])
      in case plan_shortfalls corridor totals ignored on_empty_rig st demands of
           Inl e \<Rightarrow> Inl e
         | Inr ss \<Rightarrow> Inr \<lparr>fits = (ss = []), shortfalls = ss\<rparr>)"

text \<open>\<open>MultiCardReservation\<close>: the handle is the list of cards held. An exception leaves the changes made
  before it in the store, so the outcome carries the store in every case.\<close>

fun multi_release :: "string \<Rightarrow> string list \<Rightarrow> store \<Rightarrow> store" where
  "multi_release t [] st = st"
| "multi_release t (u # us) st = multi_release t us (snd (ledger_release u t st))"

definition is_ledger_error :: "ledger_error \<Rightarrow> bool" where
  "is_ledger_error e = (case e of ReservationRejected _ _ _ _ \<Rightarrow> True | UnknownTenantError \<Rightarrow> True | _ \<Rightarrow> False)"

fun multi_take ::
  "(int \<Rightarrow> bool) \<Rightarrow> (string \<Rightarrow> int) \<Rightarrow> (string \<rightharpoonup> int) \<Rightarrow> int \<Rightarrow> (nat \<Rightarrow> int) \<Rightarrow> reserve_args \<Rightarrow> card_demand list \<Rightarrow>
   reservation_entry list \<Rightarrow> string list \<Rightarrow> store \<Rightarrow>
   (ledger_error + reservation_entry list) \<times> string list \<times> store" where
  "multi_take pid_alive resolve totals corridor clock args [] taken held st = (Inr taken, held, st)"
| "multi_take pid_alive resolve totals corridor clock args (d # ds) taken held st =
     (case ledger_acquire pid_alive resolve corridor (clock (length taken)) (demand_card d) (demand_bytes d) (totals (demand_card d))
             (demand_posts d) args st of
        Inl e \<Rightarrow> if is_ledger_error e then (Inl e, [], multi_release (ra_tenant args) held st) else (Inl e, held, st)
      | Inr (e, st') \<Rightarrow>
          multi_take pid_alive resolve totals corridor clock args ds (taken @ [e]) (held @ [demand_card d]) st')"

definition multi_acquire ::
  "(int \<Rightarrow> bool) \<Rightarrow> (string \<Rightarrow> int) \<Rightarrow> (string \<rightharpoonup> int) \<Rightarrow> int \<Rightarrow> (nat \<Rightarrow> int) \<Rightarrow> reserve_args \<Rightarrow> card_demand list \<Rightarrow> string list \<Rightarrow>
   store \<Rightarrow> (ledger_error + reservation_entry list) \<times> string list \<times> store" where
  "multi_acquire pid_alive resolve totals corridor clock args demands held st =
     multi_take pid_alive resolve totals corridor clock args (sort_key demand_card demands) [] held st"

fun demote_all :: "(string \<Rightarrow> int) \<Rightarrow> int \<Rightarrow> string \<Rightarrow> tenant_state \<Rightarrow> string list \<Rightarrow> store \<Rightarrow> (ledger_error + unit) \<times> store" where
  "demote_all resolve corridor t s [] st = (Inr (), st)"
| "demote_all resolve corridor t s (u # us) st =
     (case set_state resolve corridor u t s st of
        Inl e \<Rightarrow> (Inl e, st)
      | Inr (_, st') \<Rightarrow> demote_all resolve corridor t s us st')"

fun promote_all ::
  "(string \<Rightarrow> int) \<Rightarrow> int \<Rightarrow> string \<Rightarrow> tenant_state \<Rightarrow> string list \<Rightarrow> string list \<Rightarrow> store \<Rightarrow> (ledger_error + unit) \<times> store" where
  "promote_all resolve corridor t s [] promoted st = (Inr (), st)"
| "promote_all resolve corridor t s (u # us) promoted st =
     (case set_state resolve corridor u t s st of
        Inl e \<Rightarrow> if is_ledger_error e
                 then (case demote_all resolve corridor t COLD promoted st of
                         (Inl e', st') \<Rightarrow> (Inl e', st') | (Inr _, st') \<Rightarrow> (Inl e, st'))
                 else (Inl e, st)
      | Inr (_, st') \<Rightarrow> promote_all resolve corridor t s us (promoted @ [u]) st')"

definition multi_set_state ::
  "(string \<Rightarrow> int) \<Rightarrow> int \<Rightarrow> string \<Rightarrow> string list \<Rightarrow> tenant_state \<Rightarrow> store \<Rightarrow> (ledger_error + unit) \<times> store" where
  "multi_set_state resolve corridor t held s st =
     (if s \<notin> set gpu_resident_states then demote_all resolve corridor t s held st
      else promote_all resolve corridor t s (sort held) [] st)"

fun multi_heartbeat :: "(nat \<Rightarrow> int) \<Rightarrow> int \<Rightarrow> string \<Rightarrow> string list \<Rightarrow> store \<Rightarrow> ledger_error + store" where
  "multi_heartbeat clock lease t [] st = Inr st"
| "multi_heartbeat clock lease t (u # us) st =
     (case ledger_heartbeat (clock (length us)) lease u t st of
        Inl UnknownTenantError \<Rightarrow> multi_heartbeat clock lease t us st
      | Inl e \<Rightarrow> Inl e
      | Inr (_, st') \<Rightarrow> multi_heartbeat clock lease t us st')"

fun multi_update_measured :: "string \<Rightarrow> (string \<times> int) list \<Rightarrow> store \<Rightarrow> ledger_error + store" where
  "multi_update_measured t [] st = Inr st"
| "multi_update_measured t ((u, n) # us) st =
     (case update_measured n u t st of
        Inl UnknownTenantError \<Rightarrow> multi_update_measured t us st
      | Inl e \<Rightarrow> Inl e
      | Inr (_, st') \<Rightarrow> multi_update_measured t us st')"

definition adopt :: "string \<Rightarrow> string list \<Rightarrow> store \<Rightarrow> string list" where
  "adopt t cards st = filter (\<lambda>u. find_tenant t (entries (ledger_read u st)) \<noteq> None) (sort cards)"

section \<open>Sums of reservations\<close>

lemma held_simps [simp]:
  "held_bytes [] = 0" "held_bytes (e # es) = (if is_gpu_resident e then reserved_bytes e else 0) + held_bytes es"
  "held_bytes (es @ fs) = held_bytes es + held_bytes fs"
  by (simp_all add: held_bytes_def gpu_resident_def)

lemma held_filter_le: "list_all (\<lambda>e. 0 \<le> reserved_bytes e) es \<Longrightarrow> held_bytes (filter P es) \<le> held_bytes es"
  by (induction es) auto

lemma held_filter_filter:
  "list_all (\<lambda>e. 0 \<le> reserved_bytes e) es \<Longrightarrow> (\<And>e. P e \<Longrightarrow> Q e) \<Longrightarrow> held_bytes (filter P es) \<le> held_bytes (filter Q es)"
  by (induction es) (auto simp: add_increasing)

definition without :: "string \<Rightarrow> reservation_entry list \<Rightarrow> reservation_entry list" where
  "without t es = filter (\<lambda>e. tenant_id e \<noteq> t) es"

lemma find_tenant_Some: "find_tenant t es = Some e \<Longrightarrow> e \<in> set es \<and> tenant_id e = t"
  unfolding find_tenant_def by (metis (mono_tags, lifting) find_Some_iff nth_mem)

lemma find_tenant_None: "find_tenant t es = None \<longleftrightarrow> t \<notin> tenant_id ` set es"
  by (auto simp: find_tenant_def find_None_iff)

lemma find_tenant_append: "find_tenant t (without t es @ [e]) = (if tenant_id e = t then Some e else None)"
  by (induction es) (auto simp: find_tenant_def without_def)

lemma without_none: "find_tenant t es = None \<Longrightarrow> without t es = es"
  by (auto simp: find_tenant_None without_def filter_id_conv)

lemma held_split:
  assumes "distinct (map tenant_id es)" "find_tenant t es = Some c"
  shows "held_bytes es = held_bytes (without t es) + (if is_gpu_resident c then reserved_bytes c else 0)"
  using assms
proof (induction es)
  case (Cons e es)
  show ?case
  proof (cases "tenant_id e = t")
    case True
    then have "t \<notin> tenant_id ` set es" using Cons.prems(1) by auto
    then have "without t es = es" by (simp add: without_none find_tenant_None)
    moreover have "c = e" using Cons.prems(2) True by (simp add: find_tenant_def)
    ultimately show ?thesis using True by (simp add: without_def)
  next
    case False
    then have "find_tenant t es = Some c" using Cons.prems(2) by (simp add: find_tenant_def)
    then show ?thesis using Cons.IH Cons.prems(1) False by (simp add: without_def)
  qed
qed (simp add: find_tenant_def)

definition replaced :: "string \<Rightarrow> reservation_entry \<Rightarrow> reservation_entry list \<Rightarrow> reservation_entry list" where
  "replaced t x es = map (\<lambda>e. if tenant_id e = t then x else e) es"

lemma replaced_ids: "tenant_id x = t \<Longrightarrow> map tenant_id (replaced t x es) = map tenant_id es"
  by (simp add: replaced_def)

lemma replaced_without: "tenant_id x = t \<Longrightarrow> without t (replaced t x es) = without t es"
  by (induction es) (auto simp: replaced_def without_def)

lemma replaced_find: "tenant_id x = t \<Longrightarrow> find_tenant t es = Some c \<Longrightarrow> find_tenant t (replaced t x es) = Some x"
  by (induction es) (auto simp: replaced_def find_tenant_def)

lemma held_replaced:
  assumes "distinct (map tenant_id es)" "find_tenant t es = Some c" "tenant_id x = t"
  shows "held_bytes (replaced t x es) = held_bytes (without t es) + (if is_gpu_resident x then reserved_bytes x else 0)"
  using held_split [of "replaced t x es" t x] assms
  by (simp add: replaced_ids replaced_find replaced_without)

section \<open>The admission invariant\<close>

text \<open>On every card the tenants are distinct, no reservation is negative, and what is resident fits below
  the total with the corridor free.\<close>

definition card_ok :: "int \<Rightarrow> int \<Rightarrow> reservation_entry list \<Rightarrow> bool" where
  "card_ok corridor tot es \<longleftrightarrow> distinct (map tenant_id es) \<and> list_all (\<lambda>e. 0 \<le> reserved_bytes e) es \<and>
     (gpu_resident es \<noteq> [] \<longrightarrow> held_bytes es + corridor \<le> tot)"

definition ledger_inv :: "(string \<Rightarrow> int) \<Rightarrow> int \<Rightarrow> store \<Rightarrow> bool" where
  "ledger_inv resolve corridor st \<longleftrightarrow> (\<forall>u. card_ok corridor (resolve u) (read_unlocked u st))"

lemma gpu_resident_Nil: "gpu_resident es = [] \<longleftrightarrow> (\<forall>e\<in>set es. \<not> is_gpu_resident e)"
  by (auto simp: gpu_resident_def filter_empty_conv)

lemma card_ok_filter: "card_ok corridor tot es \<Longrightarrow> card_ok corridor tot (filter P es)"
  using held_filter_le [of es P]
  by (fastforce simp: card_ok_def gpu_resident_Nil list_all_iff distinct_map intro: inj_on_subset)

lemma card_ok_add:
  assumes "card_ok corridor tot es" "tenant_id e \<notin> tenant_id ` set es" "0 \<le> reserved_bytes e"
    and "is_gpu_resident e \<longrightarrow> held_bytes es + reserved_bytes e + corridor \<le> tot"
  shows "card_ok corridor tot (es @ [e])"
  using assms by (auto simp: card_ok_def gpu_resident_Nil)

lemma card_ok_replaced:
  assumes ok: "card_ok corridor tot es" and c: "find_tenant t es = Some c" and x: "tenant_id x = t" "0 \<le> reserved_bytes x"
    and "is_gpu_resident x \<longrightarrow> held_bytes (without t es) + reserved_bytes x + corridor \<le> tot"
  shows "card_ok corridor tot (replaced t x es)"
proof -
  have d: "distinct (map tenant_id es)" using ok by (simp add: card_ok_def)
  have nn: "list_all (\<lambda>e. 0 \<le> reserved_bytes e) es" using ok by (simp add: card_ok_def)
  have "held_bytes (replaced t x es) + corridor \<le> tot" if r: "gpu_resident (replaced t x es) \<noteq> []"
  proof (cases "is_gpu_resident x")
    case True
    then show ?thesis using held_replaced [OF d c x(1)] assms(5) by simp
  next
    case False
    have "gpu_resident es \<noteq> []" using r False by (auto simp: gpu_resident_Nil replaced_def)
    then have "held_bytes es + corridor \<le> tot" using ok by (simp add: card_ok_def)
    moreover have "held_bytes (without t es) \<le> held_bytes es" unfolding without_def by (rule held_filter_le [OF nn])
    ultimately show ?thesis using held_replaced [OF d c x(1)] False by simp
  qed
  moreover have "list_all (\<lambda>e. 0 \<le> reserved_bytes e) (replaced t x es)"
    using nn x(2) by (auto simp: list_all_iff replaced_def)
  ultimately show ?thesis using d replaced_ids [OF x(1), of es] by (simp add: card_ok_def)
qed

text \<open>A card whose entry of \<open>t\<close> changes nothing that is counted.\<close>

lemma card_ok_touched:
  assumes "card_ok corridor tot es" "find_tenant t es = Some c" "tenant_id x = t" "reserved_bytes x = reserved_bytes c"
    "is_gpu_resident x \<longrightarrow> is_gpu_resident c"
  shows "card_ok corridor tot (replaced t x es)"
proof (rule card_ok_replaced [OF assms(1-3)])
  have c: "c \<in> set es" using find_tenant_Some [OF assms(2)] by simp
  then show "0 \<le> reserved_bytes x" using assms(1,4) by (auto simp: card_ok_def list_all_iff)
  show "is_gpu_resident x \<longrightarrow> held_bytes (without t es) + reserved_bytes x + corridor \<le> tot"
    using held_split [OF _ assms(2)] assms(1,4,5) c by (auto simp: card_ok_def gpu_resident_Nil)
qed

lemma read_write: "read_unlocked v (write_unlocked u es st) = (if safe_name v = safe_name u then es else read_unlocked v st)"
  by (simp add: read_unlocked_def write_unlocked_def)

lemma ledger_inv_write:
  assumes "ledger_inv resolve corridor st" "\<And>v. safe_name v = safe_name u \<Longrightarrow> resolve v = resolve u"
    "card_ok corridor (resolve u) es"
  shows "ledger_inv resolve corridor (write_unlocked u es st)"
  unfolding ledger_inv_def read_write
proof
  fix v
  show "card_ok corridor (resolve v) (if safe_name v = safe_name u then es else read_unlocked v st)"
    using assms(1,3) assms(2) [of v] by (cases "safe_name v = safe_name u") (simp_all add: ledger_inv_def)
qed

inductive ledger_step :: "(string \<Rightarrow> int) \<Rightarrow> int \<Rightarrow> store \<Rightarrow> store \<Rightarrow> bool" for resolve corridor where
  acquire: "ledger_acquire pid_alive resolve corridor now u bytes override ps args st = Inr (e, st') \<Longrightarrow>
     resolve_total resolve u override = resolve u \<Longrightarrow> ledger_step resolve corridor st st'"
| heartbeat: "ledger_heartbeat now lease u t st = Inr (e, st') \<Longrightarrow> ledger_step resolve corridor st st'"
| grace: "set_grace now b u t st = Inr (e, st') \<Longrightarrow> ledger_step resolve corridor st st'"
| measured: "update_measured n u t st = Inr (e, st') \<Longrightarrow> ledger_step resolve corridor st st'"
| state: "set_state resolve corridor u t s st = Inr (e, st') \<Longrightarrow> ledger_step resolve corridor st st'"
| release: "ledger_release u t st = (b, st') \<Longrightarrow> ledger_step resolve corridor st st'"
| reap: "reap pid_alive now u st = (stale, st') \<Longrightarrow> ledger_step resolve corridor st st'"

lemma mutate_inv:
  assumes "ledger_inv resolve corridor st" "\<And>v. safe_name v = safe_name u \<Longrightarrow> resolve v = resolve u"
    "mutate u t fn st = Inr (e, st')"
    "\<And>c. tenant_id (fn c) = tenant_id c \<and> reserved_bytes (fn c) = reserved_bytes c \<and> (is_gpu_resident (fn c) \<longrightarrow> is_gpu_resident c)"
  shows "ledger_inv resolve corridor st'"
proof -
  let ?es = "read_unlocked u st"
  obtain c where c: "find_tenant t ?es = Some c" "st' = write_unlocked u (replaced t (fn c) ?es) st"
    using assms(3) by (auto simp: mutate_def replace_locked_def replaced_def Let_def split: option.splits)
  have "card_ok corridor (resolve u) (replaced t (fn c) ?es)"
    by (rule card_ok_touched [OF _ c(1)]) (use assms(1,4) find_tenant_Some [OF c(1)] in \<open>auto simp: ledger_inv_def\<close>)
  then show ?thesis using ledger_inv_write [OF assms(1,2)] c(2) by blast
qed

lemma new_entry_sel [simp]:
  "tenant_id (new_entry now bytes ps args) = ra_tenant args" "reserved_bytes (new_entry now bytes ps args) = bytes"
  by (simp_all add: new_entry_def)

definition live_others :: "(int \<Rightarrow> bool) \<Rightarrow> int \<Rightarrow> string \<Rightarrow> reservation_entry list \<Rightarrow> reservation_entry list" where
  "live_others pid_alive now t es = without t (fst (reap_unlocked pid_alive now es))"

lemma acquire_unfold:
  "0 \<le> bytes \<Longrightarrow> 0 < ra_lease args \<Longrightarrow>
   ledger_acquire pid_alive resolve corridor now u bytes override ps args st =
     (let others = live_others pid_alive now (ra_tenant args) (read_unlocked u st);
          e = new_entry now bytes ps args; tot = resolve_total resolve u override
      in if is_gpu_resident e \<and> tot < held_bytes others + bytes + corridor
         then Inl (rejection corridor u others e (held_bytes others) tot)
         else Inr (e, write_unlocked u (others @ [e]) st))"
  by (simp add: ledger_acquire_def live_others_def without_def Let_def split: prod.split)

lemma acquire_Inr:
  assumes "ledger_acquire pid_alive resolve corridor now u bytes override ps args st = Inr (e, st')"
  shows "0 \<le> bytes" "0 < ra_lease args" "e = new_entry now bytes ps args"
    "st' = write_unlocked u (live_others pid_alive now (ra_tenant args) (read_unlocked u st) @ [e]) st"
    "is_gpu_resident e \<longrightarrow> held_bytes (live_others pid_alive now (ra_tenant args) (read_unlocked u st)) + bytes + corridor
       \<le> resolve_total resolve u override"
proof -
  show b: "0 \<le> bytes" "0 < ra_lease args" using assms by (auto simp: ledger_acquire_def split: if_splits)
  show "e = new_entry now bytes ps args"
    "st' = write_unlocked u (live_others pid_alive now (ra_tenant args) (read_unlocked u st) @ [e]) st"
    "is_gpu_resident e \<longrightarrow> held_bytes (live_others pid_alive now (ra_tenant args) (read_unlocked u st)) + bytes + corridor
       \<le> resolve_total resolve u override"
    using assms unfolding acquire_unfold [OF b] by (auto simp: Let_def split: if_splits)
qed

lemma live_others_filter:
  "live_others pid_alive now t es = filter (\<lambda>e. tenant_id e \<noteq> t \<and> (pid_alive (pid e) \<or> \<not> lease_expired now e)) es"
  by (auto simp: live_others_def without_def reap_unlocked_def intro: filter_cong)

lemma ledger_step_inv:
  assumes "ledger_step resolve corridor st st'" and i: "ledger_inv resolve corridor st"
    and r: "\<And>u v. safe_name v = safe_name u \<Longrightarrow> resolve v = resolve u"
  shows "ledger_inv resolve corridor st'"
  using assms(1)
proof cases
  case (acquire pid_alive now u bytes override ps args e)
  note A = acquire_Inr [OF acquire(1)]
  let ?o = "live_others pid_alive now (ra_tenant args) (read_unlocked u st)"
  have "card_ok corridor (resolve u) ?o"
    unfolding live_others_filter by (rule card_ok_filter) (use i in \<open>simp add: ledger_inv_def\<close>)
  then have "card_ok corridor (resolve u) (?o @ [e])"
    by (rule card_ok_add) (use A acquire(2) in \<open>auto simp: live_others_filter\<close>)
  then show ?thesis using ledger_inv_write [OF i r] A(4) by blast
next
  case (heartbeat now lease u t e)
  show ?thesis by (rule mutate_inv [OF i r heartbeat [unfolded ledger_heartbeat_def]]) (simp_all add: is_gpu_resident_def)
next
  case (grace now b u t e)
  show ?thesis by (rule mutate_inv [OF i r grace [unfolded set_grace_def]]) (simp_all add: is_gpu_resident_def)
next
  case (measured n u t e)
  show ?thesis by (rule mutate_inv [OF i r measured [unfolded update_measured_def]]) (simp_all add: is_gpu_resident_def)
next
  case (state u t s e)
  let ?es = "read_unlocked u st"
  have ok: "card_ok corridor (resolve u) ?es" using i by (simp add: ledger_inv_def)
  show ?thesis
  proof (cases "s \<in> set gpu_resident_states")
    case False
    show ?thesis
      by (rule mutate_inv [OF i r, of u t "\<lambda>e. e\<lparr>tenant_state := s\<rparr>" e st'])
        (use state False in \<open>simp_all add: set_state_def is_gpu_resident_def\<close>)
  next
    case True
    then obtain c where c: "find_tenant t ?es = Some c" "st' = write_unlocked u (replaced t (c\<lparr>tenant_state := s\<rparr>) ?es) st"
      "is_gpu_resident c \<or> held_bytes (without t ?es) + reserved_bytes c + corridor \<le> resolve u"
      using state by (auto simp: set_state_def replace_locked_def replaced_def without_def Let_def resolve_total_def
          split: option.splits if_splits)
    have t: "tenant_id c = t" "c \<in> set ?es" using find_tenant_Some [OF c(1)] by simp_all
    have "card_ok corridor (resolve u) (replaced t (c\<lparr>tenant_state := s\<rparr>) ?es)"
    proof (cases "is_gpu_resident c")
      case True
      then show ?thesis by (intro card_ok_touched [OF ok c(1)]) (simp_all add: t)
    next
      case False
      then show ?thesis using c(3) t ok by (intro card_ok_replaced [OF ok c(1)]) (auto simp: card_ok_def list_all_iff)
    qed
    then show ?thesis using ledger_inv_write [OF i r] c(2) by blast
  qed
next
  case (release u t b)
  have "card_ok corridor (resolve u) (filter (\<lambda>e. tenant_id e \<noteq> t) (read_unlocked u st))"
    by (rule card_ok_filter) (use i in \<open>simp add: ledger_inv_def\<close>)
  from ledger_inv_write [OF i r this] show ?thesis using release i
    by (auto simp: ledger_release_def Let_def split: if_splits)
next
  case (reap pid_alive now u stale)
  have "card_ok corridor (resolve u) (fst (reap_unlocked pid_alive now (read_unlocked u st)))"
    unfolding reap_unlocked_def fst_conv by (rule card_ok_filter) (use i in \<open>simp add: ledger_inv_def\<close>)
  from ledger_inv_write [OF i r this] show ?thesis using reap i
    by (auto simp: reap_def Let_def split: prod.splits if_splits)
qed

section \<open>Reservations over several cards\<close>

definition admitted :: "int \<Rightarrow> int \<Rightarrow> string \<Rightarrow> reservation_entry list \<Rightarrow> int \<Rightarrow> bool" where
  "admitted corridor tot t es bytes \<longleftrightarrow> held_bytes (without t es) + bytes + corridor \<le> tot"

lemma live_others_without: "live_others pid_alive now t es = filter (\<lambda>e. pid_alive (pid e) \<or> \<not> lease_expired now e) (without t es)"
  by (auto simp: live_others_filter without_def intro: filter_cong)

lemma acquire_admitted:
  assumes "0 \<le> bytes" "0 < ra_lease args" "list_all (\<lambda>e. 0 \<le> reserved_bytes e) (read_unlocked u st)"
    and "admitted corridor (resolve_total resolve u override) (ra_tenant args) (read_unlocked u st) bytes"
  shows "ledger_acquire pid_alive resolve corridor now u bytes override ps args st =
     (let e = new_entry now bytes ps args
      in Inr (e, write_unlocked u (live_others pid_alive now (ra_tenant args) (read_unlocked u st) @ [e]) st))"
proof -
  let ?es = "read_unlocked u st"
  have "held_bytes (live_others pid_alive now (ra_tenant args) ?es) \<le> held_bytes (without (ra_tenant args) ?es)"
    unfolding live_others_without by (rule held_filter_le) (use assms(3) in \<open>simp add: without_def list_all_iff\<close>)
  then show ?thesis using assms(4) by (simp add: acquire_unfold [OF assms(1,2)] admitted_def Let_def)
qed

lemma read_other: "safe_name v \<noteq> safe_name u \<Longrightarrow> read_unlocked v (write_unlocked u es st) = read_unlocked v st"
  by (simp add: read_unlocked_def write_unlocked_def)

lemma plan_shortfalls_Nil:
  "plan_shortfalls corridor totals ignored False st ds = Inr [] \<longleftrightarrow>
   (\<forall>d\<in>set ds. \<exists>tot. totals (demand_card d) = Some tot \<and>
      held_bytes (filter (\<lambda>e. tenant_id e \<notin> set ignored) (read_unlocked (demand_card d) st)) + demand_bytes d + corridor \<le> tot)"
proof (induction ds)
  case (Cons d ds)
  have "filter (\<lambda>e. tenant_id e \<notin> set ignored) (gpu_resident es) =
      gpu_resident (filter (\<lambda>e. tenant_id e \<notin> set ignored) es)" for es
    by (auto simp: gpu_resident_def conj_commute)
  then show ?case using Cons
    by (auto simp: Let_def held_bytes_def not_less split: option.split sum.split)
qed simp

lemma multi_take_admitted:
  assumes "\<forall>d\<in>set ds. 0 \<le> demand_bytes d \<and>
      list_all (\<lambda>e. 0 \<le> reserved_bytes e) (read_unlocked (demand_card d) st) \<and>
      (\<exists>tot. totals (demand_card d) = Some tot \<and>
         admitted corridor tot (ra_tenant args) (read_unlocked (demand_card d) st) (demand_bytes d))"
    and "distinct (map (\<lambda>d. safe_name (demand_card d)) ds)" "0 < ra_lease args"
  shows "\<exists>es st'. multi_take pid_alive resolve totals corridor clock args ds taken held st =
       (Inr (taken @ es), held @ map demand_card ds, st') \<and>
     map reserved_bytes es = map demand_bytes ds \<and> list_all (\<lambda>e. tenant_id e = ra_tenant args) es \<and>
     (\<forall>(d, e)\<in>set (zip ds es). find_tenant (ra_tenant args) (read_unlocked (demand_card d) st') = Some e) \<and>
     (\<forall>u. safe_name u \<notin> (\<lambda>d. safe_name (demand_card d)) ` set ds \<longrightarrow> read_unlocked u st' = read_unlocked u st)"
  using assms
proof (induction ds arbitrary: taken held st)
  case (Cons d ds)
  let ?u = "demand_card d" let ?now = "clock (length taken)"
  let ?e = "new_entry ?now (demand_bytes d) (demand_posts d) args"
  let ?st = "write_unlocked ?u (live_others pid_alive ?now (ra_tenant args) (read_unlocked ?u st) @ [?e]) st"
  have acq: "ledger_acquire pid_alive resolve corridor ?now ?u (demand_bytes d) (totals ?u) (demand_posts d) args st =
      Inr (?e, ?st)"
    by (subst acquire_admitted) (use Cons.prems in \<open>auto simp: resolve_total_def Let_def\<close>)
  have other: "read_unlocked (demand_card d') ?st = read_unlocked (demand_card d') st" if "d' \<in> set ds" for d'
    by (rule read_other) (use Cons.prems(2) imageI [OF that, of "\<lambda>d. safe_name (demand_card d)"] in auto)
  obtain es st' where IH: "multi_take pid_alive resolve totals corridor clock args ds (taken @ [?e]) (held @ [?u]) ?st =
       (Inr ((taken @ [?e]) @ es), (held @ [?u]) @ map demand_card ds, st')"
    "map reserved_bytes es = map demand_bytes ds" "list_all (\<lambda>e. tenant_id e = ra_tenant args) es"
    "\<forall>(d, e)\<in>set (zip ds es). find_tenant (ra_tenant args) (read_unlocked (demand_card d) st') = Some e"
    "\<forall>u. safe_name u \<notin> (\<lambda>d. safe_name (demand_card d)) ` set ds \<longrightarrow> read_unlocked u st' = read_unlocked u ?st"
    using Cons.IH [of ?st "taken @ [?e]" "held @ [?u]"] Cons.prems other by (auto simp del: read_write)
  have "read_unlocked ?u st' = read_unlocked ?u ?st" using IH(5) Cons.prems(2) by auto
  then have "find_tenant (ra_tenant args) (read_unlocked ?u st') = Some ?e"
    by (simp add: live_others_def find_tenant_append read_unlocked_def write_unlocked_def)
  moreover have "read_unlocked u st' = read_unlocked u st"
    if "safe_name u \<notin> (\<lambda>d. safe_name (demand_card d)) ` set (d # ds)" for u
    using IH(5) that read_other [of u ?u] by simp
  ultimately show ?case using IH(1-4) acq
    by (intro exI [of _ "?e # es"] exI [of _ st']) auto
qed simp

definition tenant_cards :: "string \<Rightarrow> store \<Rightarrow> string set" where
  "tenant_cards t st = {safe_name u |u. find_tenant t (read_unlocked u st) \<noteq> None}"

lemma release_read:
  "read_unlocked v (snd (ledger_release u t st)) =
     (if safe_name v = safe_name u then without t (read_unlocked v st) else read_unlocked v st)"
proof -
  have "length (filter (\<lambda>e. tenant_id e \<noteq> t) es) = length es \<Longrightarrow> es = filter (\<lambda>e. tenant_id e \<noteq> t) es" for es
    by (metis filter_id_conv length_filter_less nat_less_le)
  from this [of "st (safe_name u)"] show ?thesis
    by (auto simp: ledger_release_def Let_def read_unlocked_def write_unlocked_def without_def)
qed

lemma without_twice [simp]: "without t (without t es) = without t es"
  by (simp add: without_def)

lemma multi_release_read:
  "read_unlocked v (multi_release t us st) =
     (if safe_name v \<in> safe_name ` set us then without t (read_unlocked v st) else read_unlocked v st)"
  by (induction us arbitrary: st) (auto simp: release_read)

lemma find_without: "find_tenant t (without t es) = None"
  by (auto simp: find_tenant_None without_def)

definition lasting :: "(int \<Rightarrow> bool) \<Rightarrow> (nat \<Rightarrow> int) \<Rightarrow> reservation_entry \<Rightarrow> bool" where
  "lasting pid_alive clock e \<longleftrightarrow> pid_alive (pid e) \<or> (\<forall>n. \<not> lease_expired (clock n) e)"

definition only_thinned :: "(reservation_entry \<Rightarrow> bool) \<Rightarrow> reservation_entry list \<Rightarrow> reservation_entry list \<Rightarrow> bool" where
  "only_thinned P es es' \<longleftrightarrow> filter P es' = filter P es \<and> set es' \<subseteq> set es"

lemma only_thinned_refl [simp]: "only_thinned P es es" by (simp add: only_thinned_def)

lemma only_thinned_trans: "only_thinned P a b \<Longrightarrow> only_thinned P b c \<Longrightarrow> only_thinned P a c"
  by (auto simp: only_thinned_def)

lemma acquire_thins:
  assumes "ledger_acquire pid_alive resolve corridor (clock n) u bytes override ps args st = Inr (e, st')"
  shows "only_thinned (lasting pid_alive clock) (without (ra_tenant args) (read_unlocked v st)) (without (ra_tenant args) (read_unlocked v st'))"
proof (cases "safe_name v = safe_name u")
  case True
  note A = acquire_Inr [OF assms]
  have "read_unlocked v st = read_unlocked u st" using True by (simp add: read_unlocked_def)
  moreover have "without (ra_tenant args) (read_unlocked v st') = live_others pid_alive (clock n) (ra_tenant args) (read_unlocked u st)"
    using A(3,4) True by (simp add: read_unlocked_def write_unlocked_def live_others_def without_def)
  ultimately show ?thesis
    by (auto simp: only_thinned_def live_others_without lasting_def intro: filter_cong)
next
  case False
  then show ?thesis using acquire_Inr(4) [OF assms] by (simp add: read_other)
qed

lemma multi_take_fails:
  assumes "multi_take pid_alive resolve totals corridor clock args ds taken held st = (Inl e, h, st')" "is_ledger_error e"
    and "tenant_cards (ra_tenant args) st \<subseteq> safe_name ` set held"
  shows "h = [] \<and> (\<forall>u. find_tenant (ra_tenant args) (read_unlocked u st') = None \<and>
     only_thinned (lasting pid_alive clock) (without (ra_tenant args) (read_unlocked u st)) (read_unlocked u st'))"
  using assms
proof (induction ds arbitrary: taken held st)
  case (Cons d ds)
  let ?t = "ra_tenant args"
  let ?acq = "ledger_acquire pid_alive resolve corridor (clock (length taken)) (demand_card d) (demand_bytes d)
      (totals (demand_card d)) (demand_posts d) args st"
  show ?case
  proof (cases ?acq)
    case (Inl x)
    then have h: "h = []" "st' = multi_release ?t held st" using Cons.prems(1,2) by (auto split: if_splits)
    have "without ?t (read_unlocked u st) = read_unlocked u st" if "safe_name u \<notin> safe_name ` set held" for u
      by (rule without_none, rule ccontr) (use Cons.prems(3) that in \<open>unfold tenant_cards_def, blast\<close>)
    then have "read_unlocked u st' = without ?t (read_unlocked u st)" for u
      using h(2) by (simp add: multi_release_read)
    then show ?thesis using h(1) by (simp add: find_without)
  next
    case (Inr y)
    obtain x st1 where y: "y = (x, st1)" by (cases y)
    note A = acquire_Inr(4) [OF Inr [unfolded y]]
    have "tenant_cards ?t st1 \<subseteq> safe_name ` set (held @ [demand_card d])"
    proof
      fix n assume "n \<in> tenant_cards ?t st1"
      then obtain u where u: "n = safe_name u" "find_tenant ?t (read_unlocked u st1) \<noteq> None" by (auto simp: tenant_cards_def)
      show "n \<in> safe_name ` set (held @ [demand_card d])"
      proof (cases "safe_name u = safe_name (demand_card d)")
        case False
        then have "n \<in> tenant_cards ?t st" using u A by (auto simp: tenant_cards_def read_other)
        then show ?thesis using Cons.prems(3) by auto
      qed (simp add: u)
    qed
    then have "h = [] \<and> (\<forall>u. find_tenant ?t (read_unlocked u st') = None \<and>
       only_thinned (lasting pid_alive clock) (without ?t (read_unlocked u st1)) (read_unlocked u st'))"
      using Cons.IH [of "taken @ [x]" "held @ [demand_card d]" st1] Cons.prems(1,2) Inr y by simp
    moreover have "only_thinned (lasting pid_alive clock) (without ?t (read_unlocked u st)) (without ?t (read_unlocked u st1))" for u
      by (rule acquire_thins [where n = "length taken"]) (rule Inr [unfolded y])
    ultimately show ?thesis using only_thinned_trans by blast
  qed
qed simp

section \<open>Properties\<close>

text \<open>C14: the cards are never overcommitted. Starting from empty files, after any interleaving of
  acquisitions, heartbeats, grace marks, measurements, state changes, releases and reaps by any
  tenants, on every card each tenant has at most one entry, no reservation is negative, and the
  reservations of the resident tenants together with the corridor fit into the total.\<close>

theorem cards_never_overcommitted:
  assumes "\<forall>u v. safe_name v = safe_name u \<longrightarrow> resolve v = resolve u"
    and "(ledger_step resolve corridor)\<^sup>*\<^sup>* (\<lambda>_. []) st"
  shows "ledger_inv resolve corridor st"
  using assms(2)
proof (induction rule: rtranclp_induct)
  case base
  show ?case by (simp add: ledger_inv_def card_ok_def read_unlocked_def gpu_resident_def)
next
  case (step st st')
  then show ?case using ledger_step_inv [OF step.hyps(2) step.IH] assms(1) by blast
qed

definition demo_args :: "string \<Rightarrow> tenant_state \<Rightarrow> reserve_args" where
  "demo_args t s = \<lparr>ra_tenant = t, ra_klass = 1, ra_state = s, ra_measured = 0, ra_pid = 7, ra_lease = 120\<rparr>"

definition demo_store :: store where
  "demo_store = (\<lambda>_. [])(''GPU-0'' := [new_entry 0 600 [] (demo_args ''a'' HOT)])"

theorem cards_never_overcommitted_witness:
  "(ledger_step (\<lambda>_. 1000) 100)\<^sup>*\<^sup>* (\<lambda>_. []) demo_store \<and> ledger_inv (\<lambda>_. 1000) 100 demo_store"
proof -
  have run: "ledger_acquire (\<lambda>_. True) (\<lambda>_. 1000) 100 0 ''GPU-0'' 600 None [] (demo_args ''a'' HOT) (\<lambda>_. []) =
      Inr (new_entry 0 600 [] (demo_args ''a'' HOT), demo_store)"
  proof -
    have "safe_name ''GPU-0'' = ''GPU-0''" by code_simp
    then show ?thesis
      by (simp add: acquire_unfold demo_args_def live_others_filter read_unlocked_def write_unlocked_def demo_store_def
          resolve_total_def fun_upd_def Let_def)
  qed
  have "(ledger_step (\<lambda>_. 1000) 100)\<^sup>*\<^sup>* (\<lambda>_. []) demo_store"
    by (rule r_into_rtranclp, rule ledger_step.acquire [OF run]) (simp add: resolve_total_def)
  then show ?thesis using cards_never_overcommitted [of "\<lambda>_. 1000" 100 demo_store] by simp
qed

text \<open>C39: admission is exact. A well-formed request for a card, with the entries of dead tenants past their
  lease and the requester's own old entry left out, is refused only when it is for a resident state and
  the others' resident bytes, the request and the corridor exceed the total; the refusal then names the
  card, the request, the positive number of missing bytes and the resident holders. Otherwise the entry is
  stored as requested, the other live entries keep their place, and no other card changes.\<close>

theorem acquire_exact:
  assumes "0 \<le> bytes" "0 < ra_lease args"
  shows "let others = filter (\<lambda>e. tenant_id e \<noteq> ra_tenant args \<and> (pid_alive (pid e) \<or> \<not> lease_expired now e)) (read_unlocked u st);
     missing = held_bytes others + bytes + corridor - resolve_total resolve u override
   in if ra_state args \<in> set gpu_resident_states \<and> 0 < missing
     then ledger_acquire pid_alive resolve corridor now u bytes override ps args st =
       Inl (ReservationRejected u bytes missing (map tenant_id (filter is_gpu_resident others)))
     else \<exists>e st'. ledger_acquire pid_alive resolve corridor now u bytes override ps args st = Inr (e, st') \<and>
       read_unlocked u st' = others @ [e] \<and>
       tenant_id e = ra_tenant args \<and> tenant_state e = ra_state args \<and> reserved_bytes e = bytes \<and>
       lease_expiry_ts e = now + ra_lease args \<and>
       (\<forall>v. safe_name v \<noteq> safe_name u \<longrightarrow> read_unlocked v st' = read_unlocked v st)"
  using assms
  by (auto simp: acquire_unfold live_others_filter Let_def rejection_def new_entry_def is_gpu_resident_def
      gpu_resident_def read_other read_unlocked_def write_unlocked_def)

theorem acquire_exact_witness:
  "ledger_acquire (\<lambda>_. True) (\<lambda>_. 1000) 100 5 ''GPU-0'' 500 None [] (demo_args ''b'' WARM_GPU) demo_store =
     Inl (ReservationRejected ''GPU-0'' 500 200 [''a''])"
proof -
  have "read_unlocked ''GPU-0'' demo_store = [new_entry 0 600 [] (demo_args ''a'' HOT)]" by code_simp
  then show ?thesis
    using acquire_exact [of 500 "demo_args ''b'' WARM_GPU" "\<lambda>_. True" 5 "''GPU-0''" demo_store 100 "\<lambda>_. 1000" None "[]"]
    by (simp add: demo_args_def new_entry_def is_gpu_resident_def gpu_resident_states_def resolve_total_def Let_def)
qed

text \<open>C15: the plan is trustworthy. When \<open>plan_reservation\<close> reports that a tenant's demands on distinct cards
  fit next to the others, taking them right away succeeds on every card, in sorted order, and afterwards
  each card records the tenant with exactly the bytes demanded while the other cards are as before.\<close>

theorem plan_is_honoured:
  assumes plan: "plan_reservation corridor totals (Some (ra_tenant args)) [] False st ds = Inr r" "fits r"
    and "\<forall>d\<in>set ds. 0 \<le> demand_bytes d" "distinct (map (\<lambda>d. safe_name (demand_card d)) ds)" "0 < ra_lease args"
    and inv: "ledger_inv resolve corridor st"
  shows "\<exists>es st'. multi_acquire pid_alive resolve totals corridor clock args ds [] st =
       (Inr es, map demand_card (sort_key demand_card ds), st') \<and>
     map reserved_bytes es = map demand_bytes (sort_key demand_card ds) \<and>
     (\<forall>(d, e)\<in>set (zip (sort_key demand_card ds) es). find_tenant (ra_tenant args) (read_unlocked (demand_card d) st') = Some e) \<and>
     (\<forall>u. safe_name u \<notin> (\<lambda>d. safe_name (demand_card d)) ` set ds \<longrightarrow> read_unlocked u st' = read_unlocked u st)"
proof -
  have "plan_shortfalls corridor totals [ra_tenant args] False st ds = Inr []"
    using plan by (auto simp: plan_reservation_def split: sum.splits)
  then have "\<forall>d\<in>set (sort_key demand_card ds). 0 \<le> demand_bytes d \<and>
      list_all (\<lambda>e. 0 \<le> reserved_bytes e) (read_unlocked (demand_card d) st) \<and>
      (\<exists>tot. totals (demand_card d) = Some tot \<and>
         admitted corridor tot (ra_tenant args) (read_unlocked (demand_card d) st) (demand_bytes d))"
    using assms(3) inv unfolding plan_shortfalls_Nil by (simp add: admitted_def without_def ledger_inv_def card_ok_def)
  moreover have "distinct (map (\<lambda>d. safe_name (demand_card d)) (sort_key demand_card ds))"
    using assms(4) by (simp add: distinct_map)
  ultimately show ?thesis
    using multi_take_admitted [of "sort_key demand_card ds" st totals corridor args pid_alive resolve clock "[]" "[]"] assms(5)
    unfolding multi_acquire_def by auto
qed

definition demo_demands :: "card_demand list" where
  "demo_demands = [\<lparr>demand_card = ''GPU-1'', demand_bytes = 700, demand_posts = []\<rparr>,
     \<lparr>demand_card = ''GPU-0'', demand_bytes = 300, demand_posts = []\<rparr>]"

lemma demo_store_inv: "ledger_inv (\<lambda>_. 1000) 100 demo_store"
  by (simp add: ledger_inv_def card_ok_def read_unlocked_def demo_store_def new_entry_def demo_args_def gpu_resident_def)

theorem plan_is_honoured_witness:
  "\<exists>es st'. multi_acquire (\<lambda>_. True) (\<lambda>_. 1000) (\<lambda>_. Some 1000) 100 (\<lambda>_. 5) (demo_args ''b'' HOT) demo_demands [] demo_store =
     (Inr es, [''GPU-0'', ''GPU-1''], st') \<and> map reserved_bytes es = [300, 700]"
proof -
  have "plan_reservation 100 (\<lambda>_. Some 1000) (Some (ra_tenant (demo_args ''b'' HOT))) [] False demo_store demo_demands =
      Inr \<lparr>fits = True, shortfalls = []\<rparr>" by code_simp
  moreover have "distinct (map (\<lambda>d. safe_name (demand_card d)) demo_demands)" by code_simp
  moreover have "sort_key demand_card demo_demands = [demo_demands ! 1, demo_demands ! 0]" by code_simp
  ultimately show ?thesis
    using plan_is_honoured [of 100 "\<lambda>_. Some 1000" "demo_args ''b'' HOT" demo_store demo_demands "\<lparr>fits = True, shortfalls = []\<rparr>"
        "\<lambda>_. 1000" "\<lambda>_. True" "\<lambda>_. 5"] demo_store_inv
    by (auto simp: demo_demands_def demo_args_def)
qed


definition demo_overfull :: "card_demand list" where
  "demo_overfull = [\<lparr>demand_card = ''GPU-0'', demand_bytes = 500, demand_posts = []\<rparr>,
     \<lparr>demand_card = ''GPU-.'', demand_bytes = 300, demand_posts = []\<rparr>]"


text \<open>C40: a crashed tenant cannot hold a card for ever. Once the lease of an entry whose process is gone has
  run out, every request of another tenant that would fit with that entry left out is admitted, and the
  entry is gone from the card; until then, or while the process runs, \<open>reap\<close> keeps the entry.\<close>

theorem dead_tenants_make_room:
  assumes "ledger_inv resolve corridor st" "x \<in> set (read_unlocked u st)" "ra_tenant args \<noteq> tenant_id x"
    and "0 \<le> bytes" "0 < ra_lease args"
  shows "(\<not> pid_alive (pid x) \<and> lease_expiry_ts x < now \<and>
      held_bytes (filter (\<lambda>e. e \<noteq> x) (read_unlocked u st)) + bytes + corridor \<le> resolve u \<longrightarrow>
      (\<exists>e st'. ledger_acquire pid_alive resolve corridor now u bytes None ps args st = Inr (e, st') \<and>
         x \<notin> set (read_unlocked u st') \<and> find_tenant (ra_tenant args) (read_unlocked u st') = Some e)) \<and>
    (pid_alive (pid x) \<or> now \<le> lease_expiry_ts x \<longrightarrow> x \<in> set (read_unlocked u (snd (reap pid_alive now u st))))"
proof (intro conjI impI)
  let ?es = "read_unlocked u st"
  let ?o = "live_others pid_alive now (ra_tenant args) ?es"
  assume dead: "\<not> pid_alive (pid x) \<and> lease_expiry_ts x < now \<and>
      held_bytes (filter (\<lambda>e. e \<noteq> x) ?es) + bytes + corridor \<le> resolve u"
  have "held_bytes ?o \<le> held_bytes (filter (\<lambda>e. e \<noteq> x) ?es)"
    unfolding live_others_filter
    by (rule held_filter_filter) (use assms(1) dead in \<open>auto simp: ledger_inv_def card_ok_def lease_expired_def\<close>)
  then have "ledger_acquire pid_alive resolve corridor now u bytes None ps args st =
      Inr (new_entry now bytes ps args, write_unlocked u (?o @ [new_entry now bytes ps args]) st)"
    using dead by (simp add: acquire_unfold [OF assms(4,5)] Let_def resolve_total_def)
  moreover have "x \<notin> set (?o @ [new_entry now bytes ps args])"
    using dead assms(3) by (auto simp: live_others_filter lease_expired_def)
  moreover have "find_tenant (ra_tenant args) (?o @ [new_entry now bytes ps args]) = Some (new_entry now bytes ps args)"
    unfolding live_others_def by (simp add: find_tenant_append)
  ultimately show "\<exists>e st'. ledger_acquire pid_alive resolve corridor now u bytes None ps args st = Inr (e, st') \<and>
      x \<notin> set (read_unlocked u st') \<and> find_tenant (ra_tenant args) (read_unlocked u st') = Some e"
    by (simp add: read_unlocked_def write_unlocked_def)
next
  assume "pid_alive (pid x) \<or> now \<le> lease_expiry_ts x"
  then show "x \<in> set (read_unlocked u (snd (reap pid_alive now u st)))" using assms(2)
    by (auto simp: reap_def reap_unlocked_def Let_def lease_expired_def read_unlocked_def write_unlocked_def)
qed

theorem dead_tenants_make_room_witness:
  "\<exists>e st'. ledger_acquire (\<lambda>_. False) (\<lambda>_. 1000) 100 121 ''GPU-0'' 900 None [] (demo_args ''b'' HOT) demo_store = Inr (e, st') \<and>
     find_tenant ''b'' (read_unlocked ''GPU-0'' st') = Some e"
proof -
  have es: "read_unlocked ''GPU-0'' demo_store = [new_entry 0 600 [] (demo_args ''a'' HOT)]" by code_simp
  show ?thesis
    using dead_tenants_make_room [OF demo_store_inv, of "new_entry 0 600 [] (demo_args ''a'' HOT)" "''GPU-0''" "demo_args ''b'' HOT"
        900 "\<lambda>_. False" 121 "[]"] es
    by (auto simp: demo_args_def new_entry_def)
qed

end
