(* ===== verification/Dcp_Owner.thy ===== *)
theory Dcp_Owner
  imports Partition Kv_Pages
begin

text \<open>
  The token split of decode context parallelism (\<^verbatim>\<open>layers/dcp/owner.py\<close> and the token-ratio part of
  \<^verbatim>\<open>distributed/utils.py\<close>): the installed ratio vector and the predicates on it, the owner rule that
  maps a global cache slot to a rank and to a row of its compact pool, and the index tables a paged read
  uses. A tensor is the list of its elements. The process globals are the record \<open>dcp_state\<close>, an
  extension of the partition state. The conversion of a compact row to \<^verbatim>\<open>int32\<close> is written out; the
  prefix sums of lengths, also \<^verbatim>\<open>int32\<close> in the source, are unbounded here.

  The lemmas show that the owner rule assigns every slot to exactly one rank, that the rows of one rank
  never collide and stay inside the pool, and that the index tables of the ranks together read every
  token of every request once.
\<close>

section \<open>The installed vector\<close>

record dcp_state = tp_state +
  cp_token_ratios :: "int list option"
  weightless_kv_head_rank :: "int option"
  seed_awaiting :: "int list option"
  seed_calibration_reached :: bool
  seed_verdict_reached :: bool
  seed_superseded_by :: "int list option"

definition listed :: "int list option \<Rightarrow> int list option" where
  "listed v = (case v of None \<Rightarrow> None | Some xs \<Rightarrow> if xs = [] then None else Some xs)"

definition set_cp_token_ratios :: "int list option \<Rightarrow> dcp_state \<Rightarrow> dcp_state" where
  "set_cp_token_ratios ratios s = s\<lparr>cp_token_ratios := listed ratios\<rparr>"

definition note_seed_awaiting_supersession :: "int list option \<Rightarrow> dcp_state \<Rightarrow> dcp_state" where
  "note_seed_awaiting_supersession v s = s\<lparr>seed_awaiting := listed v\<rparr>"

definition note_seed_calibration_site :: "int \<Rightarrow> bool \<Rightarrow> dcp_state \<Rightarrow> dcp_state" where
  "note_seed_calibration_site dcp_size allow_install s =
     (if allow_install \<and> 1 < dcp_size then s\<lparr>seed_calibration_reached := True\<rparr> else s)"

definition note_seed_superseded :: "int list option \<Rightarrow> dcp_state \<Rightarrow> dcp_state" where
  "note_seed_superseded v s = s\<lparr>seed_verdict_reached := True, seed_superseded_by := listed v\<rparr>"

definition reset_seed_liveness :: "dcp_state \<Rightarrow> dcp_state" where
  "reset_seed_liveness s =
     s\<lparr>seed_awaiting := None, seed_calibration_reached := False, seed_verdict_reached := False, seed_superseded_by := None\<rparr>"

datatype seed_error = SeedNotSupersededError

definition assert_seed_superseded :: "dcp_state \<Rightarrow> seed_error + unit" where
  "assert_seed_superseded s =
     (if seed_awaiting s = None \<or> \<not> seed_calibration_reached s then Inr ()
      else if seed_verdict_reached s then Inr ()
      else Inl SeedNotSupersededError)"

definition set_weightless_kv_head_rank :: "int option \<Rightarrow> dcp_state \<Rightarrow> dcp_state" where
  "set_weightless_kv_head_rank r s = s\<lparr>weightless_kv_head_rank := r\<rparr>"

definition weightless_kv_active :: "dcp_state \<Rightarrow> bool" where
  "weightless_kv_active s \<longleftrightarrow> weightless_kv_head_rank s \<noteq> None"

definition is_weightless_head_rank :: "dcp_state \<Rightarrow> int \<Rightarrow> bool" where
  "is_weightless_head_rank s rank \<longleftrightarrow> weightless_kv_head_rank s = Some rank"

definition weightless_worker_rank :: "dcp_state \<Rightarrow> int \<Rightarrow> bool" where
  "weightless_worker_rank s rank \<longleftrightarrow> weightless_kv_head_rank s \<noteq> None \<and> weightless_kv_head_rank s \<noteq> Some rank"

definition weightless_head_counts :: "dcp_state \<Rightarrow> int \<Rightarrow> nat \<Rightarrow> int list res" where
  "weightless_head_counts s n world_size =
     (case weightless_kv_head_rank s of
        None \<Rightarrow> Inl AssertionError
      | Some h \<Rightarrow> if 0 \<le> h \<and> h < int world_size
                  then Inr (map (\<lambda>r. if int r = h then n else 0) [0..<world_size]) else Inl AssertionError)"

definition uneven_dcp_active :: "dcp_state \<Rightarrow> nat option \<Rightarrow> bool" where
  "uneven_dcp_active s dcp_size =
     (case cp_token_ratios s of
        None \<Rightarrow> False
      | Some ratios \<Rightarrow>
          if ratios = [] \<or> length (remdups ratios) = 1 then False
          else (case dcp_size of None \<Rightarrow> True | Some n \<Rightarrow> length ratios = n))"

definition cp_token_split_factor :: "dcp_state \<Rightarrow> nat \<Rightarrow> int" where
  "cp_token_split_factor s dcp_size =
     (if uneven_dcp_active s (Some dcp_size) then sum_list (the (cp_token_ratios s)) else int dcp_size)"

definition uneven_dcp_kv_replicated :: "dcp_state \<Rightarrow> nat \<Rightarrow> bool" where
  "uneven_dcp_kv_replicated s dcp_size \<longleftrightarrow> 1 < dcp_size \<and> get_tp_partition_ratios (tp_state.truncate s) None \<noteq> None"

text \<open>The plan-time form: \<open>dcp_size\<close> and \<open>kv_token_vector\<close> are the attributes of the flags, \<open>None\<close> when absent.\<close>

definition plan_uneven_dcp_kv_replicated :: "(int option \<times> int list option) option \<Rightarrow> nat list option \<Rightarrow> bool" where
  "plan_uneven_dcp_kv_replicated flags base_plan =
     (let non_uniform = (case base_plan of None \<Rightarrow> False | Some v \<Rightarrow> 1 < length (remdups v))
      in if \<not> non_uniform then False
         else (case flags of
                 None \<Rightarrow> False
               | Some (dcp_size, vec) \<Rightarrow>
                   if 1 < (case dcp_size of None \<Rightarrow> 0 | Some n \<Rightarrow> n) then True
                   else (case vec of None \<Rightarrow> False | Some v \<Rightarrow> v \<noteq> [])))"

fun prefix_from :: "int \<Rightarrow> int list \<Rightarrow> int list" where
  "prefix_from c [] = [c]"
| "prefix_from c (r # rs) = c # prefix_from (c + r) rs"

definition cp_token_prefix :: "dcp_state \<Rightarrow> nat \<Rightarrow> int list" where
  "cp_token_prefix s dcp_size =
     (let ratios = (if uneven_dcp_active s (Some dcp_size) then the (cp_token_ratios s) else replicate dcp_size 1)
      in prefix_from 0 ratios)"

definition uneven_dcp_owner_bounds :: "dcp_state \<Rightarrow> nat \<Rightarrow> nat \<Rightarrow> (int \<times> int \<times> int) option res" where
  "uneven_dcp_owner_bounds s dcp_size rank =
     (if \<not> uneven_dcp_kv_replicated s dcp_size then Inr None
      else
        let prefix = cp_token_prefix s dcp_size in
        rbind (nth_res prefix rank) (\<lambda>lo. rbind (nth_res prefix (rank + 1)) (\<lambda>hi. Inr (Some (last prefix, lo, hi)))))"

definition cp_token_context_budget :: "int list \<Rightarrow> int list \<Rightarrow> int res" where
  "cp_token_context_budget vec capacities =
     (if \<not> (length capacities = length vec \<and> list_all (\<lambda>v. 0 < v) vec) then Inl AssertionError
      else if vec = [] then Inl ValueError
      else Inr (Min (set (map2 (div) capacities vec)) * sum_list vec))"

section \<open>The owner rule\<close>

definition draft_pool_is_replicated :: "bool \<Rightarrow> string option \<Rightarrow> bool" where
  "draft_pool_is_replicated is_draft_worker draft_kv_layout \<longleftrightarrow> is_draft_worker \<and> draft_kv_layout \<noteq> Some ''dcp''"

definition reject_multi_layer_draft_kv_dcp :: "int \<Rightarrow> unit res" where
  "reject_multi_layer_draft_kv_dcp n = (if n \<le> 1 then Inr () else Inl ValueError)"

definition dcp_compact_pool_rows :: "int \<Rightarrow> int \<Rightarrow> int \<Rightarrow> int res" where
  "dcp_compact_pool_rows global_tokens cp_S cp_ratio =
     (if cp_S \<le> 0 \<or> cp_ratio \<le> 0 then Inl ValueError else Inr ((global_tokens div cp_S + 1) * cp_ratio))"

definition dcp_accounting_total_slots :: "int \<Rightarrow> int option \<Rightarrow> bool \<Rightarrow> int" where
  "dcp_accounting_total_slots max_total allocator_size token_sharded =
     (case allocator_size of None \<Rightarrow> max_total | Some n \<Rightarrow> if token_sharded then n else max_total)"

definition dcp_global_context_slots :: "dcp_state \<Rightarrow> int \<Rightarrow> nat option \<Rightarrow> int" where
  "dcp_global_context_slots s tokens dcp_size =
     (let n = (case dcp_size of None \<Rightarrow> 1 | Some k \<Rightarrow> if k = 0 then 1 else k)
      in if n \<le> 1 then tokens
         else if \<not> (uneven_dcp_kv_replicated s n \<or> weightless_kv_active s) then tokens
         else if uneven_dcp_active s (Some n) then tokens
         else tokens * cp_token_split_factor s n)"

definition swa_hybrid_dcp_lane :: "bool \<Rightarrow> bool \<Rightarrow> bool \<Rightarrow> int \<Rightarrow> int \<Rightarrow> bool \<Rightarrow> bool" where
  "swa_hybrid_dcp_lane is_hybrid_swa uneven_plan is_draft_worker num_full num_swa capped \<longleftrightarrow>
     is_hybrid_swa \<and> uneven_plan \<and> \<not> is_draft_worker \<and> 0 < num_full \<and> 0 < num_swa \<and> capped"

definition dcp_token_sharded_layer :: "bool \<Rightarrow> bool \<Rightarrow> bool" where
  "dcp_token_sharded_layer is_swa_layer swa_hybrid_lane \<longleftrightarrow> \<not> (swa_hybrid_lane \<and> is_swa_layer)"

definition dcp_weighted_owner_bounds :: "dcp_state \<Rightarrow> nat \<Rightarrow> nat \<Rightarrow> (int \<times> int \<times> int \<times> int) res" where
  "dcp_weighted_owner_bounds s dcp_size rank =
     (let prefix = cp_token_prefix s dcp_size in
      rbind (nth_res prefix rank) (\<lambda>lo. rbind (nth_res prefix (rank + 1)) (\<lambda>hi. Inr (last prefix, lo, hi, hi - lo))))"

definition dcp_even_write_mask :: "int list option \<Rightarrow> nat \<Rightarrow> int \<Rightarrow> int \<Rightarrow> bool list option \<Rightarrow> bool list res" where
  "dcp_even_write_mask positions num_rows dcp_size rank precomputed =
     (case positions of
        Some ps \<Rightarrow>
          if length ps = num_rows then Inr (map (\<lambda>p. p mod dcp_size = rank) ps)
          else (case precomputed of Some m \<Rightarrow> if length m = num_rows then Inr m else Inl ValueError | None \<Rightarrow> Inl ValueError)
      | None \<Rightarrow>
          (case precomputed of Some m \<Rightarrow> if length m = num_rows then Inr m else Inl ValueError | None \<Rightarrow> Inl ValueError))"

definition dcp_weighted_write_slots :: "int list \<Rightarrow> int \<Rightarrow> int \<Rightarrow> int \<Rightarrow> int \<Rightarrow> int list \<times> bool list" where
  "dcp_weighted_write_slots cache_loc cp_S cp_lo cp_hi cp_ratio =
     (let off = map (\<lambda>l. l mod cp_S) cache_loc;
          block = map (\<lambda>l. l div cp_S) cache_loc;
          mask = map (\<lambda>p. cp_lo \<le> p \<and> p < cp_hi) off;
          loc = map (\<lambda>(m, b, p). if m then b * cp_ratio + (p - cp_lo) else 0) (zip mask (zip block off))
      in (loc, mask))"

definition to_int32 :: "int \<Rightarrow> int" where
  "to_int32 x = (x + 2 ^ 31) mod 2 ^ 32 - 2 ^ 31"

definition dcp_weighted_read_slots :: "int list \<Rightarrow> int \<Rightarrow> int \<Rightarrow> int \<Rightarrow> int \<Rightarrow> int list \<times> bool list" where
  "dcp_weighted_read_slots cache_loc cp_S cp_lo cp_hi cp_ratio =
     (let off = map (\<lambda>l. l mod cp_S) cache_loc;
          owned = map (\<lambda>p. cp_lo \<le> p \<and> p < cp_hi) off;
          compact = map (\<lambda>(l, p). to_int32 (l div cp_S * cp_ratio + (p - cp_lo))) (zip cache_loc off)
      in (compact, owned))"

section \<open>Index tables of a paged read\<close>

definition dcp_weighted_owned_lengths :: "bool list \<Rightarrow> nat list \<Rightarrow> nat list" where
  "dcp_weighted_owned_lengths owned lens =
     (if owned = [] then replicate (length lens) 0
      else
        let seg = concat (map (\<lambda>i. replicate (lens ! i) i) [0..<length lens])
        in map (\<lambda>i. length (filter (\<lambda>(s, ow). s = i \<and> ow) (zip seg owned))) [0..<length lens])"

text \<open>One program of \<open>create_flashinfer_kv_indices_triton\<close>: \<open>mem\<close> reads the storage of the request table.\<close>

definition create_flashinfer_kv_indices ::
  "(nat \<Rightarrow> int) \<Rightarrow> nat list \<Rightarrow> nat list \<Rightarrow> nat list \<Rightarrow> nat list option \<Rightarrow> nat \<Rightarrow> nat \<Rightarrow> stores" where
  "create_flashinfer_kv_indices mem req_pool_indices lens indptr kv_start_idx stride pid =
     (let req_pool_index = req_pool_indices ! pid;
          kv_indices_offset = indptr ! pid;
          kv_start = (case kv_start_idx of None \<Rightarrow> 0 | Some s \<Rightarrow> s ! pid);
          kv_end = kv_start + lens ! pid;
          block_size = 512;
          num_loop = (kv_end - kv_start + block_size - 1) div block_size
      in concat (map (\<lambda>i.
           map (\<lambda>offset. (kv_indices_offset + offset, mem (req_pool_index * stride + kv_start + offset)))
             (filter (\<lambda>offset. offset < kv_end - kv_start) (map (\<lambda>j. i * block_size + j) [0..<block_size])))
           [0..<num_loop]))"

text \<open>\<open>full_kv\<close> is the freshly allocated buffer, \<open>kv_indptr\<close> the caller's.\<close>

definition build_dcp_weighted_kv_indices ::
  "(nat \<Rightarrow> int) \<Rightarrow> nat list \<Rightarrow> nat list \<Rightarrow> nat list \<Rightarrow> nat list option \<Rightarrow> int \<times> int \<times> int \<times> int \<Rightarrow> nat \<Rightarrow> nat \<Rightarrow>
   nat option \<Rightarrow> int list \<Rightarrow> nat list \<times> int list" where
  "build_dcp_weighted_kv_indices mem req_pool_indices lens kv_indptr kv_start_idx bounds pad stride total_tokens full_kv =
     (let (cp_S, cp_lo, cp_hi, cp_ratio) = bounds;
          bs = length req_pool_indices;
          full_indptr = map (start_of lens) [0..<bs + 1];
          tot = (case total_tokens of Some t \<Rightarrow> t | None \<Rightarrow> sum_list lens);
          full_kv1 = (if 0 < tot
            then apply_stores
                   (concat (map (create_flashinfer_kv_indices mem req_pool_indices lens full_indptr kv_start_idx stride) [0..<bs]))
                   full_kv
            else full_kv);
          full_kv2 = take tot full_kv1;
          (compact, owned) = dcp_weighted_read_slots full_kv2 cp_S cp_lo cp_hi cp_ratio;
          kv_indices = map fst (filter snd (zip compact owned));
          kv_indices1 = (if 0 < pad then kv_indices @ replicate pad 0 else kv_indices);
          owned_per_req = dcp_weighted_owned_lengths owned lens;
          kv_indptr1 = put 1 (map (\<lambda>i. start_of owned_per_req (i + 1)) [0..<bs]) kv_indptr
      in (take (bs + 1) kv_indptr1, kv_indices1))"

section \<open>The verify split\<close>

definition dcp_verify_paged_lens :: "nat list \<Rightarrow> int \<Rightarrow> nat list res" where
  "dcp_verify_paged_lens seq_lens num_draft_tokens = (if num_draft_tokens \<le> 0 then Inl ValueError else Inr seq_lens)"

definition dcp_verify_window_is_disjoint :: "int \<Rightarrow> int \<Rightarrow> bool" where
  "dcp_verify_window_is_disjoint num_draft_tokens qo_stride \<longleftrightarrow> 0 < num_draft_tokens \<and> qo_stride = num_draft_tokens"

datatype mask_mode = Causal | Tree

definition dcp_verify_mask_mode :: "int option \<Rightarrow> bool \<Rightarrow> mask_mode" where
  "dcp_verify_mask_mode topk dflash_tree_verify =
     (if dflash_tree_verify then Tree
      else (case topk of None \<Rightarrow> Causal | Some k \<Rightarrow> if 1 < k then Tree else Causal))"

section \<open>Prefix ranges\<close>

definition weights_ok :: "int list \<Rightarrow> bool" where
  "weights_ok v \<longleftrightarrow> v \<noteq> [] \<and> list_all (\<lambda>x. 1 \<le> x) v"

lemma prefix_from_length [simp]: "length (prefix_from c v) = Suc (length v)"
  by (induction v arbitrary: c) auto

lemma prefix_from_nonempty [simp]: "prefix_from c v \<noteq> []"
  by (cases v) auto

lemma prefix_from_nth: "i \<le> length v \<Longrightarrow> prefix_from c v ! i = c + sum_list (take i v)"
proof (induction v arbitrary: c i)
  case (Cons r v)
  then show ?case by (cases i) auto
qed simp

lemma prefix_from_last [simp]: "last (prefix_from c v) = c + sum_list v"
  by (induction v arbitrary: c) auto

lemma sum_take_nonneg: "list_all (\<lambda>x. 1 \<le> x) v \<Longrightarrow> 0 \<le> sum_list (take i (v :: int list))"
  by (rule sum_list_nonneg) (auto simp: list_all_iff dest!: in_set_takeD)

lemma prefix_mono:
  assumes "list_all (\<lambda>x. 1 \<le> x) v" "i \<le> j" "j \<le> length v"
  shows "prefix_from c v ! i \<le> prefix_from c v ! j"
proof -
  have "take j v = take i v @ take (j - i) (drop i v)" using assms(2) by (metis le_add_diff_inverse take_add)
  moreover have "0 \<le> sum_list (take (j - i) (drop i v))"
    by (rule sum_take_nonneg) (use assms(1) in \<open>auto simp: list_all_iff dest!: in_set_dropD\<close>)
  ultimately show ?thesis using assms(2,3) by (simp add: prefix_from_nth)
qed

lemma prefix_Suc: "i < length v \<Longrightarrow> prefix_from c v ! Suc i = prefix_from c v ! i + v ! i"
  by (simp add: prefix_from_nth take_Suc_conv_app_nth)

lemma weights_pos: "weights_ok v \<Longrightarrow> 0 < sum_list v"
proof -
  assume "weights_ok v"
  then obtain x xs where "v = x # xs" "1 \<le> x" "list_all (\<lambda>x. 1 \<le> x) xs" by (cases v) (auto simp: weights_ok_def)
  then show ?thesis using sum_take_nonneg [of xs "length xs"] by simp
qed

text \<open>Every residue of a block lies in the range of exactly one rank.\<close>

lemma residue_in_range:
  assumes "list_all (\<lambda>x. 1 \<le> x) v" "c \<le> x" "x < c + sum_list v"
  shows "\<exists>r<length v. prefix_from c v ! r \<le> x \<and> x < prefix_from c v ! Suc r"
  using assms
proof (induction v arbitrary: c)
  case (Cons a v)
  show ?case
  proof (cases "x < c + a")
    case True
    then show ?thesis using Cons.prems by (intro exI [of _ 0]) (auto simp: prefix_from_nth)
  next
    case False
    then obtain r where "r < length v" "prefix_from (c + a) v ! r \<le> x" "x < prefix_from (c + a) v ! Suc r"
      using Cons.IH [of "c + a"] Cons.prems by auto
    then show ?thesis by (intro exI [of _ "Suc r"]) simp
  qed
qed simp

lemma residue_unique:
  assumes "list_all (\<lambda>x. 1 \<le> x) v" "r < length v" "s < length v"
    and "prefix_from c v ! r \<le> x" "x < prefix_from c v ! Suc r" "prefix_from c v ! s \<le> x" "x < prefix_from c v ! Suc s"
  shows "r = s"
proof (rule ccontr)
  assume "r \<noteq> s"
  then consider "Suc r \<le> s" | "Suc s \<le> r" by linarith
  then show False
    using prefix_mono [OF assms(1), of "Suc r" s c] prefix_mono [OF assms(1), of "Suc s" r c] assms by cases auto
qed

section \<open>Rows of the compact pool\<close>

definition owns :: "int list \<Rightarrow> nat \<Rightarrow> int \<Rightarrow> bool" where
  "owns v r l \<longleftrightarrow> prefix_from 0 v ! r \<le> l mod sum_list v \<and> l mod sum_list v < prefix_from 0 v ! Suc r"

definition row_of :: "int list \<Rightarrow> nat \<Rightarrow> int \<Rightarrow> int" where
  "row_of v r l = l div sum_list v * v ! r + (l mod sum_list v - prefix_from 0 v ! r)"

lemma one_owner: "weights_ok v \<Longrightarrow> \<exists>!r. r < length v \<and> owns v r l"
  using residue_in_range [of v 0 "l mod sum_list v"] residue_unique [of v _ _ 0 "l mod sum_list v"] weights_pos [of v]
  unfolding owns_def weights_ok_def by (metis add_0 pos_mod_bound pos_mod_sign)

lemma row_offset:
  assumes "r < length v" "owns v r l"
  shows "0 \<le> l mod sum_list v - prefix_from 0 v ! r" "l mod sum_list v - prefix_from 0 v ! r < v ! r"
  using assms prefix_Suc [of r v 0] by (auto simp: owns_def)

lemma row_inj:
  assumes "r < length v" "owns v r l" "owns v r m" "row_of v r l = row_of v r m"
  shows "l = m"
proof -
  note L = row_offset [OF assms(1,2)] and M = row_offset [OF assms(1,3)]
  let ?S = "sum_list v"
  have "l div ?S = row_of v r l div v ! r" "l mod ?S - prefix_from 0 v ! r = row_of v r l mod v ! r"
    using L unfolding row_of_def by (simp_all add: add.commute [of _ "l mod ?S - prefix_from 0 v ! r"])
  moreover have "m div ?S = row_of v r m div v ! r" "m mod ?S - prefix_from 0 v ! r = row_of v r m mod v ! r"
    using M unfolding row_of_def by (simp_all add: add.commute [of _ "m mod ?S - prefix_from 0 v ! r"])
  ultimately have "l div ?S = m div ?S" "l mod ?S = m mod ?S" using assms(4) by simp_all
  then show ?thesis by (metis div_mult_mod_eq)
qed

lemma row_bounds:
  assumes "weights_ok v" "r < length v" "owns v r l" "0 \<le> l" "l \<le> c"
  shows "0 \<le> row_of v r l" "row_of v r l < (c div sum_list v + 1) * v ! r"
proof -
  note L = row_offset [OF assms(2,3)]
  have S: "0 < sum_list v" using assms(1) by (rule weights_pos)
  have "0 \<le> l div sum_list v" "l div sum_list v \<le> c div sum_list v"
    using S assms(4,5) by (simp_all add: pos_imp_zdiv_nonneg_iff zdiv_mono1)
  then have "l div sum_list v * v ! r \<le> c div sum_list v * v ! r" "0 \<le> l div sum_list v * v ! r"
    using L by (auto intro: mult_right_mono)
  then show "0 \<le> row_of v r l" "row_of v r l < (c div sum_list v + 1) * v ! r"
    using L unfolding row_of_def distrib_right by linarith+
qed

lemma row_le:
  assumes "weights_ok v" "r < length v" "owns v r l" "0 \<le> l"
  shows "row_of v r l \<le> l"
proof -
  have S: "0 < sum_list v" using assms(1) by (rule weights_pos)
  have w: "list_all (\<lambda>x. 1 \<le> x) v" using assms(1) by (simp add: weights_ok_def)
  have "v ! r \<le> sum_list v"
    using prefix_mono [OF w, of "Suc r" "length v" 0] prefix_mono [OF w, of 0 r 0] prefix_Suc [of r v 0] assms(2)
    by (simp add: prefix_from_nth)
  moreover have "0 \<le> l div sum_list v" using S assms(4) by (simp add: pos_imp_zdiv_nonneg_iff)
  ultimately have "l div sum_list v * v ! r \<le> l div sum_list v * sum_list v" by (rule mult_left_mono)
  moreover have "0 \<le> prefix_from 0 v ! r" using prefix_mono [OF w, of 0 r 0] assms(2) by (simp add: prefix_from_nth)
  ultimately show ?thesis unfolding row_of_def using div_mult_mod_eq [of l "sum_list v"] by linarith
qed

lemma to_int32_id: "0 \<le> x \<Longrightarrow> x < 2 ^ 31 \<Longrightarrow> to_int32 x = x"
  by (simp add: to_int32_def)

section \<open>The bounds of a rank\<close>

text \<open>The vector in force: the installed one when it is uneven and of the right length, the even one otherwise.\<close>

definition token_vector :: "dcp_state \<Rightarrow> nat \<Rightarrow> int list" where
  "token_vector s n = (if uneven_dcp_active s (Some n) then the (cp_token_ratios s) else replicate n 1)"

definition vector_ok :: "dcp_state \<Rightarrow> bool" where
  "vector_ok s \<longleftrightarrow> (case cp_token_ratios s of None \<Rightarrow> True | Some v \<Rightarrow> weights_ok v)"

lemma token_vector_ok:
  assumes "vector_ok s" "0 < n"
  shows "length (token_vector s n) = n" "weights_ok (token_vector s n)"
  using assms by (auto simp: token_vector_def vector_ok_def uneven_dcp_active_def weights_ok_def list_all_iff
      split: option.splits if_splits)

lemma bounds_of:
  assumes "r < length (token_vector s n)"
  shows "dcp_weighted_owner_bounds s n r =
    (let v = token_vector s n in Inr (sum_list v, prefix_from 0 v ! r, prefix_from 0 v ! Suc r, v ! r))"
  using assms prefix_Suc [of r "token_vector s n" 0]
  by (simp add: dcp_weighted_owner_bounds_def cp_token_prefix_def token_vector_def [symmetric] nth_res_def Let_def)

lemma write_slots_map:
  assumes "r < length v"
  shows "dcp_weighted_write_slots ls (sum_list v) (prefix_from 0 v ! r) (prefix_from 0 v ! Suc r) (v ! r) =
    (map (\<lambda>l. if owns v r l then row_of v r l else 0) ls, map (owns v r) ls)"
  by (auto simp: dcp_weighted_write_slots_def owns_def row_of_def Let_def zip_map1 zip_map2 zip_same_conv_map)

lemma read_slots_map:
  assumes "r < length v"
  shows "dcp_weighted_read_slots ls (sum_list v) (prefix_from 0 v ! r) (prefix_from 0 v ! Suc r) (v ! r) =
    (map (\<lambda>l. to_int32 (row_of v r l)) ls, map (owns v r) ls)"
  by (auto simp: dcp_weighted_read_slots_def owns_def row_of_def Let_def zip_map1 zip_map2 zip_same_conv_map)

section \<open>Segments\<close>

lemma slice_concat:
  assumes "i < length xss"
  shows "slice (start_of (map length xss) i) (start_of (map length xss) (Suc i)) (concat xss @ ys) = xss ! i"
proof -
  have "xss = take i xss @ xss ! i # drop (Suc i) xss" by (rule id_take_nth_drop [OF assms])
  then have "concat xss = concat (take i xss) @ xss ! i @ concat (drop (Suc i) xss)"
    by (metis concat.simps(2) concat_append)
  moreover have "length (concat (take i xss)) = start_of (map length xss) i"
    by (simp add: start_of_def length_concat take_map)
  moreover have "start_of (map length xss) (Suc i) = start_of (map length xss) i + length (xss ! i)"
    using assms by (simp add: start_of_Suc)
  ultimately show ?thesis by (simp add: slice_def)
qed

lemma zip_segments:
  assumes "n \<le> length lens" "\<And>i. i < n \<Longrightarrow> length (f i) = lens ! i"
  shows "zip (concat (map (\<lambda>i. replicate (lens ! i) i) [0..<n])) (concat (map f [0..<n])) =
    concat (map (\<lambda>i. map (Pair i) (f i)) [0..<n])"
  using assms
proof (induction n)
  case (Suc n)
  have "length (concat (map (\<lambda>i. replicate (lens ! i) i) [0..<n])) = length (concat (map f [0..<n]))"
    unfolding length_concat using Suc.prems by (intro arg_cong [where f = sum_list]) auto
  moreover have "zip (replicate (lens ! n) n) (f n) = map (Pair n) (f n)"
    using Suc.prems(2) [of n] by (simp add: zip_replicate1)
  ultimately show ?case using Suc by simp
qed simp

lemma owned_lengths_segments:
  assumes "length lens = n" "\<And>i. i < n \<Longrightarrow> length (f i) = lens ! i"
  shows "dcp_weighted_owned_lengths (map P (concat (map f [0..<n]))) lens = map (\<lambda>i. length (filter P (f i))) [0..<n]"
proof (cases "concat (map f [0..<n]) = []")
  case True
  then have "f i = []" if "i < n" for i using that by simp
  then have "map (\<lambda>i. length (filter P (f i))) [0..<n] = replicate n 0" by (intro nth_equalityI) auto
  then show ?thesis using True assms(1) by (simp add: dcp_weighted_owned_lengths_def)
next
  case False
  let ?z = "concat (map (\<lambda>i. map (Pair i) (map P (f i))) [0..<n])"
  have z: "zip (concat (map (\<lambda>i. replicate (lens ! i) i) [0..<n])) (map P (concat (map f [0..<n]))) = ?z"
    using zip_segments [of n lens "\<lambda>i. map P (f i)"] assms by (simp add: map_concat comp_def)
  have "length (filter (\<lambda>(s, ow). s = i \<and> ow) ?z) = length (filter P (f i))" if "i < n" for i
  proof -
    have "filter (\<lambda>(s, ow). s = i \<and> ow) (map (Pair j) (map P (f j))) =
        (if j = i then map (Pair i) (filter id (map P (f i))) else [])" for j
      by (auto simp: filter_map comp_def filter_empty_conv)
    then have "filter (\<lambda>(s, ow). s = i \<and> ow) ?z =
        concat (map (\<lambda>j. if j = i then map (Pair i) (filter id (map P (f i))) else []) [0..<n])"
      by (simp add: filter_concat comp_def)
    also have "\<dots> = map (Pair i) (filter id (map P (f i)))" using that by (induction n) (auto simp: less_Suc_eq)
    finally show ?thesis by (simp add: filter_map comp_def)
  qed
  then have "map (\<lambda>i. length (filter (\<lambda>(s, ow). s = i \<and> ow) ?z)) [0..<n] = map (\<lambda>i. length (filter P (f i))) [0..<n]"
    by (intro map_cong refl) simp
  moreover have "map P (concat (map f [0..<n])) \<noteq> []" using False by (metis map_is_Nil_conv)
  ultimately show ?thesis unfolding dcp_weighted_owned_lengths_def Let_def assms(1) z by (simp only: if_False)
qed

lemma kernel_segment:
  assumes "pid < bs"
  shows "create_flashinfer_kv_indices mem idxs lens (map (start_of lens) [0..<bs + 1]) kv_start_idx stride pid =
    map (\<lambda>j. (start_of lens pid + j,
        mem (idxs ! pid * stride + (case kv_start_idx of None \<Rightarrow> 0 | Some s \<Rightarrow> s ! pid) + j))) [0..<lens ! pid]"
  using blocks_upt [of 512 "\<lambda>j. (start_of lens pid + j,
        mem (idxs ! pid * stride + (case kv_start_idx of None \<Rightarrow> 0 | Some s \<Rightarrow> s ! pid) + j))" "lens ! pid"] assms
  by (simp add: create_flashinfer_kv_indices_def Let_def nth_append del: upt_Suc)

text \<open>The slots of request \<open>i\<close> in the window of a paged read.\<close>

definition window ::
  "(nat \<Rightarrow> int) \<Rightarrow> nat list \<Rightarrow> nat list \<Rightarrow> nat list option \<Rightarrow> nat \<Rightarrow> nat \<Rightarrow> int list" where
  "window mem idxs lens kv_start_idx stride i =
     map (\<lambda>j. mem (idxs ! i * stride + (case kv_start_idx of None \<Rightarrow> 0 | Some s \<Rightarrow> s ! i) + j)) [0..<lens ! i]"

lemma full_kv_windows:
  assumes "length lens = bs" "length full_kv = max (sum_list lens) 1"
  shows "take (sum_list lens) (if 0 < sum_list lens
      then apply_stores (concat (map (create_flashinfer_kv_indices mem idxs lens (map (start_of lens) [0..<bs + 1]) kv_start_idx stride) [0..<bs])) full_kv
      else full_kv) = concat (map (window mem idxs lens kv_start_idx stride) [0..<bs])"
proof (cases "0 < sum_list lens")
  case True
  let ?w = "window mem idxs lens kv_start_idx stride"
  let ?g = "\<lambda>i j. mem (idxs ! i * stride + (case kv_start_idx of None \<Rightarrow> 0 | Some s \<Rightarrow> s ! i) + j)"
  have st: "start_of lens bs = sum_list lens" using assms(1) by (simp add: start_of_def)
  have w: "concat (map ?w [0..<bs]) = concat (map (\<lambda>i. map (?g i) [0..<lens ! i]) [0..<bs])"
    by (intro arg_cong [where f = concat] map_cong refl) (simp add: window_def)
  have len: "length (concat (map ?w [0..<bs])) = sum_list lens"
    unfolding w using length_rows [of bs lens ?g] assms(1) st by simp
  have "concat (map (create_flashinfer_kv_indices mem idxs lens (map (start_of lens) [0..<bs + 1]) kv_start_idx stride) [0..<bs]) =
      concat (map (\<lambda>i. map (\<lambda>j. (start_of lens i + j, ?g i j)) [0..<lens ! i]) [0..<bs])"
    by (intro arg_cong [where f = concat] map_cong refl kernel_segment) simp
  also have "\<dots> = zip [0..<length (concat (map ?w [0..<bs]))] (concat (map ?w [0..<bs]))"
    using rows_zip [of bs lens ?g] assms(1) st len unfolding w by simp
  finally show ?thesis
    using apply_stores_zip [of _ "concat (map ?w [0..<bs])" full_kv] assms(2) True len by simp
next
  case False
  then have "\<forall>i<bs. lens ! i = 0" using assms(1) by (metis gr0I nth_mem sum_list_eq_0_iff)
  then have "concat (map (window mem idxs lens kv_start_idx stride) [0..<bs]) = []" by (simp add: window_def)
  moreover have "sum_list lens = 0" using False by simp
  ultimately show ?thesis by (simp only: take_0)
qed

lemma start_of_upt: "map (start_of xs) [0..<Suc n] = 0 # map (\<lambda>i. start_of xs (i + 1)) [0..<n]"
  by (rule nth_equalityI) (auto simp: nth_append nth_Cons start_of_def less_Suc_eq_0_disj split: nat.split simp del: upt_Suc)

lemma build_spec:
  assumes v: "weights_ok v" "r < length v" and l: "length lens = length idxs" "length full_kv = max (sum_list lens) 1"
    and p: "length idxs < length kv_indptr" "kv_indptr ! 0 = 0" and t: "total_tokens \<in> {None, Some (sum_list lens)}"
    and ok: "\<forall>i<length idxs. \<forall>l\<in>set (window mem idxs lens kv_start_idx stride i). 0 \<le> l \<and> l < 2 ^ 31"
  defines "owned \<equiv> \<lambda>i. filter (owns v r) (window mem idxs lens kv_start_idx stride i)"
  shows "build_dcp_weighted_kv_indices mem idxs lens kv_indptr kv_start_idx
      (sum_list v, prefix_from 0 v ! r, prefix_from 0 v ! Suc r, v ! r) pad stride total_tokens full_kv =
    (map (start_of (map (\<lambda>i. length (owned i)) [0..<length idxs])) [0..<Suc (length idxs)],
     concat (map (\<lambda>i. map (row_of v r) (owned i)) [0..<length idxs]) @ replicate pad 0)"
proof -
  let ?bs = "length idxs" and ?w = "window mem idxs lens kv_start_idx stride"
  have tot: "(case total_tokens of Some t \<Rightarrow> t | None \<Rightarrow> sum_list lens) = sum_list lens" using t by auto
  have rows: "map fst (filter snd (zip (map (\<lambda>l. to_int32 (row_of v r l)) ls) (map (owns v r) ls))) =
      map (\<lambda>l. to_int32 (row_of v r l)) (filter (owns v r) ls)" for ls
    by (induction ls) auto
  have "map (\<lambda>l. to_int32 (row_of v r l)) (owned i) = map (row_of v r) (owned i)" if "i < ?bs" for i
  proof (rule map_cong)
    fix l assume "l \<in> set (owned i)"
    then have "owns v r l" "0 \<le> l" "l < 2 ^ 31" using ok that by (auto simp: owned_def)
    then show "to_int32 (row_of v r l) = row_of v r l"
      using row_le [OF v(1,2), of l] row_bounds(1) [OF v(1,2), of l l] by (intro to_int32_id) auto
  qed simp
  then have idx: "map (\<lambda>l. to_int32 (row_of v r l)) (filter (owns v r) (concat (map ?w [0..<?bs]))) =
      concat (map (\<lambda>i. map (row_of v r) (owned i)) [0..<?bs])"
    by (auto simp: owned_def filter_concat map_concat comp_def intro!: arg_cong [where f = concat])
  have lens: "dcp_weighted_owned_lengths (map (owns v r) (concat (map ?w [0..<?bs]))) lens = map (\<lambda>i. length (owned i)) [0..<?bs]"
    unfolding owned_def by (rule owned_lengths_segments) (simp_all add: l(1) window_def)
  have "take (?bs + 1) (put 1 (map (\<lambda>i. start_of xs (i + 1)) [0..<?bs]) kv_indptr) = map (start_of xs) [0..<Suc ?bs]" for xs
    using p unfolding start_of_upt put_def by (cases kv_indptr) auto
  then show ?thesis
    unfolding build_dcp_weighted_kv_indices_def Let_def prod.case tot full_kv_windows [OF l] read_slots_map [OF v(2)] rows idx lens
    by simp
qed

lemma owned_total:
  assumes "weights_ok v"
  shows "(\<Sum>r<length v. length (filter (owns v r) ls)) = length ls"
proof (induction ls)
  case (Cons l ls)
  obtain q where q: "q < length v" "owns v q l" and u: "\<And>r. r < length v \<Longrightarrow> owns v r l \<Longrightarrow> r = q"
    using one_owner [OF assms, of l] by blast
  have "length (filter (owns v r) (l # ls)) = (if r = q then 1 else 0) + length (filter (owns v r) ls)" if "r < length v" for r
    using q(2) u [OF that] by (cases "r = q") auto
  then have "(\<Sum>r<length v. length (filter (owns v r) (l # ls))) =
      (\<Sum>r<length v. (if r = q then 1 else 0) + length (filter (owns v r) ls))"
    by (intro sum.cong refl) simp
  also have "\<dots> = (\<Sum>r<length v. if r = q then 1 else 0) + length ls" using Cons by (simp only: sum.distrib)
  also have "(\<Sum>r<length v. if r = q then 1 else 0) = (1::nat)" using q(1) by simp
  finally show ?case by simp
qed simp

section \<open>Properties\<close>

text \<open>C9: the owner rule splits the cache. For any batch of slots, with the vector in force, the write side
  and the read side of every rank agree on which slots it owns and on their rows; the rows lie inside the
  pool the sizing rule reserves for slots up to \<open>c\<close>; different slots of a rank never share a row; and every
  slot is owned by exactly one rank of the group.\<close>

theorem owner_rule_partitions:
  assumes "vector_ok s" "0 < n" "\<forall>l\<in>set ls. 0 \<le> l \<and> l \<le> c" "c < 2 ^ 31"
  shows "(\<forall>r<n. \<exists>cp_S lo hi ratio rows loc mask compact.
      dcp_weighted_owner_bounds s n r = Inr (cp_S, lo, hi, ratio) \<and> dcp_compact_pool_rows c cp_S ratio = Inr rows \<and>
      dcp_weighted_write_slots ls cp_S lo hi ratio = (loc, mask) \<and> dcp_weighted_read_slots ls cp_S lo hi ratio = (compact, mask) \<and>
      (\<forall>i<length ls. mask ! i \<longrightarrow> compact ! i = loc ! i \<and> 0 \<le> loc ! i \<and> loc ! i < rows \<and>
         (\<forall>j<length ls. mask ! j \<and> loc ! j = loc ! i \<longrightarrow> ls ! j = ls ! i))) \<and>
    (\<forall>i<length ls. \<exists>!r. r < n \<and> (\<exists>cp_S lo hi ratio. dcp_weighted_owner_bounds s n r = Inr (cp_S, lo, hi, ratio) \<and>
       snd (dcp_weighted_write_slots ls cp_S lo hi ratio) ! i))"
proof (intro conjI allI impI)
  let ?v = "token_vector s n"
  note v = token_vector_ok [OF assms(1,2)]
  fix r assume r: "r < n"
  then have rv: "r < length ?v" using v(1) by simp
  have pos: "0 < sum_list ?v" "1 \<le> ?v ! r" using weights_pos [OF v(2)] v rv by (auto simp: weights_ok_def list_all_iff)
  have own: "to_int32 (row_of ?v r l) = row_of ?v r l \<and> 0 \<le> row_of ?v r l \<and> row_of ?v r l < (c div sum_list ?v + 1) * ?v ! r"
    if "l \<in> set ls" "owns ?v r l" for l
    using row_bounds [OF v(2) rv that(2)] row_le [OF v(2) rv that(2)] assms(3,4) that(1) by (auto intro!: to_int32_id)
  show "\<exists>cp_S lo hi ratio rows loc mask compact.
      dcp_weighted_owner_bounds s n r = Inr (cp_S, lo, hi, ratio) \<and> dcp_compact_pool_rows c cp_S ratio = Inr rows \<and>
      dcp_weighted_write_slots ls cp_S lo hi ratio = (loc, mask) \<and> dcp_weighted_read_slots ls cp_S lo hi ratio = (compact, mask) \<and>
      (\<forall>i<length ls. mask ! i \<longrightarrow> compact ! i = loc ! i \<and> 0 \<le> loc ! i \<and> loc ! i < rows \<and>
         (\<forall>j<length ls. mask ! j \<and> loc ! j = loc ! i \<longrightarrow> ls ! j = ls ! i))"
  proof (intro exI conjI)
    show "dcp_weighted_owner_bounds s n r = Inr (sum_list ?v, prefix_from 0 ?v ! r, prefix_from 0 ?v ! Suc r, ?v ! r)"
      by (simp only: bounds_of [OF rv] Let_def)
    show "dcp_compact_pool_rows c (sum_list ?v) (?v ! r) = Inr ((c div sum_list ?v + 1) * ?v ! r)"
      using pos by (simp add: dcp_compact_pool_rows_def)
    show "\<forall>i<length ls. map (owns ?v r) ls ! i \<longrightarrow>
        map (\<lambda>l. to_int32 (row_of ?v r l)) ls ! i = map (\<lambda>l. if owns ?v r l then row_of ?v r l else 0) ls ! i \<and>
        0 \<le> map (\<lambda>l. if owns ?v r l then row_of ?v r l else 0) ls ! i \<and>
        map (\<lambda>l. if owns ?v r l then row_of ?v r l else 0) ls ! i < (c div sum_list ?v + 1) * ?v ! r \<and>
        (\<forall>j<length ls. map (owns ?v r) ls ! j \<and>
           map (\<lambda>l. if owns ?v r l then row_of ?v r l else 0) ls ! j = map (\<lambda>l. if owns ?v r l then row_of ?v r l else 0) ls ! i \<longrightarrow>
           ls ! j = ls ! i)"
      using own row_inj [OF rv] by simp
  qed (rule write_slots_map [OF rv] read_slots_map [OF rv])+
next
  let ?v = "token_vector s n"
  note v = token_vector_ok [OF assms(1,2)]
  fix i assume i: "i < length ls"
  have "(\<exists>cp_S lo hi ratio. dcp_weighted_owner_bounds s n r = Inr (cp_S, lo, hi, ratio) \<and>
       snd (dcp_weighted_write_slots ls cp_S lo hi ratio) ! i) \<longleftrightarrow> owns ?v r (ls ! i)" if "r < n" for r
    using that v(1) i by (simp add: bounds_of Let_def write_slots_map)
  then show "\<exists>!r. r < n \<and> (\<exists>cp_S lo hi ratio. dcp_weighted_owner_bounds s n r = Inr (cp_S, lo, hi, ratio) \<and>
       snd (dcp_weighted_write_slots ls cp_S lo hi ratio) ! i)"
    using one_owner [OF v(2), of "ls ! i"] unfolding v(1) by (metis (no_types, lifting))
qed

definition demo_dcp :: dcp_state where
  "demo_dcp = \<lparr>base_ratios = Some [7, 3, 3], families = [], overlay = None, cp_token_ratios = Some [7, 3, 3],
     weightless_kv_head_rank = None, seed_awaiting = None, seed_calibration_reached = False,
     seed_verdict_reached = False, seed_superseded_by = None\<rparr>"

theorem owner_rule_partitions_witness:
  "\<exists>!r. r < 3 \<and> (\<exists>cp_S lo hi ratio. dcp_weighted_owner_bounds demo_dcp 3 r = Inr (cp_S, lo, hi, ratio) \<and>
     snd (dcp_weighted_write_slots [0, 8, 25] cp_S lo hi ratio) ! 2)"
proof -
  have "vector_ok demo_dcp" by code_simp
  from owner_rule_partitions [OF this, of 3 "[0, 8, 25]" 100] show ?thesis by (simp del: One_nat_def)
qed

text \<open>C10: the paged reads of a group cover each request once. On every rank the segment of request \<open>i\<close> in the
  index table consists of the rows its slots were written to, for the slots the rank owns, in order; and
  the segments of all ranks together are as long as the window of the request.\<close>

theorem kv_indices_cover:
  assumes "vector_ok s" "0 < n" "length lens = length idxs" "length full_kv = max (sum_list lens) 1"
    and "length idxs < length kv_indptr" "kv_indptr ! 0 = 0" "total_tokens \<in> {None, Some (sum_list lens)}"
    and "\<forall>i<length idxs. \<forall>l\<in>set (window mem idxs lens kv_start_idx stride i). 0 \<le> l \<and> l < 2 ^ 31"
  shows "\<exists>indptr. \<forall>i<length idxs.
    (\<forall>r<n. \<exists>cp_S lo hi ratio indices loc mask. dcp_weighted_owner_bounds s n r = Inr (cp_S, lo, hi, ratio) \<and>
       build_dcp_weighted_kv_indices mem idxs lens kv_indptr kv_start_idx (cp_S, lo, hi, ratio) pad stride total_tokens full_kv =
         (indptr r, indices) \<and>
       dcp_weighted_write_slots (window mem idxs lens kv_start_idx stride i) cp_S lo hi ratio = (loc, mask) \<and>
       slice (indptr r ! i) (indptr r ! (i + 1)) indices = map fst (filter snd (zip loc mask))) \<and>
    (\<Sum>r<n. indptr r ! (i + 1) - indptr r ! i) = lens ! i"
proof -
  let ?v = "token_vector s n" and ?w = "window mem idxs lens kv_start_idx stride" and ?bs = "length idxs"
  note v = token_vector_ok [OF assms(1,2)]
  let ?own = "\<lambda>r i. filter (owns ?v r) (?w i)"
  let ?ptr = "\<lambda>r. map (start_of (map (\<lambda>i. length (?own r i)) [0..<?bs])) [0..<Suc ?bs]"
  have step: "?ptr r ! (i + 1) - ?ptr r ! i = length (?own r i)" if "i < ?bs" for r i
    using that start_of_Suc [of i "map (\<lambda>i. length (?own r i)) [0..<?bs]"] by (simp del: upt_Suc)
  have seg: "slice (?ptr r ! i) (?ptr r ! (i + 1)) (concat (map (\<lambda>i. map (row_of ?v r) (?own r i)) [0..<?bs]) @ replicate pad 0) =
      map fst (filter snd (zip (map (\<lambda>l. if owns ?v r l then row_of ?v r l else 0) (?w i)) (map (owns ?v r) (?w i))))"
    if i: "i < ?bs" for r i
  proof -
    have "map fst (filter snd (zip (map (\<lambda>l. if owns ?v r l then row_of ?v r l else 0) ls) (map (owns ?v r) ls))) =
        map (row_of ?v r) (filter (owns ?v r) ls)" for ls
      by (induction ls) auto
    moreover have "map length (map (\<lambda>i. map (row_of ?v r) (?own r i)) [0..<?bs]) = map (\<lambda>i. length (?own r i)) [0..<?bs]"
      by simp
    ultimately show ?thesis
      using slice_concat [of i "map (\<lambda>i. map (row_of ?v r) (?own r i)) [0..<?bs]" "replicate pad 0"] i
      by (simp add: comp_def del: upt_Suc)
  qed
  have tot: "(\<Sum>r<n. ?ptr r ! (i + 1) - ?ptr r ! i) = lens ! i" if "i < ?bs" for i
    using owned_total [OF v(2), of "?w i"] unfolding step [OF that] v(1) by (simp add: window_def)
  have "\<exists>cp_S lo hi ratio indices loc mask. dcp_weighted_owner_bounds s n r = Inr (cp_S, lo, hi, ratio) \<and>
       build_dcp_weighted_kv_indices mem idxs lens kv_indptr kv_start_idx (cp_S, lo, hi, ratio) pad stride total_tokens full_kv =
         (?ptr r, indices) \<and>
       dcp_weighted_write_slots (?w i) cp_S lo hi ratio = (loc, mask) \<and>
       slice (?ptr r ! i) (?ptr r ! (i + 1)) indices = map fst (filter snd (zip loc mask))" if "i < ?bs" "r < n" for i r
  proof (intro exI conjI)
    have rv: "r < length ?v" using that(2) v(1) by simp
    show "dcp_weighted_owner_bounds s n r = Inr (sum_list ?v, prefix_from 0 ?v ! r, prefix_from 0 ?v ! Suc r, ?v ! r)"
      by (simp only: bounds_of [OF rv] Let_def)
    show "dcp_weighted_write_slots (?w i) (sum_list ?v) (prefix_from 0 ?v ! r) (prefix_from 0 ?v ! Suc r) (?v ! r) =
        (map (\<lambda>l. if owns ?v r l then row_of ?v r l else 0) (?w i), map (owns ?v r) (?w i))" by (rule write_slots_map [OF rv])
    show "build_dcp_weighted_kv_indices mem idxs lens kv_indptr kv_start_idx
        (sum_list ?v, prefix_from 0 ?v ! r, prefix_from 0 ?v ! Suc r, ?v ! r) pad stride total_tokens full_kv =
      (?ptr r, concat (map (\<lambda>i. map (row_of ?v r) (?own r i)) [0..<?bs]) @ replicate pad 0)"
      by (rule build_spec [OF v(2) rv assms(3-8)])
  qed (rule seg [OF that(1)])
  then show ?thesis using tot by (intro exI [of _ ?ptr]) blast
qed

theorem kv_indices_cover_witness:
  "\<exists>indptr. (\<Sum>r<3::nat. indptr r ! 1 - indptr r ! 0) = (4::nat) \<and>
     (\<exists>indices. build_dcp_weighted_kv_indices (\<lambda>a. int a) [1, 0] [4, 2] [0, 9, 9] None (13, 7, 10, 3) 0 10 None (replicate 6 0) =
       (indptr 1, indices))"
proof -
  have b: "dcp_weighted_owner_bounds demo_dcp 3 1 = Inr (13, 7, 10, 3)" by code_simp
  have "vector_ok demo_dcp" by code_simp
  moreover have "\<forall>i<length [1, 0::nat]. \<forall>l\<in>set (window (\<lambda>a. int a) [1, 0] [4, 2] None 10 i). 0 \<le> l \<and> l < 2 ^ 31"
    by (auto simp: window_def less_Suc_eq_0_disj nth_Cons split: nat.splits)
  ultimately obtain indptr where p: "\<forall>i<length [1, 0::nat].
    (\<forall>r<3. \<exists>cp_S lo hi ratio indices loc mask. dcp_weighted_owner_bounds demo_dcp 3 r = Inr (cp_S, lo, hi, ratio) \<and>
       build_dcp_weighted_kv_indices (\<lambda>a. int a) [1, 0] [4, 2] [0, 9, 9] None (cp_S, lo, hi, ratio) 0 10 None (replicate 6 0) =
         (indptr r, indices) \<and>
       dcp_weighted_write_slots (window (\<lambda>a. int a) [1, 0] [4, 2] None 10 i) cp_S lo hi ratio = (loc, mask) \<and>
       slice (indptr r ! i) (indptr r ! (i + 1)) indices = map fst (filter snd (zip loc mask))) \<and>
    (\<Sum>r<3. indptr r ! (i + 1) - indptr r ! i) = [4, 2] ! i"
    using kv_indices_cover [of demo_dcp 3 "[4, 2]" "[1, 0]" "replicate 6 0" "[0, 9, 9]" None "\<lambda>a. int a" None 10 0] by auto
  have "(0::nat) < length [1, 0::nat]" by simp
  note p0 = p [rule_format, OF this]
  have "(1::nat) < 3" by simp
  then have "\<exists>indices. build_dcp_weighted_kv_indices (\<lambda>a. int a) [1, 0] [4, 2] [0, 9, 9] None (13, 7, 10, 3) 0 10 None (replicate 6 0) =
      (indptr 1, indices)" using p0 b by fastforce
  moreover have "(\<Sum>r<3. indptr r ! 1 - indptr r ! 0) = 4" using p0 by simp
  ultimately show ?thesis by blast
qed

text \<open>The seed latch refuses exactly a boot that had a seed and a chance to replace it but reached no verdict.\<close>

lemma assert_seed_superseded_iff:
  "assert_seed_superseded s = Inl SeedNotSupersededError \<longleftrightarrow>
   seed_awaiting s \<noteq> None \<and> seed_calibration_reached s \<and> \<not> seed_verdict_reached s"
  by (auto simp: assert_seed_superseded_def)

end
