(* ===== verification/Kv_Reshard.thy ===== *)
theory Kv_Reshard
  imports Dcp_Owner Py_Text "HOL-Library.Word"
begin

text \<open>
  Moving the KV cache to another token vector (\<^verbatim>\<open>layers/dcp/reshard_plan.py\<close>, \<^verbatim>\<open>managers/kv_reshard.py\<close>).
  Every rank derives its part of the move from the live slots and the two vectors; at a consensus boundary
  the ranks reduce one proposal and either all wait, all refuse, all fail or all move; the move packs the
  outgoing rows, exchanges them, checks them, writes the rows of the new layout and installs the vector.

  A byte is an \<open>8 word\<close>, a checksum a \<open>64 word\<close> (sums wrap as in \<^verbatim>\<open>int64\<close>). One call of \<^verbatim>\<open>on_round\<close> is split at
  its collectives: \<open>round_begin\<close> up to the reduction, \<open>round_end\<close> after it, then \<open>exec_pack\<close> up to the
  exchange and \<open>exec_finish\<close> after it. Parameters stand for what is not in the sources: the reduction over
  the ranks, the transport of one payload between two ranks, the chunk size the checksum takes from the free
  device memory, and the answers of the scheduler in a round (\<open>round_env\<close>). Timings, statistics and log
  messages are not modelled.
\<close>

section \<open>Vectors on the command line\<close>

datatype reshard_reason =
    Bad_Spec | Vector_Length | Group_Too_Small | Not_In_Ceiling_Set | Rank_Out_Of_Range | Not_Ascending | Negative_Slot
  | Channel_Contract | Desync | Above_Ceiling | Short_Payload | Checksum_Mismatch | Size_Disagreement | Payload_Shape
  | Layer_Count | Row_Counts_Differ

datatype reshard_error = KvReshardError reshard_reason | Reshard_ValueError | Reshard_IndexError | Reshard_AssertionError

fun parse_ints :: "string list \<Rightarrow> int list option" where
  "parse_ints [] = Some []"
| "parse_ints (x # xs) = (case py_int x of None \<Rightarrow> None | Some n \<Rightarrow> map_option ((#) n) (parse_ints xs))"

fun parse_parts :: "string list \<Rightarrow> reshard_error + int list list" where
  "parse_parts [] = Inr []"
| "parse_parts (p # ps) =
     (let part = py_strip p in
      if part = [] then parse_parts ps
      else (case parse_ints (py_split CHR '','' part) of
              None \<Rightarrow> Inl (KvReshardError Bad_Spec)
            | Some vec \<Rightarrow>
                if vec = [] \<or> list_ex (\<lambda>v. v < 1) vec then Inl (KvReshardError Bad_Spec)
                else rbind (parse_parts ps) (\<lambda>vs. Inr (vec # vs))))"

definition parse_reshard_vectors :: "string \<Rightarrow> reshard_error + int list list" where
  "parse_reshard_vectors spec =
     rbind (parse_parts (py_split CHR '';'' spec)) (\<lambda>vectors.
       if vectors = [] then Inl (KvReshardError Bad_Spec)
       else if length (remdups (map length vectors)) \<noteq> 1 then Inl (KvReshardError Vector_Length)
       else Inr vectors)"

fun add_new :: "int list list \<Rightarrow> int list list \<Rightarrow> int list list" where
  "add_new out [] = out"
| "add_new out (vec # vecs) = add_new (if vec \<in> set out then out else out @ [vec]) vecs"

definition reshard_vector_set :: "string \<Rightarrow> nat \<Rightarrow> int list \<Rightarrow> reshard_error + int list list" where
  "reshard_vector_set spec dcp_size boot =
     (if length boot \<noteq> dcp_size then Inl (KvReshardError Vector_Length)
      else rbind (parse_reshard_vectors spec) (\<lambda>vectors.
        if list_ex (\<lambda>vec. length vec \<noteq> dcp_size) vectors then Inl (KvReshardError Vector_Length)
        else Inr (add_new [boot] vectors)))"

fun reshard_ceiling_rows :: "int \<Rightarrow> int list list \<Rightarrow> nat \<Rightarrow> int res" where
  "reshard_ceiling_rows global_tokens [] rank = Inr 0"
| "reshard_ceiling_rows global_tokens (vec # vecs) rank =
     rbind (nth_res vec rank) (\<lambda>w.
     rbind (dcp_compact_pool_rows global_tokens (sum_list vec) w) (\<lambda>rows.
     rbind (reshard_ceiling_rows global_tokens vecs rank) (\<lambda>rest. Inr (max rows rest))))"

section \<open>The transition of one rank\<close>

definition searchsorted_right :: "int list \<Rightarrow> int \<Rightarrow> nat" where
  "searchsorted_right bounds x = length (takeWhile (\<lambda>b. b \<le> x) bounds)"

definition owner_of :: "int list \<Rightarrow> int list \<Rightarrow> nat list" where
  "owner_of slots vec =
     (let prefix = prefix_from 0 vec; bounds = tl prefix
      in map (\<lambda>l. searchsorted_right bounds (l mod last prefix)) slots)"

definition rows_of :: "int list \<Rightarrow> int list \<Rightarrow> nat \<Rightarrow> int list" where
  "rows_of slots vec rank =
     (let prefix = prefix_from 0 vec; s = last prefix; lo = prefix ! rank; ratio = prefix ! (rank + 1) - lo
      in map (\<lambda>l. l div s * ratio + (l mod s - lo)) slots)"

record transition =
  tr_rank :: nat
  old_vector :: "int list"
  new_vector :: "int list"
  retained_old_rows :: "int list"
  retained_new_rows :: "int list"
  outgoing_rows :: "(nat \<times> int list) list"
  incoming_rows :: "(nat \<times> int list) list"
  total_slots :: nat

definition max_new_row :: "transition \<Rightarrow> int" where
  "max_new_row tr = fold max (concat (map snd (incoming_rows tr))) (fold max (retained_new_rows tr) (-1))"

definition select_by :: "bool list \<Rightarrow> 'a list \<Rightarrow> 'a list" where
  "select_by keep xs = map fst (filter snd (zip xs keep))"

definition build_transition :: "int list \<Rightarrow> int list \<Rightarrow> int list \<Rightarrow> nat \<Rightarrow> reshard_error + transition" where
  "build_transition slots old_vec new_vec rank =
     (let n_ranks = length old_vec in
      if length old_vec \<noteq> length new_vec then Inl (KvReshardError Vector_Length)
      else if \<not> rank < n_ranks then Inl (KvReshardError Rank_Out_Of_Range)
      else if slots \<noteq> [] \<and> \<not> list_all (\<lambda>(a, b). a < b) (zip slots (tl slots)) then Inl (KvReshardError Not_Ascending)
      else if slots \<noteq> [] \<and> hd slots < 0 then Inl (KvReshardError Negative_Slot)
      else
        let old_owner = owner_of slots old_vec; new_owner = owner_of slots new_vec;
            mine_old = map (\<lambda>w. w = rank) old_owner; mine_new = map (\<lambda>w. w = rank) new_owner;
            retained_slots = select_by (map2 (\<and>) mine_old mine_new) slots;
            retained_old = rows_of retained_slots old_vec rank;
            retained_new = rows_of retained_slots new_vec rank;
            moving = map2 (\<noteq>) retained_old retained_new;
            peers = filter (\<lambda>p. p \<noteq> rank) [0..<n_ranks];
            out_slots = \<lambda>p. select_by (map2 (\<lambda>m w. m \<and> w = p) mine_old new_owner) slots;
            in_slots = \<lambda>p. select_by (map2 (\<lambda>w m. w = p \<and> m) old_owner mine_new) slots
        in Inr \<lparr>tr_rank = rank, old_vector = old_vec, new_vector = new_vec,
                retained_old_rows = select_by moving retained_old, retained_new_rows = select_by moving retained_new,
                outgoing_rows = map (\<lambda>p. (p, rows_of (out_slots p) old_vec rank)) (filter (\<lambda>p. out_slots p \<noteq> []) peers),
                incoming_rows = map (\<lambda>p. (p, rows_of (in_slots p) new_vec rank)) (filter (\<lambda>p. in_slots p \<noteq> []) peers),
                total_slots = length slots\<rparr>)"

section \<open>The pool\<close>

type_synonym byte = "8 word"

record kv_layer =
  k_rows :: "byte list list"
  v_rows :: "byte list list"
  k_nbytes :: nat
  v_nbytes :: nat

record kv_view =
  kv_layers :: "kv_layer list"
  tensor_rows :: nat
  valid_rows :: "nat option"

text \<open>Constructing the view of K and V buffers, given with their row widths.\<close>

definition KvPoolView ::
  "(byte list list \<times> nat) list \<Rightarrow> (byte list list \<times> nat) list \<Rightarrow> nat option \<Rightarrow> reshard_error + kv_view" where
  "KvPoolView ks vs valid =
     (if length ks \<noteq> length vs then Inl (KvReshardError Layer_Count)
      else if ks = [] then Inl (KvReshardError Layer_Count)
      else
        let rows = remdups (map (\<lambda>b. length (fst b)) ks @ map (\<lambda>b. length (fst b)) vs) in
        if length rows \<noteq> 1 then Inl (KvReshardError Row_Counts_Differ)
        else Inr \<lparr>kv_layers = map2 (\<lambda>(k, kw) (v, vw). \<lparr>k_rows = k, v_rows = v, k_nbytes = kw, v_nbytes = vw\<rparr>) ks vs,
                  tensor_rows = hd rows, valid_rows = valid\<rparr>)"

definition num_rows :: "kv_view \<Rightarrow> nat" where
  "num_rows view = (case valid_rows view of None \<Rightarrow> tensor_rows view | Some n \<Rightarrow> min (tensor_rows view) n)"

definition num_layers :: "kv_view \<Rightarrow> nat" where
  "num_layers view = length (kv_layers view)"

definition row_nbytes :: "kv_view \<Rightarrow> nat \<Rightarrow> nat" where
  "row_nbytes view layer = k_nbytes (kv_layers view ! layer) + v_nbytes (kv_layers view ! layer)"

definition total_row_nbytes :: "kv_view \<Rightarrow> nat" where
  "total_row_nbytes view = sum_list (map (row_nbytes view) [0..<num_layers view])"

text \<open>An index into dimension 0 of a tensor of \<open>n\<close> rows.\<close>

definition tensor_index :: "nat \<Rightarrow> int \<Rightarrow> reshard_error + nat" where
  "tensor_index n i =
     (if 0 \<le> i \<and> i < int n then Inr (nat i)
      else if - int n \<le> i \<and> i < 0 then Inr (nat (i + int n))
      else Inl Reshard_IndexError)"

definition read_row :: "kv_layer \<Rightarrow> int \<Rightarrow> reshard_error + byte list" where
  "read_row l i =
     rbind (tensor_index (length (k_rows l)) i) (\<lambda>a. rbind (tensor_index (length (v_rows l)) i) (\<lambda>b.
       Inr (k_rows l ! a @ v_rows l ! b)))"

function read_blocks :: "nat \<Rightarrow> kv_layer \<Rightarrow> int list \<Rightarrow> reshard_error + byte list list" where
  "read_blocks block l rows =
     (if rows = [] then Inr []
      else rbind (rmap (read_row l) (take (max 1 block) rows)) (\<lambda>part.
           rbind (read_blocks block l (drop (max 1 block) rows)) (\<lambda>rest. Inr (part @ rest))))"
  by pat_completeness auto
termination by (relation "measure (\<lambda>(block, l, rows). length rows)") auto

definition read_rows :: "nat \<Rightarrow> kv_view \<Rightarrow> nat \<Rightarrow> int list \<Rightarrow> reshard_error + byte list list" where
  "read_rows block view layer rows = read_blocks block (kv_layers view ! layer) rows"

fun put_rows :: "int list \<Rightarrow> byte list list \<Rightarrow> byte list list \<Rightarrow> reshard_error + byte list list" where
  "put_rows (i # is) (d # ds) buf =
     rbind (tensor_index (length buf) i) (\<lambda>a. put_rows is ds (buf[a := d]))"
| "put_rows _ _ buf = Inr buf"

function write_blocks :: "nat \<Rightarrow> int list \<Rightarrow> byte list list \<Rightarrow> kv_layer \<Rightarrow> reshard_error + kv_layer" where
  "write_blocks block rows data l =
     (if rows = [] then Inr l
      else
        let m = max 1 block; part = take m data in
        rbind (put_rows (take m rows) (map (take (k_nbytes l)) part) (k_rows l)) (\<lambda>k.
        rbind (put_rows (take m rows) (map (drop (k_nbytes l)) part) (v_rows l)) (\<lambda>v.
        write_blocks block (drop m rows) (drop m data) (l\<lparr>k_rows := k, v_rows := v\<rparr>))))"
  by pat_completeness auto
termination by (relation "measure (\<lambda>(block, rows, data, l). length rows)") auto

definition write_rows :: "nat \<Rightarrow> nat \<Rightarrow> int list \<Rightarrow> byte list list \<Rightarrow> kv_view \<Rightarrow> reshard_error + kv_view" where
  "write_rows block layer rows data view =
     (if \<not> (length data = length rows \<and> list_all (\<lambda>d. length d = row_nbytes view layer) data)
      then Inl (KvReshardError Payload_Shape)
      else rbind (write_blocks block rows data (kv_layers view ! layer)) (\<lambda>l.
        Inr (view\<lparr>kv_layers := (kv_layers view)[layer := l]\<rparr>)))"

section \<open>Checksums\<close>

function split_chunks :: "nat \<Rightarrow> 'a list \<Rightarrow> 'a list list" where
  "split_chunks n xs = (if xs = [] then [] else take (max 1 n) xs # split_chunks n (drop (max 1 n) xs))"
  by pat_completeness auto
termination by (relation "measure (\<lambda>(n, xs). length xs)") auto

definition uint8_checksum :: "nat \<Rightarrow> byte list \<Rightarrow> 64 word" where
  "uint8_checksum chunk payload =
     (if payload = [] then 0
      else sum_list (map (\<lambda>c. sum_list (map (\<lambda>b. ucast b :: 64 word) c)) (split_chunks chunk payload)))"

text \<open>The little-endian bytes of an \<^verbatim>\<open>int64\<close>, and reading them back.\<close>

fun le_bytes :: "nat \<Rightarrow> 64 word \<Rightarrow> byte list" where
  "le_bytes 0 w = []"
| "le_bytes (Suc n) w = ucast w # le_bytes n (drop_bit 8 w)"

fun le_word :: "byte list \<Rightarrow> 64 word" where
  "le_word [] = 0"
| "le_word (b # bs) = or (ucast b) (push_bit 8 (le_word bs))"

definition checksum_bytes :: "nat \<Rightarrow> byte list \<Rightarrow> byte list" where
  "checksum_bytes chunk payload = le_bytes 8 (uint8_checksum chunk payload)"

definition checksum_of_bytes :: "byte list \<Rightarrow> 64 word" where
  "checksum_of_bytes bs = le_word bs"

definition CHECKSUM_BYTES :: nat where
  "CHECKSUM_BYTES = 8"

declare read_blocks.simps [simp del] write_blocks.simps [simp del] split_chunks.simps [simp del]

section \<open>The runtime of one rank\<close>

datatype hold_reason =
    Delivery_Skew
  | Does_Not_Fit string
  | Waiting_For_Idle int

record transient_terms =
  staged :: int
  packed :: int
  largest_peer_pack :: int
  recv :: int
  peak :: int

datatype headroom_detail =
    Free_Unreadable (hd_peak: int) (hd_floor: int)
  | Headroom (hd_free: int) (hd_floor: int) (hd_peak: int) (hd_margin: int) (hd_ok: bool)

record reshard_runtime =
  rt_size :: nat
  rt_rank :: nat
  allowed :: "int list list"
  current :: "int list"
  interval :: int
  blocking_guards :: "string list"
  corridor_floor :: int
  pool :: kv_view
  rounds :: int
  epoch :: int
  pending :: "int list option"
  pending_since :: "int option"
  last_hold_reason :: "hold_reason option"
  last_hold_report_at :: "int option"
  desync_checks :: int
  completed :: int
  refused_headroom :: int
  last_headroom :: "headroom_detail option"

definition KvReshardRuntime ::
  "nat \<Rightarrow> nat \<Rightarrow> int list list \<Rightarrow> int list \<Rightarrow> int \<Rightarrow> kv_view \<Rightarrow> string list \<Rightarrow> int \<Rightarrow> reshard_error + reshard_runtime" where
  "KvReshardRuntime dcp_size dcp_rank allowed_vectors current_vector consensus_interval pool_view guards corridor_floor_bytes =
     (if dcp_size < 2 then Inl (KvReshardError Group_Too_Small)
      else if consensus_interval < 1 then Inl Reshard_ValueError
      else if list_ex (\<lambda>vec. length vec \<noteq> dcp_size) allowed_vectors then Inl (KvReshardError Vector_Length)
      else if current_vector \<notin> set allowed_vectors then Inl (KvReshardError Not_In_Ceiling_Set)
      else Inr \<lparr>rt_size = dcp_size, rt_rank = dcp_rank, allowed = allowed_vectors, current = current_vector,
                interval = consensus_interval, blocking_guards = guards, corridor_floor = corridor_floor_bytes, pool = pool_view,
                rounds = 0, epoch = 0, pending = None, pending_since = None, last_hold_reason = None,
                last_hold_report_at = None, desync_checks = 0, completed = 0, refused_headroom = 0, last_headroom = None\<rparr>)"

definition arm :: "int list \<Rightarrow> int \<Rightarrow> reshard_runtime \<Rightarrow> bool \<times> reshard_runtime" where
  "arm vec now rt =
     (if blocking_guards rt \<noteq> [] then (False, rt)
      else if length vec \<noteq> rt_size rt \<or> list_ex (\<lambda>v. v < 1) vec then (False, rt)
      else if vec = current rt then (False, rt)
      else if vec \<notin> set (allowed rt) then (False, rt)
      else
        let rt1 = (if pending rt \<noteq> Some vec \<or> pending_since rt = None
                   then rt\<lparr>pending_since := Some now, last_hold_report_at := None\<rparr> else rt)
        in (True, rt1\<lparr>pending := Some vec\<rparr>))"

text \<open>What the callbacks answer in a round: the values of the radix tree, whether the scheduler is idle, the
  capacity check when one is wired, the free device memory when it is read (\<open>Inl ()\<close> when reading raises), the clock.\<close>

record round_env =
  live_slots :: "int list"
  is_fully_idle :: bool
  fit_check :: "(int list \<Rightarrow> bool \<times> string) option"
  free_bytes :: "(unit + int) option"
  clock_now :: int

definition plan_transient_terms :: "kv_view \<Rightarrow> transition \<Rightarrow> transient_terms" where
  "plan_transient_terms view tr =
     (let row_bytes = int (total_row_nbytes view);
          out_per_peer = map (\<lambda>(p, rows). int (length rows) * row_bytes) (outgoing_rows tr);
          in_per_peer = map (\<lambda>(p, rows). int (length rows) * row_bytes) (incoming_rows tr);
          st = sum_list out_per_peer;
          pk = st + int CHECKSUM_BYTES * int (length out_per_peer);
          lg = (if out_per_peer = [] then 0 else fold max (tl out_per_peer) (hd out_per_peer));
          rv = sum_list in_per_peer + int CHECKSUM_BYTES * int (length in_per_peer)
      in \<lparr>staged = st, packed = pk, largest_peer_pack = lg, recv = rv, peak = st + pk + lg + rv\<rparr>)"

definition plan_move :: "round_env \<Rightarrow> int list \<Rightarrow> reshard_runtime \<Rightarrow> reshard_error + (transition \<times> transient_terms)" where
  "plan_move env target rt =
     (let slots = sort (remdups (live_slots env)) in
      rbind (build_transition slots (current rt) target (rt_rank rt)) (\<lambda>tr. Inr (tr, plan_transient_terms (pool rt) tr)))"

definition headroom_check :: "round_env \<Rightarrow> transient_terms \<Rightarrow> reshard_runtime \<Rightarrow> int \<times> headroom_detail option \<times> reshard_runtime" where
  "headroom_check env terms rt =
     (case free_bytes env of
        None \<Rightarrow> (1, None, rt)
      | Some (Inl _) \<Rightarrow>
          let detail = Free_Unreadable (peak terms) (corridor_floor rt) in (0, Some detail, rt\<lparr>last_headroom := Some detail\<rparr>)
      | Some (Inr free) \<Rightarrow>
          let margin = free - corridor_floor rt - peak terms;
              detail = Headroom free (corridor_floor rt) (peak terms) margin (0 \<le> margin)
          in (if 0 \<le> margin then 1 else 0, Some detail, rt\<lparr>last_headroom := Some detail\<rparr>))"

record proposal =
  prop_armed :: int
  prop_ready :: int
  prop_headroom :: int
  prop_epoch :: int
  prop_vector :: "int list"
  prop_plan :: "transition option"
  prop_fit_ok :: bool
  prop_fit_msg :: string

fun encode :: "int list \<Rightarrow> int list" where
  "encode [] = []"
| "encode (v # vs) = v # (- v) # encode vs"

definition payload_of :: "proposal \<Rightarrow> int list" where
  "payload_of p = encode ([prop_armed p, prop_ready p, prop_headroom p, prop_epoch p] @ prop_vector p)"

definition round_begin :: "round_env \<Rightarrow> reshard_runtime \<Rightarrow> reshard_error + (reshard_runtime \<times> proposal option)" where
  "round_begin env rt0 =
     (let rt = rt0\<lparr>rounds := rounds rt0 + 1\<rparr> in
      if rounds rt mod interval rt \<noteq> 0 then Inr (rt, None)
      else
        let armed = (if pending rt \<noteq> None then 1 else 0);
            (fit_ok, fit_msg) = (case pending rt of
                None \<Rightarrow> (True, [])
              | Some target \<Rightarrow> (case fit_check env of None \<Rightarrow> (True, []) | Some f \<Rightarrow> f target));
            local_ready = (armed = 1 \<and> fit_ok \<and> is_fully_idle env);
            vec = (case pending rt of Some target \<Rightarrow> target | None \<Rightarrow> replicate (rt_size rt) 0)
        in if local_ready
           then rbind (plan_move env vec rt) (\<lambda>(tr, terms).
             let (headroom, _, rt1) = headroom_check env terms rt
             in Inr (rt1\<lparr>desync_checks := desync_checks rt1 + 1\<rparr>,
                     Some \<lparr>prop_armed = armed, prop_ready = 1, prop_headroom = headroom, prop_epoch = epoch rt, prop_vector = vec,
                           prop_plan = Some tr, prop_fit_ok = fit_ok, prop_fit_msg = fit_msg\<rparr>))
           else Inr (rt\<lparr>desync_checks := desync_checks rt + 1\<rparr>,
                     Some \<lparr>prop_armed = armed, prop_ready = 0, prop_headroom = 1, prop_epoch = epoch rt, prop_vector = vec,
                           prop_plan = None, prop_fit_ok = fit_ok, prop_fit_msg = fit_msg\<rparr>))"

definition HOLD_REPORT_INTERVAL_S :: int where
  "HOLD_REPORT_INTERVAL_S = 60"

definition hold :: "int \<Rightarrow> hold_reason \<Rightarrow> reshard_runtime \<Rightarrow> reshard_runtime" where
  "hold now reason rt =
     (let changed = (last_hold_reason rt \<noteq> Some reason);
          due = (case last_hold_report_at rt of None \<Rightarrow> True | Some t \<Rightarrow> HOLD_REPORT_INTERVAL_S \<le> now - t)
      in if \<not> changed \<and> \<not> due then rt
         else rt\<lparr>last_hold_reason := Some reason, last_hold_report_at := Some now\<rparr>)"

definition refuse_for_headroom :: "reshard_runtime \<Rightarrow> reshard_runtime" where
  "refuse_for_headroom rt =
     rt\<lparr>pending := None, pending_since := None, last_hold_report_at := None,
        refused_headroom := refused_headroom rt + 1, last_hold_reason := None\<rparr>"

datatype verdict = Waits | Refuses | Moves

definition round_end :: "int \<Rightarrow> int list \<Rightarrow> proposal \<Rightarrow> reshard_runtime \<Rightarrow> reshard_error + (verdict \<times> reshard_runtime)" where
  "round_end now reduced p rt =
     (if length reduced \<noteq> length (payload_of p) then Inl (KvReshardError Channel_Contract)
      else
        let lo = (\<lambda>i. reduced ! (2 * i)); hi = (\<lambda>i. - reduced ! (2 * i + 1));
            eq_checked = [3] @ (if lo 0 = 1 then map (\<lambda>i. 4 + i) [0..<rt_size rt] else [])
        in if list_ex (\<lambda>i. lo i \<noteq> hi i) eq_checked then Inl (KvReshardError Desync)
           else if lo 0 = 0
           then Inr (Waits, if hi 0 = 1 then hold now Delivery_Skew rt else rt)
           else if lo 1 = 0
           then Inr (Waits, if \<not> prop_fit_ok p then hold now (Does_Not_Fit (prop_fit_msg p)) rt
                            else hold now (Waiting_For_Idle (prop_ready p)) rt)
           else if lo 2 = 0 then Inr (Refuses, refuse_for_headroom rt)
           else Inr (Moves, rt\<lparr>last_hold_reason := None\<rparr>))"

section \<open>The move\<close>

definition cat_rows :: "nat \<Rightarrow> byte list list list \<Rightarrow> byte list list" where
  "cat_rows n parts = map (\<lambda>j. concat (map (\<lambda>p. p ! j) parts)) [0..<n]"

definition pack_peer :: "nat \<Rightarrow> nat \<Rightarrow> kv_view \<Rightarrow> int list \<Rightarrow> reshard_error + byte list" where
  "pack_peer block chunk view rows =
     rbind (rmap (\<lambda>layer. read_rows block view layer rows) [0..<num_layers view]) (\<lambda>parts.
       let flat = concat (cat_rows (length rows) parts) in Inr (flat @ checksum_bytes chunk flat))"

definition exec_pack :: "nat \<Rightarrow> nat \<Rightarrow> transition \<Rightarrow> kv_view \<Rightarrow> reshard_error + (nat \<times> byte list) list" where
  "exec_pack block chunk tr view =
     (if int (num_rows view) \<le> max_new_row tr then Inl (KvReshardError Above_Ceiling)
      else rmap (\<lambda>(peer, rows). rbind (pack_peer block chunk view rows) (\<lambda>payload. Inr (peer, payload))) (outgoing_rows tr))"

definition incoming_nbytes :: "transition \<Rightarrow> kv_view \<Rightarrow> (nat \<times> nat) list" where
  "incoming_nbytes tr view =
     map (\<lambda>(peer, rows). (peer, length rows * total_row_nbytes view + CHECKSUM_BYTES)) (incoming_rows tr)"

fun view_rows :: "nat \<Rightarrow> nat \<Rightarrow> byte list \<Rightarrow> byte list list" where
  "view_rows 0 width data = []"
| "view_rows (Suc n) width data = take width data # view_rows n width (drop width data)"

definition accept_payload ::
  "nat \<Rightarrow> kv_view \<Rightarrow> (nat \<times> byte list) list \<Rightarrow> nat \<times> int list \<Rightarrow> reshard_error + (nat \<times> byte list list)" where
  "accept_payload chunk view received pr =
     (let (peer, rows) = pr; want_len = length rows * total_row_nbytes view + CHECKSUM_BYTES in
      case map_of received peer of
        None \<Rightarrow> Inl (KvReshardError Short_Payload)
      | Some payload \<Rightarrow>
          if length payload \<noteq> want_len then Inl (KvReshardError Short_Payload)
          else
            let data = take (length payload - CHECKSUM_BYTES) payload;
                want = checksum_of_bytes (drop (length payload - CHECKSUM_BYTES) payload);
                have_sum = uint8_checksum chunk data
            in if want \<noteq> have_sum then Inl (KvReshardError Checksum_Mismatch)
               else Inr (peer, view_rows (length rows) (total_row_nbytes view) data))"

fun write_incoming ::
  "nat \<Rightarrow> nat \<Rightarrow> nat \<Rightarrow> nat \<Rightarrow> (nat \<times> int list) list \<Rightarrow> (nat \<times> byte list list) list \<Rightarrow> kv_view \<Rightarrow> reshard_error + kv_view" where
  "write_incoming block layer col_lo col_hi ((peer, rows) # prs) (d # ds) view =
     rbind (write_rows block layer rows (map (Prelude.slice col_lo col_hi) (snd d)) view) (write_incoming block layer col_lo col_hi prs ds)"
| "write_incoming block layer col_lo col_hi _ _ view = Inr view"

definition write_layer ::
  "nat \<Rightarrow> transition \<Rightarrow> (nat \<times> byte list list) list \<Rightarrow> nat \<Rightarrow> kv_view \<Rightarrow> reshard_error + kv_view" where
  "write_layer block tr incoming_data layer view =
     rbind (if retained_old_rows tr \<noteq> []
            then rbind (read_rows block view layer (retained_old_rows tr)) (\<lambda>tmp. write_rows block layer (retained_new_rows tr) tmp view)
            else Inr view) (\<lambda>view1.
       let col_lo = sum_list (map (row_nbytes view1) [0..<layer]); col_hi = col_lo + row_nbytes view1 layer
       in write_incoming block layer col_lo col_hi (incoming_rows tr) incoming_data view1)"

fun write_layers ::
  "nat \<Rightarrow> transition \<Rightarrow> (nat \<times> byte list list) list \<Rightarrow> nat list \<Rightarrow> kv_view \<Rightarrow> reshard_error + kv_view" where
  "write_layers block tr incoming_data [] view = Inr view"
| "write_layers block tr incoming_data (layer # ls) view =
     rbind (write_layer block tr incoming_data layer view) (write_layers block tr incoming_data ls)"

definition exec_finish ::
  "nat \<Rightarrow> nat \<Rightarrow> transition \<Rightarrow> (nat \<times> byte list) list \<Rightarrow> reshard_runtime \<Rightarrow> reshard_error + reshard_runtime" where
  "exec_finish block chunk tr received rt =
     rbind (rmap (accept_payload chunk (pool rt) received) (incoming_rows tr)) (\<lambda>incoming_data.
     rbind (write_layers block tr incoming_data [0..<num_layers (pool rt)] (pool rt)) (\<lambda>view.
       Inr (rt\<lparr>pool := view, current := (case pending rt of Some t \<Rightarrow> t | None \<Rightarrow> current rt), pending := None,
               pending_since := None, last_hold_report_at := None, epoch := epoch rt + 1, completed := completed rt + 1\<rparr>)))"

section \<open>The exchange\<close>

definition lookup_len :: "(nat \<times> nat) list \<Rightarrow> nat \<Rightarrow> nat" where
  "lookup_len m p = (case map_of m p of None \<Rightarrow> 0 | Some n \<Rightarrow> n)"

text \<open>\<open>_dist_exchange\<close>, over the whole group: the matrices of the sizes each rank sends and expects are summed over
  the ranks, every ordered pair is compared, and then each expected payload is received from its sender.
  \<open>transport sender receiver\<close> is what arrives of a payload.\<close>

definition sizes_agree :: "(nat \<times> byte list) list list \<Rightarrow> (nat \<times> nat) list list \<Rightarrow> bool" where
  "sizes_agree outs ins =
     (let n = length outs; sent = map (map (\<lambda>(p, b). (p, length b))) outs
      in list_all (\<lambda>s. list_all (\<lambda>r. s = r \<or> lookup_len (sent ! s) r = lookup_len (ins ! r) s) [0..<n]) [0..<n])"

definition dist_exchange ::
  "(nat \<Rightarrow> nat \<Rightarrow> byte list \<Rightarrow> byte list) \<Rightarrow> (nat \<times> byte list) list list \<Rightarrow> (nat \<times> nat) list list \<Rightarrow>
   reshard_error + (nat \<times> byte list) list list" where
  "dist_exchange transport outs ins =
     (if \<not> sizes_agree outs ins then Inl (KvReshardError Size_Disagreement)
      else Inr (map (\<lambda>r. map (\<lambda>(p, _). (p, transport p r (case map_of (outs ! p) r of None \<Rightarrow> [] | Some b \<Rightarrow> b))) (ins ! r))
                    [0..<length outs]))"

section \<open>The cutover\<close>

text \<open>An attention backend caches the owner bounds; \<open>weighted\<close> is its \<^verbatim>\<open>uneven_dcp_weighted\<close>.\<close>

record consumer =
  weighted :: bool
  cached_bounds :: "int \<times> int \<times> int \<times> int"

definition refresh_dcp_owner_bounds :: "dcp_state \<Rightarrow> nat \<Rightarrow> nat \<Rightarrow> consumer \<Rightarrow> consumer res" where
  "refresh_dcp_owner_bounds s dcp_size rank c =
     (if \<not> weighted c then Inr c
      else rbind (dcp_weighted_owner_bounds s dcp_size rank) (\<lambda>b. Inr (c\<lparr>cached_bounds := b\<rparr>)))"

definition refresh_all_owner_bounds :: "dcp_state \<Rightarrow> nat \<Rightarrow> nat \<Rightarrow> consumer list \<Rightarrow> consumer list res" where
  "refresh_all_owner_bounds s dcp_size rank cs = rmap (refresh_dcp_owner_bounds s dcp_size rank) cs"

definition cutover :: "int list \<Rightarrow> nat \<Rightarrow> nat \<Rightarrow> dcp_state \<times> consumer list \<Rightarrow> (dcp_state \<times> consumer list) res" where
  "cutover target dcp_size rank sc =
     (let s = set_cp_token_ratios (Some target) (fst sc)
      in rbind (refresh_all_owner_bounds s dcp_size rank (snd sc)) (\<lambda>cs. Inr (s, cs)))"

section \<open>The whole group\<close>

text \<open>A scheduler rank: its runtime, the process globals and the attention backends.\<close>

record rank_state =
  runtime :: reshard_runtime
  process :: dcp_state
  backends :: "consumer list"

definition finish_rank ::
  "nat \<Rightarrow> nat \<Rightarrow> transition \<Rightarrow> (nat \<times> byte list) list \<Rightarrow> rank_state \<Rightarrow> reshard_error + rank_state" where
  "finish_rank block chunk tr received st =
     (case pending (runtime st) of
        None \<Rightarrow> Inl Reshard_AssertionError
      | Some target \<Rightarrow>
          rbind (exec_finish block chunk tr received (runtime st)) (\<lambda>rt.
            case cutover target (rt_size rt) (rt_rank rt) (process st, backends st) of
              Inl _ \<Rightarrow> Inl Reshard_IndexError
            | Inr (s, cs) \<Rightarrow> Inr \<lparr>runtime = rt, process = s, backends = cs\<rparr>))"

text \<open>The move of a group whose ranks all decided to move with the plans \<open>trs\<close>.\<close>

definition group_move ::
  "nat \<Rightarrow> (nat \<Rightarrow> nat) \<Rightarrow> (nat \<Rightarrow> nat \<Rightarrow> byte list \<Rightarrow> byte list) \<Rightarrow> transition list \<Rightarrow> rank_state list \<Rightarrow>
   reshard_error + rank_state list" where
  "group_move block chunk transport trs sts =
     rbind (rmap (\<lambda>r. exec_pack block (chunk r) (trs ! r) (pool (runtime (sts ! r)))) [0..<length sts]) (\<lambda>outs.
     rbind (dist_exchange transport outs (map (\<lambda>r. incoming_nbytes (trs ! r) (pool (runtime (sts ! r)))) [0..<length sts])) (\<lambda>recs.
     rmap (\<lambda>r. finish_rank block (chunk r) (trs ! r) (recs ! r) (sts ! r)) [0..<length sts]))"

end
