(* ===== verification/Kv_Move.thy ===== *)
theory Kv_Move
  imports Kv_Reshard
begin

text \<open>
  The byte move of a reshard: reading and writing rows, the contents of a transition, packing and
  unpacking of payloads, and the group move. The last lemmas connect the move with the owner rule.
\<close>

section \<open>Checksums and reading back\<close>

lemma le_bytes_length [simp]: "length (le_bytes n w) = n"
  by (induction n arbitrary: w) auto

lemma le_word_bytes: "le_word (le_bytes n w) = take_bit (8 * n) w"
proof (induction n arbitrary: w)
  case (Suc n)
  show ?case unfolding le_bytes.simps le_word.simps Suc
    by (rule bit_eqI) (auto simp: bit_or_iff bit_push_bit_iff bit_take_bit_iff bit_drop_bit_eq bit_ucast_iff)
qed simp

lemma checksum_roundtrip: "checksum_of_bytes (checksum_bytes chunk payload) = uint8_checksum chunk payload"
  by (simp add: checksum_of_bytes_def checksum_bytes_def le_word_bytes take_bit_word_eq_self)

lemma split_chunks_concat: "concat (split_chunks n xs) = xs"
  by (induction n xs rule: split_chunks.induct) (subst split_chunks.simps, simp)

lemma uint8_checksum_sum: "uint8_checksum chunk payload = sum_list (map ucast payload)"
proof -
  have "sum_list (map (\<lambda>c. sum_list (map (\<lambda>b. ucast b :: 64 word) c)) css) = sum_list (map ucast (concat css))"
    for css :: "byte list list"
    by (induction css) auto
  from this [of "split_chunks chunk payload"] show ?thesis by (simp add: uint8_checksum_def split_chunks_concat)
qed

lemma read_blocks_rmap: "read_blocks block l rows = rmap (read_row l) rows"
proof (induction block l rows rule: read_blocks.induct)
  case (1 block l rows)
  have app: "rmap f (xs @ ys) = rbind (rmap f xs) (\<lambda>a. rbind (rmap f ys) (\<lambda>b. Inr (a @ b)))"
    for f :: "int \<Rightarrow> reshard_error + byte list" and xs ys
    by (induction xs) (auto simp: rbind_def split: sum.split)
  show ?case
    using 1 app [of "read_row l" "take (max 1 block) rows" "drop (max 1 block) rows"]
    by (subst read_blocks.simps) (auto simp: rbind_def split: sum.split)
qed

section \<open>Rows of a view\<close>

definition layer_ok :: "nat \<Rightarrow> kv_layer \<Rightarrow> bool" where
  "layer_ok n l \<longleftrightarrow> length (k_rows l) = n \<and> length (v_rows l) = n \<and>
     list_all (\<lambda>b. length b = k_nbytes l) (k_rows l) \<and> list_all (\<lambda>b. length b = v_nbytes l) (v_rows l)"

definition view_ok :: "kv_view \<Rightarrow> bool" where
  "view_ok view \<longleftrightarrow> list_all (layer_ok (tensor_rows view)) (kv_layers view)"

definition layer_row :: "kv_layer \<Rightarrow> nat \<Rightarrow> byte list" where
  "layer_row l i = k_rows l ! i @ v_rows l ! i"

definition row_at :: "kv_view \<Rightarrow> nat \<Rightarrow> nat \<Rightarrow> byte list" where
  "row_at view layer i = layer_row (kv_layers view ! layer) i"

definition in_rows :: "nat \<Rightarrow> int list \<Rightarrow> bool" where
  "in_rows n rows \<longleftrightarrow> list_all (\<lambda>i. 0 \<le> i \<and> i < int n) rows"

lemma layer_row_length:
  "layer_ok n l \<Longrightarrow> i < n \<Longrightarrow> length (layer_row l i) = k_nbytes l + v_nbytes l"
  by (auto simp: layer_ok_def layer_row_def list_all_length)

lemma read_rows_ok:
  assumes "view_ok view" "layer < num_layers view" "in_rows (tensor_rows view) rows"
  shows "read_rows block view layer rows = Inr (map (\<lambda>i. row_at view layer (nat i)) rows)"
proof -
  have l: "layer_ok (tensor_rows view) (kv_layers view ! layer)"
    using assms(1,2) by (simp add: view_ok_def num_layers_def list_all_length)
  have "rmap (read_row (kv_layers view ! layer)) rows = Inr (map (\<lambda>i. row_at view layer (nat i)) rows)"
    using assms(3) l by (induction rows) (auto simp: in_rows_def read_row_def tensor_index_def layer_ok_def row_at_def layer_row_def)
  then show ?thesis by (simp add: read_rows_def read_blocks_rmap)
qed

definition put_all :: "(int \<times> byte list) list \<Rightarrow> byte list list \<Rightarrow> byte list list" where
  "put_all ws buf = fold (\<lambda>(i, d) b. b[nat i := d]) ws buf"

lemma put_all_append: "put_all (xs @ ys) buf = put_all ys (put_all xs buf)"
  by (simp add: put_all_def)

lemma put_all_length [simp]: "length (put_all ws buf) = length buf"
  unfolding put_all_def by (induction ws arbitrary: buf) auto

lemma put_all_nth:
  assumes "i < length buf" "list_all (\<lambda>w. 0 \<le> fst w) ws"
  shows "put_all ws buf ! i = (case map_of (rev ws) (int i) of None \<Rightarrow> buf ! i | Some d \<Rightarrow> d)"
  using assms
proof (induction ws rule: rev_induct)
  case (snoc w ws)
  have one: "put_all [w] b = b[nat (fst w) := snd w]" for b by (cases w) (simp add: put_all_def)
  show ?case unfolding put_all_append one using snoc by (cases w) (auto simp: nth_list_update split: option.split)
qed (simp add: put_all_def)

lemma put_rows_ok:
  "in_rows (length buf) rows \<Longrightarrow> length ds = length rows \<Longrightarrow> put_rows rows ds buf = Inr (put_all (zip rows ds) buf)"
  by (induction rows ds buf rule: put_rows.induct) (auto simp: in_rows_def tensor_index_def put_all_def)

lemma write_blocks_ok:
  assumes "in_rows (length (k_rows l)) rows" "length (v_rows l) = length (k_rows l)" "length data = length rows"
  shows "write_blocks block rows data l = Inr (l\<lparr>k_rows := put_all (zip rows (map (take (k_nbytes l)) data)) (k_rows l),
     v_rows := put_all (zip rows (map (drop (k_nbytes l)) data)) (v_rows l)\<rparr>)"
  using assms
proof (induction block rows data l rule: write_blocks.induct)
  case (1 block rows data l)
  show ?case
  proof (cases "rows = []")
    case True
    then show ?thesis by (subst write_blocks.simps) (simp add: put_all_def)
  next
    case False
    let ?m = "max 1 block"
    have r: "in_rows n rows \<Longrightarrow> in_rows n (take ?m rows) \<and> in_rows n (drop ?m rows)" for n
      by (auto simp: in_rows_def list_all_iff dest: in_set_takeD in_set_dropD)
    have z: "zip rows (map f data) = zip (take ?m rows) (map f (take ?m data)) @ zip (drop ?m rows) (map f (drop ?m data))"
      for f :: "byte list \<Rightarrow> byte list"
    proof -
      have "zip rows (map f data) = zip (take ?m rows @ drop ?m rows) (map f (take ?m data) @ map f (drop ?m data))"
        by (simp flip: map_append)
      also have "\<dots> = zip (take ?m rows) (map f (take ?m data)) @ zip (drop ?m rows) (map f (drop ?m data))"
        by (rule zip_append) (use 1(4) in simp)
      finally show ?thesis .
    qed
    show ?thesis
      using False 1 r
      by (subst write_blocks.simps) (simp add: Let_def put_rows_ok z put_all_append)
  qed
qed

definition same_geometry :: "kv_view \<Rightarrow> kv_view \<Rightarrow> bool" where
  "same_geometry a b \<longleftrightarrow> tensor_rows a = tensor_rows b \<and> valid_rows a = valid_rows b \<and> num_layers a = num_layers b \<and>
     (\<forall>ly<num_layers a. k_nbytes (kv_layers a ! ly) = k_nbytes (kv_layers b ! ly) \<and> v_nbytes (kv_layers a ! ly) = v_nbytes (kv_layers b ! ly))"

definition wrote :: "nat \<Rightarrow> (int \<times> byte list) list \<Rightarrow> kv_view \<Rightarrow> kv_view \<Rightarrow> bool" where
  "wrote layer asg view view' \<longleftrightarrow> view_ok view' \<and> same_geometry view view' \<and>
     (\<forall>ly<num_layers view. \<forall>i<tensor_rows view. row_at view' ly i =
        (if ly = layer then (case map_of asg (int i) of None \<Rightarrow> row_at view ly i | Some d \<Rightarrow> d) else row_at view ly i))"

lemma same_geometry_refl [simp]: "same_geometry a a" by (simp add: same_geometry_def)

lemma same_geometry_trans: "same_geometry a b \<Longrightarrow> same_geometry b c \<Longrightarrow> same_geometry a c"
  by (simp add: same_geometry_def)

lemma same_geometry_row_nbytes: "same_geometry a b \<Longrightarrow> ly < num_layers a \<Longrightarrow> row_nbytes b ly = row_nbytes a ly"
  by (simp add: same_geometry_def row_nbytes_def)

lemma wrote_refl: "view_ok view \<Longrightarrow> wrote layer [] view view"
  by (simp add: wrote_def)

lemma wrote_trans:
  assumes "wrote layer a u v" "wrote layer b v w"
  shows "wrote layer (b @ a) u w"
proof -
  have g: "num_layers v = num_layers u" "tensor_rows v = tensor_rows u" using assms(1) by (simp_all add: wrote_def same_geometry_def)
  show ?thesis using assms same_geometry_trans unfolding wrote_def g
    by (auto simp: map_add_def split: option.split)
qed

lemma write_rows_ok:
  assumes "view_ok view" "layer < num_layers view" "in_rows (tensor_rows view) rows" "length data = length rows"
    "list_all (\<lambda>d. length d = row_nbytes view layer) data"
  shows "\<exists>view'. write_rows block layer rows data view = Inr view' \<and> wrote layer (rev (zip rows data)) view view'"
proof -
  let ?l = "kv_layers view ! layer" and ?z = "\<lambda>f. zip rows (map f data)"
  let ?l' = "?l\<lparr>k_rows := put_all (?z (take (k_nbytes ?l))) (k_rows ?l), v_rows := put_all (?z (drop (k_nbytes ?l))) (v_rows ?l)\<rparr>"
  let ?v = "view\<lparr>kv_layers := (kv_layers view)[layer := ?l']\<rparr>"
  have l: "layer_ok (tensor_rows view) ?l" using assms(1,2) by (simp add: view_ok_def num_layers_def list_all_length)
  have pos: "list_all (\<lambda>w. 0 \<le> fst w) (?z f)" for f :: "byte list \<Rightarrow> byte list"
    using assms(3) by (auto simp: in_rows_def list_all_iff dest: set_zip_leftD)
  have len: "length d = k_nbytes ?l + v_nbytes ?l" if "d \<in> set data" for d
    using assms(5) that by (auto simp: list_all_iff row_nbytes_def)
  have mo: "map_of (rev (?z f)) k = map_option f (map_of (rev (zip rows data)) k)" for f k
  proof -
    have "map_of (map (\<lambda>p. (fst p, f (snd p))) ps) k = map_option f (map_of ps k)" for ps by (induction ps) auto
    then show ?thesis by (simp add: zip_map2 rev_map case_prod_unfold)
  qed
  have kv: "put_all (?z f) buf ! i = (case map_of (rev (zip rows data)) (int i) of None \<Rightarrow> buf ! i | Some d \<Rightarrow> f d)"
    if "i < length buf" for f buf i
    using put_all_nth [OF that pos] unfolding mo by (simp split: option.split)
  have in_data: "d \<in> set data" if "map_of (rev (zip rows data)) k = Some d" for k d
    using map_of_SomeD [OF that] by (auto dest: set_zip_rightD)
  have l': "layer_ok (tensor_rows view) ?l'"
    using l kv len in_data by (auto simp: layer_ok_def list_all_length split: option.split)
  have row: "layer_row ?l' i = (case map_of (rev (zip rows data)) (int i) of None \<Rightarrow> layer_row ?l i | Some d \<Rightarrow> d)"
    if "i < tensor_rows view" for i
    using l that kv by (auto simp: layer_row_def layer_ok_def split: option.split)
  have "write_rows block layer rows data view = Inr ?v"
    using assms l by (simp add: write_rows_def write_blocks_ok layer_ok_def)
  moreover have "view_ok ?v"
    using assms(1,2) l' by (auto simp: view_ok_def num_layers_def list_all_length nth_list_update)
  moreover have "same_geometry view ?v" using assms(2) by (auto simp: same_geometry_def num_layers_def nth_list_update)
  ultimately show ?thesis
    using row assms(2) by (auto simp: wrote_def row_at_def num_layers_def nth_list_update split: option.split)
qed

section \<open>Writing the layers\<close>

lemma wrote_view: "wrote layer asg view view' \<Longrightarrow> view_ok view' \<and> same_geometry view view'"
  by (simp add: wrote_def)

lemma write_incoming_ok:
  assumes "view_ok view" "layer < num_layers view" "list_all (\<lambda>pr. in_rows (tensor_rows view) (snd pr)) prs"
    "list_all2 (\<lambda>pr d. length (snd d) = length (snd pr) \<and>
       list_all (\<lambda>b. length (Prelude.slice lo hi b) = row_nbytes view layer) (snd d)) prs ds"
  shows "\<exists>view' asg. write_incoming block layer lo hi prs ds view = Inr view' \<and> wrote layer asg view view' \<and>
     set asg = {(i, Prelude.slice lo hi b) |i b. \<exists>pr d. (pr, d) \<in> set (zip prs ds) \<and> (i, b) \<in> set (zip (snd pr) (snd d))}"
  using assms
proof (induction prs arbitrary: ds view)
  case Nil
  then show ?case by (auto intro!: exI [of _ view] exI [of _ "[]"] wrote_refl)
next
  case (Cons pr prs)
  obtain d ds' where ds: "ds = d # ds'" using Cons.prems(4) by (cases ds) auto
  let ?data = "map (Prelude.slice lo hi) (snd d)"
  have c: "length (snd d) = length (snd pr)" "list_all (\<lambda>b. length (Prelude.slice lo hi b) = row_nbytes view layer) (snd d)"
    "list_all2 (\<lambda>pr d. length (snd d) = length (snd pr) \<and>
       list_all (\<lambda>b. length (Prelude.slice lo hi b) = row_nbytes view layer) (snd d)) prs ds'"
    using Cons.prems(4) ds by simp_all
  obtain v1 where v1: "write_rows block layer (snd pr) ?data view = Inr v1" "wrote layer (rev (zip (snd pr) ?data)) view v1"
    using write_rows_ok [of view layer "snd pr" ?data block] Cons.prems(1-3) c by (auto simp: list_all_iff simp del: length_slice)
  have g: "view_ok v1" "num_layers v1 = num_layers view" "tensor_rows v1 = tensor_rows view" "row_nbytes v1 layer = row_nbytes view layer"
    using wrote_view [OF v1(2)] Cons.prems(2) same_geometry_row_nbytes by (auto simp: same_geometry_def)
  obtain v2 asg where v2: "write_incoming block layer lo hi prs ds' v1 = Inr v2" "wrote layer asg v1 v2"
    "set asg = {(i, Prelude.slice lo hi b) |i b. \<exists>pr d. (pr, d) \<in> set (zip prs ds') \<and> (i, b) \<in> set (zip (snd pr) (snd d))}"
    using Cons.IH [of v1 ds'] Cons.prems(2,3) c(3) g by auto
  have "write_incoming block layer lo hi (pr # prs) ds view = Inr v2" using v1 v2 ds by (cases pr) simp
  moreover have "wrote layer (asg @ rev (zip (snd pr) ?data)) view v2" using v1 v2 by (blast intro: wrote_trans)
  moreover have z: "set (zip (snd pr) ?data) = {(i, Prelude.slice lo hi b) |i b. (i, b) \<in> set (zip (snd pr) (snd d))}"
    by (auto simp: zip_map2)
  have "set (asg @ rev (zip (snd pr) ?data)) = {(i, Prelude.slice lo hi b) |i b.
      \<exists>q e. (q, e) \<in> set (zip (pr # prs) ds) \<and> (i, b) \<in> set (zip (snd q) (snd e))}"
    unfolding set_append set_rev z v2(3) ds zip_Cons_Cons list.set by blast
  ultimately show ?case by blast
qed

text \<open>The column range of a layer in a packed row.\<close>

definition col_of :: "kv_view \<Rightarrow> nat \<Rightarrow> nat" where
  "col_of view layer = sum_list (map (row_nbytes view) [0..<layer])"

definition layer_assignments ::
  "transition \<Rightarrow> (nat \<times> byte list list) list \<Rightarrow> kv_view \<Rightarrow> nat \<Rightarrow> (int \<times> byte list) set" where
  "layer_assignments tr ds view layer =
     {(i, Prelude.slice (col_of view layer) (col_of view layer + row_nbytes view layer) b) |i b.
        \<exists>pr d. (pr, d) \<in> set (zip (incoming_rows tr) ds) \<and> (i, b) \<in> set (zip (snd pr) (snd d))} \<union>
     set (zip (retained_new_rows tr) (map (\<lambda>i. row_at view layer (nat i)) (retained_old_rows tr)))"

definition transition_fits :: "kv_view \<Rightarrow> transition \<Rightarrow> (nat \<times> byte list list) list \<Rightarrow> bool" where
  "transition_fits view tr ds \<longleftrightarrow>
     length (retained_new_rows tr) = length (retained_old_rows tr) \<and> in_rows (tensor_rows view) (retained_old_rows tr) \<and>
     in_rows (tensor_rows view) (retained_new_rows tr) \<and> list_all (\<lambda>pr. in_rows (tensor_rows view) (snd pr)) (incoming_rows tr) \<and>
     list_all2 (\<lambda>pr d. length (snd d) = length (snd pr) \<and> list_all (\<lambda>b. length b = total_row_nbytes view) (snd d)) (incoming_rows tr) ds"

lemma col_of_mono:
  assumes "layer < num_layers view"
  shows "col_of view layer + row_nbytes view layer \<le> total_row_nbytes view"
proof -
  have "[0..<num_layers view] = [0..<Suc layer] @ [Suc layer..<num_layers view]"
    using assms by (metis Suc_leI le0 le_add_diff_inverse upt_add_eq_append)
  then show ?thesis unfolding total_row_nbytes_def col_of_def by simp
qed

lemma same_geometry_cols:
  assumes "same_geometry a b"
  shows "total_row_nbytes b = total_row_nbytes a" "layer \<le> num_layers a \<Longrightarrow> col_of b layer = col_of a layer"
proof -
  have n: "num_layers b = num_layers a" using assms by (simp add: same_geometry_def)
  show "total_row_nbytes b = total_row_nbytes a" unfolding total_row_nbytes_def n
    by (intro arg_cong [where f = sum_list] map_cong refl same_geometry_row_nbytes [OF assms]) simp
  show "col_of b layer = col_of a layer" if "layer \<le> num_layers a" unfolding col_of_def
    by (intro arg_cong [where f = sum_list] map_cong refl same_geometry_row_nbytes [OF assms]) (use that in simp)
qed

lemma write_layer_ok:
  assumes "view_ok view" "layer < num_layers view" "transition_fits view tr ds"
  shows "\<exists>view' asg. write_layer block tr ds layer view = Inr view' \<and> wrote layer asg view view' \<and>
     set asg = layer_assignments tr ds view layer"
proof -
  let ?old = "retained_old_rows tr" and ?new = "retained_new_rows tr"
  let ?data = "map (\<lambda>i. row_at view layer (nat i)) ?old"
  note F = assms(3) [unfolded transition_fits_def]
  have l: "layer_ok (tensor_rows view) (kv_layers view ! layer)"
    using assms(1,2) by (simp add: view_ok_def num_layers_def list_all_length)
  have "list_all (\<lambda>d. length d = row_nbytes view layer) ?data"
    using F by (auto simp: list_all_iff in_rows_def row_at_def row_nbytes_def layer_row_length [OF l])
  then obtain v1 where v1: "write_rows block layer ?new ?data view = Inr v1" "wrote layer (rev (zip ?new ?data)) view v1"
    using write_rows_ok [of view layer ?new ?data block] assms(1,2) F by auto
  have step: "(if ?old \<noteq> [] then rbind (read_rows block view layer ?old) (\<lambda>tmp. write_rows block layer ?new tmp view) else Inr view) =
      Inr (if ?old \<noteq> [] then v1 else view)"
    using v1(1) read_rows_ok [OF assms(1,2)] F by simp
  define v where "v = (if ?old \<noteq> [] then v1 else view)"
  have v: "wrote layer (rev (zip ?new ?data)) view v" using v1 F wrote_refl [OF assms(1)] by (auto simp: v_def)
  have g: "view_ok v" "same_geometry view v" using wrote_view [OF v] by simp_all
  then have n: "num_layers v = num_layers view" "tensor_rows v = tensor_rows view" "row_nbytes v layer = row_nbytes view layer"
    "col_of v layer = col_of view layer"
    using assms(2) same_geometry_row_nbytes same_geometry_cols(2) by (auto simp: same_geometry_def)
  have "list_all2 (\<lambda>pr d. length (snd d) = length (snd pr) \<and>
      list_all (\<lambda>b. length (Prelude.slice (col_of view layer) (col_of view layer + row_nbytes view layer) b) = row_nbytes view layer) (snd d))
      (incoming_rows tr) ds"
    using F col_of_mono [OF assms(2)] by (auto simp: list_all2_conv_all_nth list_all_iff)
  then obtain v' asg where v': "write_incoming block layer (col_of view layer) (col_of view layer + row_nbytes view layer) (incoming_rows tr) ds v = Inr v'"
    "wrote layer asg v v'" "set asg = {(i, Prelude.slice (col_of view layer) (col_of view layer + row_nbytes view layer) b) |i b.
        \<exists>pr d. (pr, d) \<in> set (zip (incoming_rows tr) ds) \<and> (i, b) \<in> set (zip (snd pr) (snd d))}"
    using write_incoming_ok [of v layer "incoming_rows tr" "col_of view layer" "col_of view layer + row_nbytes view layer" ds block]
      g(1) assms(2) F unfolding n by blast
  have "write_layer block tr ds layer view = Inr v'"
    unfolding write_layer_def step v_def [symmetric] rbind_simps Let_def col_of_def [symmetric] n by (rule v'(1))
  moreover have "wrote layer (asg @ rev (zip ?new ?data)) view v'" using v v'(2) by (rule wrote_trans)
  moreover have "set (asg @ rev (zip ?new ?data)) = layer_assignments tr ds view layer"
    using v'(3) by (simp add: layer_assignments_def)
  ultimately show ?thesis by blast
qed

text \<open>Layers are written one after the other; each takes its rows from the view before the move.\<close>

definition moved :: "transition \<Rightarrow> (nat \<times> byte list list) list \<Rightarrow> nat list \<Rightarrow> kv_view \<Rightarrow> kv_view \<Rightarrow> bool" where
  "moved tr ds ls view view' \<longleftrightarrow> view_ok view' \<and> same_geometry view view' \<and>
     (\<forall>ly<num_layers view. if ly \<in> set ls
        then \<exists>asg. set asg = layer_assignments tr ds view ly \<and>
          (\<forall>i<tensor_rows view. row_at view' ly i = (case map_of asg (int i) of None \<Rightarrow> row_at view ly i | Some d \<Rightarrow> d))
        else \<forall>i<tensor_rows view. row_at view' ly i = row_at view ly i)"

lemma layer_assignments_cong:
  assumes "same_geometry a b" "ly < num_layers a" "in_rows (tensor_rows a) (retained_old_rows tr)"
    "\<forall>i<tensor_rows a. row_at b ly i = row_at a ly i"
  shows "layer_assignments tr ds b ly = layer_assignments tr ds a ly"
proof -
  have m: "map (\<lambda>i. row_at b ly (nat i)) (retained_old_rows tr) = map (\<lambda>i. row_at a ly (nat i)) (retained_old_rows tr)"
    using assms(3,4) by (auto simp: in_rows_def list_all_iff)
  have c: "col_of b ly = col_of a ly" "row_nbytes b ly = row_nbytes a ly"
    using assms(1,2) same_geometry_row_nbytes same_geometry_cols(2) by simp_all
  show ?thesis unfolding layer_assignments_def m c ..
qed

lemma write_layers_ok:
  assumes "view_ok view" "set ls \<subseteq> {..<num_layers view}" "distinct ls" "transition_fits view tr ds"
  shows "\<exists>view'. write_layers block tr ds ls view = Inr view' \<and> moved tr ds ls view view'"
  using assms
proof (induction ls arbitrary: view)
  case Nil
  then show ?case by (simp add: moved_def)
next
  case (Cons l ls)
  obtain v asg where v: "write_layer block tr ds l view = Inr v" "wrote l asg view v" "set asg = layer_assignments tr ds view l"
    using write_layer_ok [of view l tr ds block] Cons.prems by auto
  note g = wrote_view [OF v(2)]
  then have n: "num_layers v = num_layers view" "tensor_rows v = tensor_rows view" by (simp_all add: same_geometry_def)
  have fits: "transition_fits v tr ds"
    using Cons.prems(4) same_geometry_cols(1) [of view v] g by (simp add: transition_fits_def n)
  obtain w where w: "write_layers block tr ds ls v = Inr w" "moved tr ds ls v w"
    using Cons.IH [OF _ _ _ fits] Cons.prems g n by auto
  have other: "\<forall>i<tensor_rows view. row_at v ly i = row_at view ly i" if "ly < num_layers view" "ly \<noteq> l" for ly
    using v(2) that by (simp add: wrote_def)
  have "moved tr ds (l # ls) view w"
    unfolding moved_def
  proof (intro conjI allI impI)
    show "view_ok w" "same_geometry view w" using w(2) g same_geometry_trans by (auto simp: moved_def)
    fix ly assume ly: "ly < num_layers view"
    show "if ly \<in> set (l # ls)
        then \<exists>asg. set asg = layer_assignments tr ds view ly \<and>
          (\<forall>i<tensor_rows view. row_at w ly i = (case map_of asg (int i) of None \<Rightarrow> row_at view ly i | Some d \<Rightarrow> d))
        else \<forall>i<tensor_rows view. row_at w ly i = row_at view ly i"
    proof (cases "ly = l")
      case True
      then have "\<forall>i<tensor_rows view. row_at w ly i = row_at v ly i" using w(2) Cons.prems(3) ly by (simp add: moved_def n)
      then show ?thesis using True v(2,3) ly by (auto simp: wrote_def)
    next
      case False
      have same: "layer_assignments tr ds v ly = layer_assignments tr ds view ly"
        by (rule layer_assignments_cong) (use g ly other [OF ly False] Cons.prems(4) in \<open>auto simp: transition_fits_def\<close>)
      have M: "if ly \<in> set ls
          then \<exists>asg. set asg = layer_assignments tr ds v ly \<and>
            (\<forall>i<tensor_rows view. row_at w ly i = (case map_of asg (int i) of None \<Rightarrow> row_at v ly i | Some d \<Rightarrow> d))
          else \<forall>i<tensor_rows view. row_at w ly i = row_at v ly i"
        using w(2) ly unfolding moved_def n by blast
      then show ?thesis using other [OF ly False] False unfolding same
        by (cases "ly \<in> set ls") (simp_all cong: option.case_cong)
    qed
  qed
  then show ?case using v(1) w(1) by auto
qed

section \<open>What a transition contains\<close>

definition the_owner :: "int list \<Rightarrow> int \<Rightarrow> nat" where
  "the_owner v l = searchsorted_right (tl (prefix_from 0 v)) (l mod sum_list v)"

lemma searchsorted_range:
  assumes "list_all (\<lambda>x. 1 \<le> x) v" "c \<le> x" "x < c + sum_list v"
  shows "searchsorted_right (tl (prefix_from c v)) x < length v \<and>
    prefix_from c v ! searchsorted_right (tl (prefix_from c v)) x \<le> x \<and>
    x < prefix_from c v ! Suc (searchsorted_right (tl (prefix_from c v)) x)"
  using assms
proof (induction v arbitrary: c)
  case (Cons a v)
  have h: "prefix_from d v = d # tl (prefix_from d v)" for d by (cases v) auto
  show ?case
  proof (cases "c + a \<le> x")
    case True
    then have "searchsorted_right (tl (prefix_from c (a # v))) x = Suc (searchsorted_right (tl (prefix_from (c + a) v)) x)"
      by (subst h [of "c + a", simplified], simp add: searchsorted_right_def, subst h, simp)
    then show ?thesis using Cons.IH [of "c + a"] Cons.prems True by simp
  next
    case False
    then have "searchsorted_right (tl (prefix_from c (a # v))) x = 0"
      by (simp add: searchsorted_right_def, subst h, simp)
    then show ?thesis using False Cons.prems by (simp add: prefix_from_nth)
  qed
qed simp

lemma the_owner_owns:
  assumes "weights_ok v"
  shows "the_owner v l < length v" "owns v (the_owner v l) l" "r < length v \<Longrightarrow> owns v r l \<Longrightarrow> r = the_owner v l"
proof -
  have "0 < sum_list v" using assms by (rule weights_pos)
  then show o: "the_owner v l < length v" "owns v (the_owner v l) l"
    using searchsorted_range [of v 0 "l mod sum_list v"] assms unfolding the_owner_def owns_def weights_ok_def by simp_all
  show "r < length v \<Longrightarrow> owns v r l \<Longrightarrow> r = the_owner v l" using one_owner [OF assms, of l] o by blast
qed

lemma owner_of_map: "owner_of slots v = map (the_owner v) slots"
  by (simp add: owner_of_def the_owner_def Let_def)

lemma rows_of_map: "r < length v \<Longrightarrow> rows_of slots v r = map (row_of v r) slots"
  using prefix_Suc [of r v 0] by (simp add: rows_of_def row_of_def Let_def)

lemma select_by_map: "select_by (map P xs) (map f xs) = map f (filter P xs)"
  by (induction xs) (auto simp: select_by_def)

lemma select_by_filter: "select_by (map P xs) xs = filter P xs"
  using select_by_map [of P xs id] by simp

text \<open>The slots that go from rank \<open>p\<close> to rank \<open>q\<close>, and those that change their row within a rank.\<close>

definition crossing :: "int list \<Rightarrow> int list \<Rightarrow> int list \<Rightarrow> nat \<Rightarrow> nat \<Rightarrow> int list" where
  "crossing slots u v p q = filter (\<lambda>l. the_owner u l = p \<and> the_owner v l = q) slots"

definition relocated :: "int list \<Rightarrow> int list \<Rightarrow> int list \<Rightarrow> nat \<Rightarrow> int list" where
  "relocated slots u v r = filter (\<lambda>l. row_of u r l \<noteq> row_of v r l) (crossing slots u v r r)"

definition slots_ok :: "int list \<Rightarrow> bool" where
  "slots_ok slots \<longleftrightarrow> list_all (\<lambda>l. 0 \<le> l) slots \<and> sorted_wrt (<) slots"

lemma adjacent_sorted: "list_all (\<lambda>(a, b). a < b) (zip xs (tl xs)) \<longleftrightarrow> sorted_wrt (<) (xs :: int list)"
proof (induction xs)
  case (Cons x xs)
  then show ?case by (cases xs) (auto intro: less_trans)
qed simp

lemma build_transition_ok:
  assumes "slots_ok slots" "length u = length v" "r < length u"
  shows "build_transition slots u v r = Inr \<lparr>tr_rank = r, old_vector = u, new_vector = v,
    retained_old_rows = map (row_of u r) (relocated slots u v r), retained_new_rows = map (row_of v r) (relocated slots u v r),
    outgoing_rows = map (\<lambda>p. (p, map (row_of u r) (crossing slots u v r p)))
      (filter (\<lambda>p. crossing slots u v r p \<noteq> []) (filter (\<lambda>p. p \<noteq> r) [0..<length u])),
    incoming_rows = map (\<lambda>p. (p, map (row_of v r) (crossing slots u v p r)))
      (filter (\<lambda>p. crossing slots u v p r \<noteq> []) (filter (\<lambda>p. p \<noteq> r) [0..<length u])),
    total_slots = length slots\<rparr>"
proof -
  have rows: "rows_of ls u r = map (row_of u r) ls" "rows_of ls v r = map (row_of v r) ls" for ls
    using assms(2,3) rows_of_map by simp_all
  have guards: "slots = [] \<or> list_all (\<lambda>(a, b). a < b) (zip slots (tl slots))" "slots = [] \<or> \<not> hd slots < 0"
    using assms(1) adjacent_sorted [of slots] by (cases slots; auto simp: slots_ok_def)+
  have sel: "select_by (map2 (\<lambda>a b. P a b) (map f slots) (map g slots)) slots = filter (\<lambda>l. P (f l) (g l)) slots"
    for P :: "'a \<Rightarrow> 'b \<Rightarrow> bool" and f g
    using select_by_filter [of "\<lambda>l. P (f l) (g l)" slots] by (simp add: map2_map_map)
  have mv: "select_by (map2 (\<noteq>) (map f ls) (map g ls)) (map h ls) = map h (filter (\<lambda>l. f l \<noteq> g l) ls)"
    for f g h :: "int \<Rightarrow> int" and ls
    using select_by_map [of "\<lambda>l. f l \<noteq> g l" ls h] by (simp add: map2_map_map)
  show ?thesis
    using assms(2,3) guards
    by (auto simp: build_transition_def Let_def owner_of_map rows sel mv relocated_def crossing_def map_map comp_def
        intro!: filter_cong)
qed

section \<open>Packing and unpacking\<close>

definition wire_row :: "kv_view \<Rightarrow> int \<Rightarrow> byte list" where
  "wire_row view i = concat (map (\<lambda>ly. row_at view ly (nat i)) [0..<num_layers view])"

lemma row_at_length:
  assumes "view_ok view" "ly < num_layers view" "i < tensor_rows view"
  shows "length (row_at view ly i) = row_nbytes view ly"
  using assms layer_row_length [of "tensor_rows view" "kv_layers view ! ly" i]
  by (simp add: view_ok_def num_layers_def list_all_length row_at_def row_nbytes_def)

lemma wire_row_length:
  assumes "view_ok view" "0 \<le> i" "i < int (tensor_rows view)"
  shows "length (wire_row view i) = total_row_nbytes view"
proof -
  have "nat i < tensor_rows view" using assms(2,3) by simp
  then show ?thesis unfolding wire_row_def length_concat map_map comp_def total_row_nbytes_def
    by (intro arg_cong [where f = sum_list] map_cong refl) (simp add: row_at_length [OF assms(1)])
qed

lemma wire_row_slice:
  assumes "view_ok view" "0 \<le> i" "i < int (tensor_rows view)" "ly < num_layers view"
  shows "Prelude.slice (col_of view ly) (col_of view ly + row_nbytes view ly) (wire_row view i) = row_at view ly (nat i)"
proof -
  let ?xss = "map (\<lambda>ly. row_at view ly (nat i)) [0..<num_layers view]"
  have i: "nat i < tensor_rows view" using assms(2,3) by simp
  have len: "map length ?xss = map (row_nbytes view) [0..<num_layers view]"
    using row_at_length [OF assms(1) _ i] by simp
  have c: "start_of (map length ?xss) k = col_of view k" if "k \<le> num_layers view" for k
    unfolding len start_of_def col_of_def using that by (simp add: take_map)
  have "start_of (map length ?xss) (Suc ly) = col_of view ly + row_nbytes view ly"
    using start_of_Suc [of ly "map length ?xss"] c [of ly] assms(4) unfolding len by simp
  then show ?thesis using slice_concat [of ly ?xss "[]"] c [of ly] assms(4) by (simp add: wire_row_def)
qed

lemma view_rows_concat:
  "list_all (\<lambda>x. length x = w) xs \<Longrightarrow> view_rows (length xs) w (concat xs) = xs"
  by (induction xs) auto

lemma cat_rows_wire:
  "cat_rows (length rows) (map (\<lambda>ly. map (\<lambda>i. row_at view ly (nat i)) rows) [0..<num_layers view]) = map (wire_row view) rows"
  by (auto simp: cat_rows_def wire_row_def comp_def intro!: nth_equalityI arg_cong [where f = concat])

lemma pack_peer_ok:
  assumes "view_ok view" "in_rows (tensor_rows view) rows"
  shows "pack_peer block chunk view rows =
    (let flat = concat (map (wire_row view) rows) in Inr (flat @ checksum_bytes chunk flat))"
proof -
  have "rmap (\<lambda>layer. read_rows block view layer rows) [0..<num_layers view] =
      Inr (map (\<lambda>ly. map (\<lambda>i. row_at view ly (nat i)) rows) [0..<num_layers view])"
    by (rule rmap_ok) (use read_rows_ok [OF assms(1) _ assms(2)] in simp)
  then show ?thesis by (simp add: pack_peer_def cat_rows_wire Let_def)
qed

lemma concat_length_const: "list_all (\<lambda>x. length x = w) xs \<Longrightarrow> length (concat xs) = length xs * w"
  by (induction xs) auto

lemma accept_payload_ok:
  assumes "map_of received peer = Some (concat xs @ checksum_bytes chunk' (concat xs))"
    "length xs = length rows" "list_all (\<lambda>x. length x = total_row_nbytes view) xs"
  shows "accept_payload chunk view received (peer, rows) = Inr (peer, xs)"
proof -
  let ?f = "concat xs"
  have c: "checksum_of_bytes (checksum_bytes chunk' ?f) = uint8_checksum chunk ?f"
    by (simp only: checksum_roundtrip uint8_checksum_sum)
  have l: "length (checksum_bytes chunk' ?f) = CHECKSUM_BYTES" by (simp add: checksum_bytes_def CHECKSUM_BYTES_def)
  have f: "length ?f = length rows * total_row_nbytes view" using concat_length_const [OF assms(3)] assms(2) by simp
  have "view_rows (length rows) (total_row_nbytes view) ?f = xs" using view_rows_concat [OF assms(3)] assms(2) by simp
  then show ?thesis unfolding accept_payload_def Let_def prod.case assms(1) option.case by (simp add: c l f)
qed

section \<open>The fitted ceiling\<close>

lemma ceiling_covers:
  assumes "reshard_ceiling_rows c vs r = Inr rows" "v \<in> set vs" "weights_ok v" "r < length v" "owns v r l" "0 \<le> l" "l \<le> c"
  shows "0 \<le> row_of v r l \<and> row_of v r l < rows"
  using assms(1,2)
proof (induction vs arbitrary: rows)
  case (Cons w vs)
  obtain a rest where a: "dcp_compact_pool_rows c (sum_list w) (w ! r) = Inr a" "reshard_ceiling_rows c vs r = Inr rest" "rows = max a rest"
    using Cons.prems(1) by (auto simp: rbind_Inr_iff nth_res_def split: if_splits)
  show ?case
  proof (cases "w = v")
    case True
    then have "a = (c div sum_list v + 1) * v ! r" using a(1) by (simp add: dcp_compact_pool_rows_def split: if_splits)
    then show ?thesis using row_bounds [OF assms(3-7)] a(3) by simp
  next
    case False
    then show ?thesis using Cons.IH [OF a(2)] Cons.prems(2) a(3) by force
  qed
qed simp

lemma fold_max_less: "fold max xs a < (n::int) \<longleftrightarrow> a < n \<and> (\<forall>x\<in>set xs. x < n)"
  by (induction xs arbitrary: a) auto

section \<open>A group that moves\<close>

definition same_widths :: "kv_view \<Rightarrow> kv_view \<Rightarrow> bool" where
  "same_widths a b \<longleftrightarrow> num_layers a = num_layers b \<and> (\<forall>ly<num_layers a. row_nbytes a ly = row_nbytes b ly)"

text \<open>The ranks agree on the two vectors, every pool has the rows the sizing rule reserves for contexts up to \<open>c\<close>
  slots, the pools have the same row widths, and every process has the old vector in force.\<close>

definition group_ready :: "int list \<Rightarrow> int list \<Rightarrow> int \<Rightarrow> int list \<Rightarrow> rank_state list \<Rightarrow> bool" where
  "group_ready u v c slots sts \<longleftrightarrow>
     weights_ok u \<and> weights_ok v \<and> length u = length sts \<and> length v = length sts \<and>
     slots_ok slots \<and> list_all (\<lambda>l. l \<le> c) slots \<and> c < 2 ^ 31 \<and>
     (\<forall>r<length sts. let rt = runtime (sts ! r) in
        rt_size rt = length sts \<and> rt_rank rt = r \<and> current rt = u \<and> pending rt = Some v \<and>
        u \<in> set (allowed rt) \<and> v \<in> set (allowed rt) \<and> view_ok (pool rt) \<and>
        (case reshard_ceiling_rows c (allowed rt) r of Inl _ \<Rightarrow> False | Inr rows \<Rightarrow> rows \<le> int (num_rows (pool rt))) \<and>
        same_widths (pool rt) (pool (runtime (sts ! 0))) \<and> token_vector (process (sts ! r)) (length sts) = u)"

abbreviation view_of :: "rank_state list \<Rightarrow> nat \<Rightarrow> kv_view" where
  "view_of sts r \<equiv> pool (runtime (sts ! r))"

lemma group_rank:
  assumes "group_ready u v c slots sts" "r < length sts"
  shows "rt_size (runtime (sts ! r)) = length sts" "rt_rank (runtime (sts ! r)) = r" "current (runtime (sts ! r)) = u"
    "pending (runtime (sts ! r)) = Some v" "view_ok (view_of sts r)" "same_widths (view_of sts r) (view_of sts 0)"
    "token_vector (process (sts ! r)) (length sts) = u"
  using assms by (simp_all add: group_ready_def Let_def)

lemma num_rows_le: "num_rows view \<le> tensor_rows view"
  by (simp add: num_rows_def split: option.split)

lemma group_rows:
  assumes "group_ready u v c slots sts" "l \<in> set slots" "w \<in> {u, v}" "r = the_owner w l"
  shows "r < length sts" "0 \<le> row_of w r l" "row_of w r l < int (num_rows (view_of sts r))" "row_of w r l < int (tensor_rows (view_of sts r))"
proof -
  have w: "weights_ok w" "length w = length sts" using assms(1,3) by (auto simp: group_ready_def)
  then show r: "r < length sts" using the_owner_owns(1) [OF w(1), of l] assms(4) by simp
  have l: "0 \<le> l" "l \<le> c" using assms(1,2) by (auto simp: group_ready_def slots_ok_def list_all_iff)
  have "case reshard_ceiling_rows c (allowed (runtime (sts ! r))) r of Inl _ \<Rightarrow> False | Inr rows \<Rightarrow> rows \<le> int (num_rows (view_of sts r))"
    and a: "w \<in> set (allowed (runtime (sts ! r)))"
    using assms(1,3) r by (auto simp: group_ready_def Let_def)
  then obtain rows where rows: "reshard_ceiling_rows c (allowed (runtime (sts ! r))) r = Inr rows" "rows \<le> int (num_rows (view_of sts r))"
    by (cases "reshard_ceiling_rows c (allowed (runtime (sts ! r))) r") auto
  have "0 \<le> row_of w r l \<and> row_of w r l < rows"
    by (rule ceiling_covers [OF rows(1) a w(1) _ _ l]) (use w r the_owner_owns(2) assms(4) in auto)
  then show "0 \<le> row_of w r l" "row_of w r l < int (num_rows (view_of sts r))" "row_of w r l < int (tensor_rows (view_of sts r))"
    using rows(2) num_rows_le [of "view_of sts r"] by linarith+
qed

lemma crossing_owner:
  assumes "l \<in> set (crossing slots u v p q)"
  shows "l \<in> set slots" "p = the_owner u l" "q = the_owner v l"
  using assms by (auto simp: crossing_def)

abbreviation peers_out :: "int list \<Rightarrow> int list \<Rightarrow> int list \<Rightarrow> nat \<Rightarrow> nat list" where
  "peers_out slots u v r \<equiv> filter (\<lambda>p. crossing slots u v r p \<noteq> []) (filter (\<lambda>p. p \<noteq> r) [0..<length u])"

abbreviation peers_in :: "int list \<Rightarrow> int list \<Rightarrow> int list \<Rightarrow> nat \<Rightarrow> nat list" where
  "peers_in slots u v r \<equiv> filter (\<lambda>p. crossing slots u v p r \<noteq> []) (filter (\<lambda>p. p \<noteq> r) [0..<length u])"

definition wire_rows :: "int list \<Rightarrow> int list \<Rightarrow> int list \<Rightarrow> rank_state list \<Rightarrow> nat \<Rightarrow> nat \<Rightarrow> byte list list" where
  "wire_rows slots u v sts p q = map (\<lambda>l. wire_row (view_of sts p) (row_of u p l)) (crossing slots u v p q)"

definition wire :: "(nat \<Rightarrow> nat) \<Rightarrow> int list \<Rightarrow> int list \<Rightarrow> int list \<Rightarrow> rank_state list \<Rightarrow> nat \<Rightarrow> nat \<Rightarrow> byte list" where
  "wire chunk slots u v sts p q =
     (let flat = concat (wire_rows slots u v sts p q) in flat @ checksum_bytes (chunk p) flat)"

lemma in_rows_map: "(\<And>l. l \<in> set ls \<Longrightarrow> 0 \<le> f l \<and> f l < int n) \<Longrightarrow> in_rows n (map f ls)"
  by (auto simp: in_rows_def list_all_iff)

lemma exec_pack_ok:
  assumes g: "group_ready u v c slots sts" and r: "r < length sts" and t: "build_transition slots u v r = Inr tr"
  shows "exec_pack block (chunk r) tr (view_of sts r) = Inr (map (\<lambda>p. (p, wire chunk slots u v sts r p)) (peers_out slots u v r))"
proof -
  have u: "length u = length v" "r < length u" "slots_ok slots" using g r by (simp_all add: group_ready_def)
  note T = t [unfolded build_transition_ok [OF u(3,1,2)]]
  have new: "row_of v r l < int (num_rows (view_of sts r))" if "l \<in> set (crossing slots u v p r)" for l p
    using group_rows(3) [OF g crossing_owner(1) [OF that]] crossing_owner(3) [OF that] by simp
  have mx: "max_new_row tr < int (num_rows (view_of sts r))"
    using new T by (auto simp: max_new_row_def fold_max_less relocated_def)
  have "pack_peer block (chunk r) (view_of sts r) (map (row_of u r) (crossing slots u v r p)) = Inr (wire chunk slots u v sts r p)" for p
  proof (subst pack_peer_ok [OF group_rank(5) [OF g r]])
    show "in_rows (tensor_rows (view_of sts r)) (map (row_of u r) (crossing slots u v r p))"
    proof (rule in_rows_map)
      fix l assume l: "l \<in> set (crossing slots u v r p)"
      show "0 \<le> row_of u r l \<and> row_of u r l < int (tensor_rows (view_of sts r))"
        using group_rows(2,4) [OF g crossing_owner(1) [OF l]] crossing_owner(2) [OF l] by simp
    qed
  qed (simp add: wire_def wire_rows_def Let_def comp_def)
  moreover have o: "outgoing_rows tr = map (\<lambda>p. (p, map (row_of u r) (crossing slots u v r p))) (peers_out slots u v r)"
    using T by auto
  ultimately have "rmap (\<lambda>(peer, rows). rbind (pack_peer block (chunk r) (view_of sts r) rows) (\<lambda>payload. Inr (peer, payload))) (outgoing_rows tr) =
      Inr (map (\<lambda>p. (p, wire chunk slots u v sts r p)) (peers_out slots u v r))"
    unfolding o rmap_map prod.case by (intro rmap_ok) simp
  then show ?thesis using mx by (simp add: exec_pack_def)
qed

lemma wire_rows_lengths:
  assumes "group_ready u v c slots sts" "p < length sts"
  shows "list_all (\<lambda>x. length x = total_row_nbytes (view_of sts p)) (wire_rows slots u v sts p q)"
proof -
  have "length (wire_row (view_of sts p) (row_of u p l)) = total_row_nbytes (view_of sts p)" if "l \<in> set (crossing slots u v p q)" for l
    using wire_row_length [OF group_rank(5) [OF assms]] group_rows(2,4) [OF assms(1) crossing_owner(1) [OF that], of u]
      crossing_owner(2) [OF that] by simp
  then show ?thesis by (auto simp: wire_rows_def list_all_iff)
qed

lemma same_widths_total: "same_widths a b \<Longrightarrow> total_row_nbytes a = total_row_nbytes b"
  unfolding total_row_nbytes_def same_widths_def by (metis (mono_tags, lifting) atLeastLessThan_iff atLeast_upt map_eq_conv set_upt lessThan_iff)

lemma group_widths:
  assumes "group_ready u v c slots sts" "p < length sts" "q < length sts"
  shows "total_row_nbytes (view_of sts p) = total_row_nbytes (view_of sts q)" "num_layers (view_of sts p) = num_layers (view_of sts q)"
    "ly < num_layers (view_of sts q) \<Longrightarrow> row_nbytes (view_of sts p) ly = row_nbytes (view_of sts q) ly"
  using group_rank(6) [OF assms(1,2)] group_rank(6) [OF assms(1,3)] same_widths_total by (auto simp: same_widths_def)

lemma wire_length:
  assumes "group_ready u v c slots sts" "p < length sts"
  shows "length (wire chunk slots u v sts p q) = length (crossing slots u v p q) * total_row_nbytes (view_of sts p) + CHECKSUM_BYTES"
  using concat_length_const [OF wire_rows_lengths [OF assms]]
  by (simp add: wire_def Let_def checksum_bytes_def CHECKSUM_BYTES_def wire_rows_def)

lemma map_of_keyed: "map_of (map (\<lambda>p. (p, f p)) ps) q = (if q \<in> set ps then Some (f q) else None)"
  by (induction ps) auto

lemma exchange_ok:
  assumes g: "group_ready u v c slots sts" and t: "\<forall>r<length sts. build_transition slots u v r = Inr (trs ! r)"
    and d: "\<forall>p q b. transport p q b = b"
  shows "dist_exchange transport (map (\<lambda>r. map (\<lambda>p. (p, wire chunk slots u v sts r p)) (peers_out slots u v r)) [0..<length sts])
      (map (\<lambda>r. incoming_nbytes (trs ! r) (view_of sts r)) [0..<length sts]) =
    Inr (map (\<lambda>r. map (\<lambda>p. (p, wire chunk slots u v sts p r)) (peers_in slots u v r)) [0..<length sts])"
proof -
  let ?n = "length sts"
  have u: "length u = length v" "length u = ?n" "slots_ok slots" using g by (simp_all add: group_ready_def)
  have inc: "incoming_nbytes (trs ! r) (view_of sts r) =
      map (\<lambda>p. (p, length (crossing slots u v p r) * total_row_nbytes (view_of sts r) + CHECKSUM_BYTES)) (peers_in slots u v r)"
    if "r < ?n" for r
    using t that build_transition_ok [OF u(3,1), of r] u(2) by (auto simp: incoming_nbytes_def comp_def)
  have agree: "lookup_len (map (\<lambda>p. (p, length (wire chunk slots u v sts s p))) (peers_out slots u v s)) r =
      lookup_len (incoming_nbytes (trs ! r) (view_of sts r)) s" if "s < ?n" "r < ?n" "s \<noteq> r" for s r
    unfolding inc [OF that(2)] lookup_len_def map_of_keyed
    using that u(2) wire_length [OF g that(1)] group_widths(1) [OF g that(1,2)] by simp
  let ?outs = "map (\<lambda>r. map (\<lambda>p. (p, wire chunk slots u v sts r p)) (peers_out slots u v r)) [0..<?n]"
  let ?ins = "map (\<lambda>r. incoming_nbytes (trs ! r) (view_of sts r)) [0..<?n]"
  have "sizes_agree ?outs ?ins"
    unfolding sizes_agree_def Let_def list_all_iff
  proof (intro ballI)
    fix s r assume "s \<in> set [0..<length ?outs]" "r \<in> set [0..<length ?outs]"
    then show "s = r \<or> lookup_len (map (map (\<lambda>(p, b). (p, length b))) ?outs ! s) r = lookup_len (?ins ! r) s"
      using agree [of s r] by (cases "s = r") (simp_all add: comp_def)
  qed
  moreover have "map (\<lambda>(p, _). (p, transport p r (case map_of (?outs ! p) r of None \<Rightarrow> [] | Some b \<Rightarrow> b))) (?ins ! r) =
      map (\<lambda>p. (p, wire chunk slots u v sts p r)) (peers_in slots u v r)" if r: "r < ?n" for r
  proof -
    have "map_of (?outs ! p) r = Some (wire chunk slots u v sts p r)" if "p \<in> set (peers_in slots u v r)" for p
      using that r u(2) by (simp add: map_of_keyed)
    then show ?thesis using r d by (simp add: inc)
  qed
  ultimately show ?thesis by (simp add: dist_exchange_def)
qed

definition arriving :: "int list \<Rightarrow> int list \<Rightarrow> int list \<Rightarrow> rank_state list \<Rightarrow> nat \<Rightarrow> (nat \<times> byte list list) list" where
  "arriving slots u v sts r = map (\<lambda>p. (p, wire_rows slots u v sts p r)) (peers_in slots u v r)"

lemma accept_ok:
  assumes g: "group_ready u v c slots sts" and r: "r < length sts" and t: "build_transition slots u v r = Inr tr"
  shows "rmap (accept_payload chunk' (view_of sts r) (map (\<lambda>p. (p, wire chunk slots u v sts p r)) (peers_in slots u v r))) (incoming_rows tr) =
    Inr (arriving slots u v sts r)"
proof -
  have u: "length u = length v" "length u = length sts" "slots_ok slots" using g by (simp_all add: group_ready_def)
  have i: "incoming_rows tr = map (\<lambda>p. (p, map (row_of v r) (crossing slots u v p r))) (peers_in slots u v r)"
    using t build_transition_ok [OF u(3,1), of r] u(2) r by auto
  have "accept_payload chunk' (view_of sts r) (map (\<lambda>p. (p, wire chunk slots u v sts p r)) (peers_in slots u v r))
      (p, map (row_of v r) (crossing slots u v p r)) = Inr (p, wire_rows slots u v sts p r)"
    if p: "p \<in> set (peers_in slots u v r)" for p
  proof (rule accept_payload_ok)
    have pn: "p < length sts" using p u(2) by simp
    show "map_of (map (\<lambda>p. (p, wire chunk slots u v sts p r)) (peers_in slots u v r)) p =
        Some (concat (wire_rows slots u v sts p r) @ checksum_bytes (chunk p) (concat (wire_rows slots u v sts p r)))"
      using p by (simp add: map_of_keyed wire_def Let_def)
    show "length (wire_rows slots u v sts p r) = length (map (row_of v r) (crossing slots u v p r))" by (simp add: wire_rows_def)
    show "list_all (\<lambda>x. length x = total_row_nbytes (view_of sts r)) (wire_rows slots u v sts p r)"
      using wire_rows_lengths [OF g pn] group_widths(1) [OF g pn r] by simp
  qed
  then show ?thesis unfolding i rmap_map arriving_def by (rule rmap_ok)
qed

lemma group_fits:
  assumes g: "group_ready u v c slots sts" and r: "r < length sts" and t: "build_transition slots u v r = Inr tr"
  shows "transition_fits (view_of sts r) tr (arriving slots u v sts r)"
proof -
  have u: "length u = length v" "length u = length sts" "slots_ok slots" using g by (simp_all add: group_ready_def)
  note T = build_transition_ok [OF u(3,1), of r, unfolded t]
  have old: "0 \<le> row_of u r l \<and> row_of u r l < int (tensor_rows (view_of sts r))" if "l \<in> set (crossing slots u v r p)" for l p
    using group_rows(2,4) [OF g crossing_owner(1) [OF that]] crossing_owner(2) [OF that] by simp
  have new: "0 \<le> row_of v r l \<and> row_of v r l < int (tensor_rows (view_of sts r))" if "l \<in> set (crossing slots u v p r)" for l p
    using group_rows(2,4) [OF g crossing_owner(1) [OF that]] crossing_owner(3) [OF that] by simp
  have "list_all2 (\<lambda>pr d. length (snd d) = length (snd pr) \<and> list_all (\<lambda>b. length b = total_row_nbytes (view_of sts r)) (snd d))
      (map (\<lambda>p. (p, map (row_of v r) (crossing slots u v p r))) (peers_in slots u v r)) (arriving slots u v sts r)"
    using wire_rows_lengths [OF g] group_widths(1) [OF g _ r] u(2)
    by (auto simp: arriving_def list.rel_map list.rel_refl_strong wire_rows_def intro!: list.rel_refl_strong)
  then show ?thesis
    using T u(2) r old new by (auto simp: transition_fits_def relocated_def intro!: in_rows_map simp: list_all_iff)
qed

text \<open>The bytes of a slot in a layer before the move.\<close>

definition slot_row :: "int list \<Rightarrow> rank_state list \<Rightarrow> nat \<Rightarrow> int \<Rightarrow> byte list" where
  "slot_row w sts ly l = row_at (view_of sts (the_owner w l)) ly (nat (row_of w (the_owner w l) l))"

lemma same_widths_col: "same_widths a b \<Longrightarrow> ly < num_layers a \<Longrightarrow> col_of a ly = col_of b ly"
  unfolding same_widths_def col_of_def by (intro arg_cong [where f = sum_list] map_cong refl) simp

lemma group_col:
  assumes "group_ready u v c slots sts" "p < length sts" "q < length sts" "ly < num_layers (view_of sts q)"
  shows "col_of (view_of sts p) ly = col_of (view_of sts q) ly"
proof -
  have "ly < num_layers (view_of sts p)" using group_widths(2) [OF assms(1-3)] assms(4) by simp
  then show ?thesis
    using same_widths_col [OF group_rank(6) [OF assms(1,2)]] same_widths_col [OF group_rank(6) [OF assms(1,3)]] assms(4) by simp
qed

lemma arriving_slice:
  assumes g: "group_ready u v c slots sts" and r: "r < length sts" and ly: "ly < num_layers (view_of sts r)"
    and l: "l \<in> set (crossing slots u v p r)"
  shows "Prelude.slice (col_of (view_of sts r) ly) (col_of (view_of sts r) ly + row_nbytes (view_of sts r) ly)
      (wire_row (view_of sts p) (row_of u p l)) = slot_row u sts ly l"
proof -
  have p: "p = the_owner u l" "l \<in> set slots" using crossing_owner [OF l] by simp_all
  have R: "p < length sts" "0 \<le> row_of u p l" "row_of u p l < int (tensor_rows (view_of sts p))"
    using group_rows [OF g p(2), of u p] p(1) by simp_all
  have "ly < num_layers (view_of sts p)" using group_widths(2) [OF g R(1) r] ly by simp
  from wire_row_slice [OF group_rank(5) [OF g R(1)] R(2,3) this] show ?thesis
    using group_col [OF g R(1) r ly] group_widths(3) [OF g R(1) r ly] p(1) by (simp add: slot_row_def)
qed

lemma assignments_sound:
  assumes g: "group_ready u v c slots sts" and r: "r < length sts" and t: "build_transition slots u v r = Inr tr"
    and ly: "ly < num_layers (view_of sts r)" and a: "(i, d) \<in> layer_assignments tr (arriving slots u v sts r) (view_of sts r) ly"
  shows "\<exists>l\<in>set slots. the_owner v l = r \<and> i = row_of v r l \<and> d = slot_row u sts ly l"
proof -
  have u: "length u = length v" "length u = length sts" "slots_ok slots" using g by (simp_all add: group_ready_def)
  note T = build_transition_ok [OF u(3,1), of r, unfolded t]
  consider b where "d = Prelude.slice (col_of (view_of sts r) ly) (col_of (view_of sts r) ly + row_nbytes (view_of sts r) ly) b"
      "\<exists>pr e. (pr, e) \<in> set (zip (incoming_rows tr) (arriving slots u v sts r)) \<and> (i, b) \<in> set (zip (snd pr) (snd e))"
    | "(i, d) \<in> set (zip (retained_new_rows tr) (map (\<lambda>i. row_at (view_of sts r) ly (nat i)) (retained_old_rows tr)))"
    using a unfolding layer_assignments_def by blast
  then show ?thesis
  proof cases
    case 1
    have "zip (incoming_rows tr) (arriving slots u v sts r) =
        map (\<lambda>p. ((p, map (row_of v r) (crossing slots u v p r)), (p, wire_rows slots u v sts p r))) (peers_in slots u v r)"
      using T u(2) r by (simp add: arriving_def zip_map_map zip_same_conv_map)
    then obtain p where p: "(i, b) \<in> set (zip (map (row_of v r) (crossing slots u v p r)) (wire_rows slots u v sts p r))"
      using 1(2) by auto
    then obtain l where "l \<in> set (crossing slots u v p r)" "i = row_of v r l" "b = wire_row (view_of sts p) (row_of u p l)"
      by (auto simp: wire_rows_def zip_map_map zip_same_conv_map)
    then show ?thesis using arriving_slice [OF g r ly] 1(1) crossing_owner [of l slots u v p r] by auto
  next
    case 2
    then obtain l where "l \<in> set (relocated slots u v r)" "i = row_of v r l" "d = row_at (view_of sts r) ly (nat (row_of u r l))"
      using T u(2) r by (auto simp: zip_map_map zip_same_conv_map)
    then show ?thesis using crossing_owner [of l slots u v r r] by (auto simp: relocated_def slot_row_def)
  qed
qed

lemma assignments_complete:
  assumes g: "group_ready u v c slots sts" and r: "r < length sts" and t: "build_transition slots u v r = Inr tr"
    and ly: "ly < num_layers (view_of sts r)" and l: "l \<in> set slots" "the_owner v l = r"
    and m: "the_owner u l \<noteq> r \<or> row_of u r l \<noteq> row_of v r l"
  shows "\<exists>d. (row_of v r l, d) \<in> layer_assignments tr (arriving slots u v sts r) (view_of sts r) ly"
proof -
  have u: "length u = length v" "length u = length sts" "slots_ok slots" using g by (simp_all add: group_ready_def)
  note T = build_transition_ok [OF u(3,1), of r, unfolded t]
  let ?p = "the_owner u l"
  have c: "l \<in> set (crossing slots u v ?p r)" using l by (simp add: crossing_def)
  show ?thesis
  proof (cases "?p = r")
    case True
    then have "l \<in> set (relocated slots u v r)" using c m by (simp add: relocated_def)
    then have "(row_of v r l, row_at (view_of sts r) ly (nat (row_of u r l))) \<in>
        set (zip (retained_new_rows tr) (map (\<lambda>i. row_at (view_of sts r) ly (nat i)) (retained_old_rows tr)))"
      using T u(2) r by (auto simp: zip_map_map zip_same_conv_map)
    then show ?thesis unfolding layer_assignments_def by blast
  next
    case False
    have "?p < length u" using group_rows(1) [OF g l(1), of u ?p] u(2) by simp
    then have "?p \<in> set (peers_in slots u v r)" using False c by auto
    then have "((?p, map (row_of v r) (crossing slots u v ?p r)), (?p, wire_rows slots u v sts ?p r)) \<in>
        set (zip (incoming_rows tr) (arriving slots u v sts r))"
      using T u(2) r by (auto simp: arriving_def zip_map_map zip_same_conv_map)
    moreover have "(row_of v r l, wire_row (view_of sts ?p) (row_of u ?p l)) \<in>
        set (zip (map (row_of v r) (crossing slots u v ?p r)) (wire_rows slots u v sts ?p r))"
      using c by (auto simp: wire_rows_def zip_map_map zip_same_conv_map)
    ultimately show ?thesis unfolding layer_assignments_def by fastforce
  qed
qed

lemma moved_content:
  assumes g: "group_ready u v c slots sts" and r: "r < length sts" and t: "build_transition slots u v r = Inr tr"
    and w: "moved tr (arriving slots u v sts r) [0..<num_layers (view_of sts r)] (view_of sts r) view'"
    and ly: "ly < num_layers (view_of sts r)" and l: "l \<in> set slots" "the_owner v l = r"
  shows "row_at view' ly (nat (row_of v r l)) = slot_row u sts ly l"
proof -
  have wv: "weights_ok v" "r < length v" using g r by (simp_all add: group_ready_def)
  note R = group_rows [OF g l(1), of v r]
  have row: "0 \<le> row_of v r l" "nat (row_of v r l) < tensor_rows (view_of sts r)" using R l(2) by auto
  obtain asg where asg: "set asg = layer_assignments tr (arriving slots u v sts r) (view_of sts r) ly"
    "row_at view' ly (nat (row_of v r l)) =
       (case map_of asg (int (nat (row_of v r l))) of None \<Rightarrow> row_at (view_of sts r) ly (nat (row_of v r l)) | Some d \<Rightarrow> d)"
    using w ly row(2) unfolding moved_def by auto
  have i: "int (nat (row_of v r l)) = row_of v r l" using row(1) by simp
  show ?thesis
  proof (cases "map_of asg (row_of v r l)")
    case None
    then have "\<nexists>d. (row_of v r l, d) \<in> layer_assignments tr (arriving slots u v sts r) (view_of sts r) ly"
      unfolding asg(1) [symmetric] map_of_eq_None_iff by force
    then have "the_owner u l = r" "row_of u r l = row_of v r l" using assignments_complete [OF g r t ly l] by blast+
    then show ?thesis using asg(2) None unfolding i by (simp add: slot_row_def)
  next
    case (Some d)
    then have "(row_of v r l, d) \<in> layer_assignments tr (arriving slots u v sts r) (view_of sts r) ly"
      using map_of_SomeD asg(1) by metis
    from assignments_sound [OF g r t ly this] obtain m where m: "m \<in> set slots" "the_owner v m = r"
      "row_of v r l = row_of v r m" "d = slot_row u sts ly m" by blast
    have "owns v r l" "owns v r m" using the_owner_owns(2) [OF wv(1)] l(2) m(2) by metis+
    then have "l = m" using row_inj [OF wv(2)] m(3) by blast
    then show ?thesis using asg(2) Some m(4) unfolding i by simp
  qed
qed

section \<open>Reading a slot through the owner rule\<close>

text \<open>What one rank reads for a slot, with the bounds its process derives; and the reads of the whole group.\<close>

definition rank_read :: "rank_state \<Rightarrow> nat \<Rightarrow> int \<Rightarrow> byte list list" where
  "rank_read st layer l =
     (case dcp_weighted_owner_bounds (process st) (rt_size (runtime st)) (rt_rank (runtime st)) of
        Inl _ \<Rightarrow> []
      | Inr (cp_S, lo, hi, ratio) \<Rightarrow>
          let (compact, owned) = dcp_weighted_read_slots [l] cp_S lo hi ratio
          in (case read_rows 1 (pool (runtime st)) layer (select_by owned compact) of Inl _ \<Rightarrow> [] | Inr rows \<Rightarrow> rows))"

definition group_read :: "rank_state list \<Rightarrow> nat \<Rightarrow> int \<Rightarrow> byte list list" where
  "group_read sts layer l = concat (map (\<lambda>st. rank_read st layer l) sts)"

lemma rank_read_ok:
  assumes v: "token_vector (process st) n = v" "weights_ok v" "length v = n" and n: "rt_size (runtime st) = n" "rt_rank (runtime st) = r" "r < n"
    and view: "view_ok (pool (runtime st))" "layer < num_layers (pool (runtime st))" and l: "0 \<le> l" "l < 2 ^ 31"
    and fits: "owns v r l \<longrightarrow> row_of v r l < int (tensor_rows (pool (runtime st)))"
  shows "rank_read st layer l = (if owns v r l then [row_at (pool (runtime st)) layer (nat (row_of v r l))] else [])"
proof -
  have r: "r < length v" using n v by simp
  have b: "dcp_weighted_owner_bounds (process st) n r = Inr (sum_list v, prefix_from 0 v ! r, prefix_from 0 v ! Suc r, v ! r)"
    using bounds_of [of r "process st" n] r v(1) by (simp add: Let_def)
  show ?thesis
  proof (cases "owns v r l")
    case True
    have row: "0 \<le> row_of v r l" "row_of v r l \<le> l" using row_bounds(1) [OF v(2) r True l(1)] row_le [OF v(2) r True l(1)] by auto
    then have "to_int32 (row_of v r l) = row_of v r l" using l by (intro to_int32_id) auto
    then show ?thesis using True row fits read_rows_ok [OF view, of "[row_of v r l]" 1]
      by (simp add: rank_read_def n b read_slots_map [OF r] select_by_def in_rows_def)
  next
    case False
    then show ?thesis using read_rows_ok [OF view, of "[]" 1]
      by (simp add: rank_read_def n b read_slots_map [OF r] select_by_def in_rows_def)
  qed
qed

lemma group_read_ok:
  assumes v: "weights_ok v" "length v = length sts" and l: "0 \<le> l" "l < 2 ^ 31"
    and st: "\<And>r. r < length sts \<Longrightarrow> token_vector (process (sts ! r)) (length sts) = v \<and> rt_size (runtime (sts ! r)) = length sts \<and>
      rt_rank (runtime (sts ! r)) = r \<and> view_ok (view_of sts r) \<and> layer < num_layers (view_of sts r)"
    and fits: "row_of v (the_owner v l) l < int (tensor_rows (view_of sts (the_owner v l)))"
  shows "group_read sts layer l = [slot_row v sts layer l]"
proof -
  let ?n = "length sts" and ?q = "the_owner v l"
  have own: "owns v r l \<longleftrightarrow> r = ?q" if "r < ?n" for r using the_owner_owns(1,2) [OF v(1), of l] the_owner_owns(3) [OF v(1), of r l] that v(2) by auto
  have "rank_read (sts ! r) layer l = (if r = ?q then [slot_row v sts layer l] else [])" if r: "r < ?n" for r
    using rank_read_ok [where st = "sts ! r" and n = ?n and v = v and r = r and layer = layer and l = l] st [OF r] r v l own [OF r] fits by (auto simp: slot_row_def)
  then have "group_read sts layer l = concat (map (\<lambda>r. if r = ?q then [slot_row v sts layer l] else []) [0..<?n])"
    unfolding group_read_def by (subst map_nth [symmetric, of sts], unfold map_map comp_def) (auto intro!: arg_cong [where f = concat])
  also have "\<dots> = [slot_row v sts layer l]"
  proof -
    have "concat (map (\<lambda>r. if r = q then [x] else []) [0..<n]) = (if q < n then [x] else [])" for q n and x :: "byte list"
      by (induction n) auto
    then show ?thesis using the_owner_owns(1) [OF v(1), of l] v(2) by simp
  qed
  finally show ?thesis .
qed

text \<open>A vector the owner rule keeps as it is when it is installed: an uneven one, or the even one of all ones.\<close>

definition faithful_vector :: "int list \<Rightarrow> bool" where
  "faithful_vector v \<longleftrightarrow> length (remdups v) \<noteq> 1 \<or> v = replicate (length v) 1"

lemma token_vector_installed:
  assumes "weights_ok v" "length v = n" "faithful_vector v"
  shows "token_vector (set_cp_token_ratios (Some v) s) n = v"
  using assms by (auto simp: token_vector_def set_cp_token_ratios_def listed_def uneven_dcp_active_def weights_ok_def faithful_vector_def)

section \<open>The move as a whole\<close>

lemma cutover_ok:
  assumes "weights_ok v" "length v = n" "r < n" "faithful_vector v"
  shows "\<exists>cs'. cutover v n r (s, cs) = Inr (set_cp_token_ratios (Some v) s, cs')"
proof -
  let ?s = "set_cp_token_ratios (Some v) s"
  have "r < length (token_vector ?s n)" using token_vector_installed assms by simp
  then obtain b where "dcp_weighted_owner_bounds ?s n r = Inr b" using bounds_of by (metis (no_types, lifting))
  then have "refresh_all_owner_bounds ?s n r cs = Inr (map (\<lambda>c. if weighted c then c\<lparr>cached_bounds := b\<rparr> else c) cs)"
    unfolding refresh_all_owner_bounds_def by (intro rmap_ok) (simp add: refresh_dcp_owner_bounds_def)
  then show ?thesis by (simp add: cutover_def)
qed

definition rank_moved :: "int list \<Rightarrow> int list \<Rightarrow> int list \<Rightarrow> rank_state list \<Rightarrow> transition \<Rightarrow> nat \<Rightarrow> rank_state \<Rightarrow> bool" where
  "rank_moved slots u v sts tr r st' \<longleftrightarrow>
     process st' = set_cp_token_ratios (Some v) (process (sts ! r)) \<and>
     moved tr (arriving slots u v sts r) [0..<num_layers (view_of sts r)] (view_of sts r) (pool (runtime st')) \<and>
     runtime st' = (runtime (sts ! r))\<lparr>pool := pool (runtime st'), current := v, pending := None, pending_since := None,
       last_hold_report_at := None, epoch := epoch (runtime (sts ! r)) + 1, completed := completed (runtime (sts ! r)) + 1\<rparr>"

lemma finish_rank_ok:
  assumes g: "group_ready u v c slots sts" and r: "r < length sts" and t: "build_transition slots u v r = Inr tr" and f: "faithful_vector v"
  shows "\<exists>st'. finish_rank block chunk' tr (map (\<lambda>p. (p, wire chunk slots u v sts p r)) (peers_in slots u v r)) (sts ! r) = Inr st' \<and>
    rank_moved slots u v sts tr r st'"
proof -
  let ?rt = "runtime (sts ! r)"
  have v: "weights_ok v" "length v = length sts" using g by (simp_all add: group_ready_def)
  obtain view where view: "write_layers block tr (arriving slots u v sts r) [0..<num_layers (view_of sts r)] (view_of sts r) = Inr view"
    "moved tr (arriving slots u v sts r) [0..<num_layers (view_of sts r)] (view_of sts r) view"
    using write_layers_ok [OF group_rank(5) [OF g r] _ _ group_fits [OF g r t], of "[0..<num_layers (view_of sts r)]" block]
    by (auto simp: atLeast0LessThan)
  obtain cs where cs: "cutover v (length sts) r (process (sts ! r), backends (sts ! r)) = Inr (set_cp_token_ratios (Some v) (process (sts ! r)), cs)"
    using cutover_ok [OF v r f] by blast
  note R = group_rank [OF g r]
  show ?thesis
    unfolding finish_rank_def exec_finish_def accept_ok [OF g r t] R(4)
    using view cs R by (simp add: rank_moved_def)
qed

lemma group_move_ok:
  assumes g: "group_ready u v c slots sts" and t: "\<forall>r<length sts. build_transition slots u v r = Inr (trs ! r)"
    and d: "\<forall>p q b. transport p q b = b" and f: "faithful_vector v"
  shows "\<exists>sts'. group_move block chunk transport trs sts = Inr sts' \<and> length sts' = length sts \<and>
    (\<forall>r<length sts. rank_moved slots u v sts (trs ! r) r (sts' ! r))"
proof -
  let ?n = "length sts"
  have pack: "rmap (\<lambda>r. exec_pack block (chunk r) (trs ! r) (view_of sts r)) [0..<?n] =
      Inr (map (\<lambda>r. map (\<lambda>p. (p, wire chunk slots u v sts r p)) (peers_out slots u v r)) [0..<?n])"
    by (rule rmap_ok) (use exec_pack_ok [OF g] t in auto)
  let ?recs = "map (\<lambda>r. map (\<lambda>p. (p, wire chunk slots u v sts p r)) (peers_in slots u v r)) [0..<?n]"
  have "\<exists>sts'. rmap (\<lambda>r. finish_rank block (chunk r) (trs ! r) (?recs ! r) (sts ! r)) [0..<?n] = Inr sts' \<and>
      list_all2 (\<lambda>r st'. rank_moved slots u v sts (trs ! r) r st') [0..<?n] sts'"
  proof (rule rmap_exists)
    fix r assume "r \<in> set [0..<?n]"
    then show "\<exists>st'. finish_rank block (chunk r) (trs ! r) (?recs ! r) (sts ! r) = Inr st' \<and> rank_moved slots u v sts (trs ! r) r st'"
      using finish_rank_ok [OF g _ _ f, of r "trs ! r" block "chunk r" chunk] t by simp
  qed
  then obtain sts' where s: "rmap (\<lambda>r. finish_rank block (chunk r) (trs ! r) (?recs ! r) (sts ! r)) [0..<?n] = Inr sts'"
    "list_all2 (\<lambda>r st'. rank_moved slots u v sts (trs ! r) r st') [0..<?n] sts'" by blast
  have "group_move block chunk transport trs sts = Inr sts'"
    unfolding group_move_def pack rbind_simps exchange_ok [OF g t d] by (rule s(1))
  then show ?thesis using s(2) by (auto simp: list_all2_conv_all_nth)
qed

end
