(* ===== verification/Kv_Agreement.thy ===== *)
theory Kv_Agreement
  imports Kv_Reshard
begin

text \<open>
  The consensus round of the reshard runtime: what each rank proposes, what the reduction of the proposals
  shows, and the verdict every rank reaches from it.
\<close>

section \<open>Agreement\<close>

text \<open>The reduction the runtime relies on: the element-wise minimum of the payloads of the ranks.\<close>

definition min_channel :: "(int list list \<Rightarrow> int list) \<Rightarrow> bool" where
  "min_channel collective_min \<longleftrightarrow> (\<forall>ps m. ps \<noteq> [] \<and> (\<forall>p\<in>set ps. length p = m) \<longrightarrow>
     collective_min ps = map (\<lambda>i. Min ((\<lambda>p. p ! i) ` set ps)) [0..<m])"

definition wants_move :: "round_env \<Rightarrow> reshard_runtime \<Rightarrow> bool" where
  "wants_move env rt \<longleftrightarrow> is_fully_idle env \<and>
     (case pending rt of None \<Rightarrow> False
      | Some target \<Rightarrow> (case fit_check env of None \<Rightarrow> True | Some f \<Rightarrow> fst (f target)))"

definition affordable :: "round_env \<Rightarrow> transient_terms \<Rightarrow> reshard_runtime \<Rightarrow> bool" where
  "affordable env terms rt \<longleftrightarrow>
     (case free_bytes env of None \<Rightarrow> True | Some (Inl _) \<Rightarrow> False | Some (Inr free) \<Rightarrow> corridor_floor rt + peak terms \<le> free)"

lemma encode_length [simp]: "length (encode vs) = 2 * length vs"
  by (induction vs) auto

lemma encode_nth: "i < length vs \<Longrightarrow> encode vs ! (2 * i) = vs ! i \<and> encode vs ! (2 * i + 1) = - vs ! i"
proof (induction vs arbitrary: i)
  case (Cons v vs)
  then show ?case by (cases i) auto
qed simp

text \<open>The fields of a proposal: armed, ready, headroom, epoch, then the vector.\<close>

definition field :: "proposal \<Rightarrow> nat \<Rightarrow> int" where
  "field p i = ([prop_armed p, prop_ready p, prop_headroom p, prop_epoch p] @ prop_vector p) ! i"

lemma reduced_fields:
  assumes c: "min_channel collective_min" and ps: "ps \<noteq> []" "\<forall>p\<in>set ps. length (prop_vector p) = n" and i: "i < n + 4"
  shows "length (collective_min (map payload_of ps)) = 2 * (n + 4)"
    "collective_min (map payload_of ps) ! (2 * i) = Min ((\<lambda>p. field p i) ` set ps)"
    "- collective_min (map payload_of ps) ! (2 * i + 1) = Max ((\<lambda>p. field p i) ` set ps)"
proof -
  have len: "\<forall>p\<in>set (map payload_of ps). length p = 2 * (n + 4)" using ps(2) by (auto simp: payload_of_def)
  have red: "collective_min (map payload_of ps) = map (\<lambda>i. Min ((\<lambda>p. p ! i) ` set (map payload_of ps))) [0..<2 * (n + 4)]"
    using c ps(1) len unfolding min_channel_def by (metis map_is_Nil_conv)
  have f: "payload_of p ! (2 * i) = field p i" "payload_of p ! (2 * i + 1) = - field p i" if "p \<in> set ps" for p
    using that ps(2) i encode_nth [of i "[prop_armed p, prop_ready p, prop_headroom p, prop_epoch p] @ prop_vector p"]
    by (auto simp: payload_of_def field_def)
  show "length (collective_min (map payload_of ps)) = 2 * (n + 4)" unfolding red by simp
  have "(\<lambda>p. p ! (2 * i)) ` set (map payload_of ps) = (\<lambda>p. field p i) ` set ps"
    using f(1) by (auto simp: image_image intro!: image_cong)
  then show "collective_min (map payload_of ps) ! (2 * i) = Min ((\<lambda>p. field p i) ` set ps)" unfolding red using i by simp
  have "(\<lambda>p. p ! (2 * i + 1)) ` set (map payload_of ps) = uminus ` ((\<lambda>p. field p i) ` set ps)"
    using f(2) by (auto simp: image_image intro!: image_cong)
  then show "- collective_min (map payload_of ps) ! (2 * i + 1) = Max ((\<lambda>p. field p i) ` set ps)"
    unfolding red using i ps(1) by (simp add: image_image)
qed

lemma min_max_same:
  assumes "finite A" "A \<noteq> {}"
  shows "Min A = Max A \<longleftrightarrow> (\<forall>x\<in>A. \<forall>y\<in>A. x = (y::int))"
  using assms by (metis Max_ge Max_in Min_in Min_le antisym)

lemma min_flag:
  assumes "finite A" "A \<noteq> {}" "A \<subseteq> {0, 1::int}"
  shows "Min A = 0 \<longleftrightarrow> 0 \<in> A" "Min A = 1 \<longleftrightarrow> 0 \<notin> A"
proof -
  have "Min A \<in> {0, 1}" by (rule subsetD [OF assms(3) Min_in [OF assms(1,2)]])
  moreover have "0 \<in> A \<Longrightarrow> Min A \<le> 0" by (rule Min_le [OF assms(1)])
  ultimately show "Min A = 0 \<longleftrightarrow> 0 \<in> A" "Min A = 1 \<longleftrightarrow> 0 \<notin> A" using Min_in [OF assms(1,2)] by auto
qed

lemma headroom_check_ok:
  "\<exists>detail h. headroom_check env terms rt = (if affordable env terms rt then 1 else 0, detail, rt\<lparr>last_headroom := h\<rparr>)"
proof (cases "free_bytes env")
  case None
  then show ?thesis by (intro exI [of _ None] exI [of _ "last_headroom rt"]) (simp add: headroom_check_def affordable_def)
next
  case (Some x)
  show ?thesis
  proof (cases x)
    case (Inl a)
    then show ?thesis using Some
      by (intro exI [of _ "Some (Free_Unreadable (peak terms) (corridor_floor rt))"]) (simp add: headroom_check_def affordable_def Let_def)
  next
    case (Inr free)
    let ?m = "free - corridor_floor rt - peak terms"
    have "0 \<le> ?m \<longleftrightarrow> corridor_floor rt + peak terms \<le> free" by linarith
    then show ?thesis using Some Inr
      by (intro exI [of _ "Some (Headroom free (corridor_floor rt) (peak terms) ?m (0 \<le> ?m))"])
        (simp add: headroom_check_def affordable_def Let_def)
  qed
qed

lemma begin_moves:
  assumes "round_begin env rt = Inr (rt', Some p)" "wants_move env rt"
  shows "\<exists>t tr terms h. pending rt = Some t \<and> plan_move env t rt = Inr (tr, terms) \<and>
    rt' = rt\<lparr>rounds := rounds rt + 1, last_headroom := h, desync_checks := desync_checks rt + 1\<rparr> \<and> prop_armed p = 1 \<and> prop_ready p = 1 \<and>
    prop_headroom p = (if affordable env terms rt then 1 else 0) \<and> prop_epoch p = epoch rt \<and> prop_vector p = t \<and> prop_plan p = Some tr"
proof -
  let ?rt = "rt\<lparr>rounds := rounds rt + 1\<rparr>"
  obtain t where t: "pending rt = Some t" using assms(2) by (auto simp: wants_move_def split: option.splits)
  obtain m where fit: "(case fit_check env of None \<Rightarrow> (True, []) | Some f \<Rightarrow> f t) = (True, m)"
    using assms(2) t by (cases "fit_check env"; cases "the (fit_check env) t") (auto simp: wants_move_def)
  have idle: "is_fully_idle env" using assms(2) by (simp add: wants_move_def)
  have r: "rounds ?rt mod interval ?rt = 0" using assms(1) by (auto simp: round_begin_def Let_def split: if_splits)
  have plan: "plan_move env t ?rt = plan_move env t rt" and aff: "affordable env terms ?rt = affordable env terms rt" for terms
    by (simp_all add: plan_move_def affordable_def cong: option.case_cong sum.case_cong)
  obtain tr terms where tr: "plan_move env t rt = Inr (tr, terms)"
    using assms(1) r t fit idle plan by (auto simp: round_begin_def Let_def rbind_Inr_iff)
  obtain detail h where h: "headroom_check env terms ?rt = (if affordable env terms rt then 1 else 0, detail, ?rt\<lparr>last_headroom := h\<rparr>)"
    using headroom_check_ok [of env terms ?rt] unfolding aff by blast
  show ?thesis
    using assms(1) r t fit idle plan tr h
    by (intro exI [of _ t] exI [of _ tr] exI [of _ terms] exI [of _ h]) (auto simp: round_begin_def Let_def)
qed

lemma begin_stays:
  assumes "round_begin env rt = Inr (rt', Some p)" "\<not> wants_move env rt"
  shows "rt' = rt\<lparr>rounds := rounds rt + 1, desync_checks := desync_checks rt + 1\<rparr>" "prop_armed p = (if pending rt = None then 0 else 1)"
    "prop_ready p = 0" "prop_headroom p = 1" "prop_epoch p = epoch rt"
    "prop_vector p = (case pending rt of Some t \<Rightarrow> t | None \<Rightarrow> replicate (rt_size rt) 0)"
proof -
  let ?rt = "rt\<lparr>rounds := rounds rt + 1\<rparr>"
  obtain ok m where fit: "(case pending rt of None \<Rightarrow> (True, []) | Some t \<Rightarrow> (case fit_check env of None \<Rightarrow> (True, []) | Some f \<Rightarrow> f t)) = (ok, m)"
    by (meson surj_pair)
  have no: "\<not> (pending rt \<noteq> None \<and> ok \<and> is_fully_idle env)"
    using assms(2) fit by (auto simp: wants_move_def split: option.splits)
  have r: "rounds ?rt mod interval ?rt = 0" using assms(1) by (auto simp: round_begin_def Let_def split: if_splits)
  have "rt' = rt\<lparr>rounds := rounds rt + 1, desync_checks := desync_checks rt + 1\<rparr> \<and> prop_armed p = (if pending rt = None then 0 else 1) \<and>
    prop_ready p = 0 \<and> prop_headroom p = 1 \<and> prop_epoch p = epoch rt \<and>
    prop_vector p = (case pending rt of Some t \<Rightarrow> t | None \<Rightarrow> replicate (rt_size rt) 0)"
    using assms(1) r fit no by (auto simp: round_begin_def Let_def split: if_splits)
  then show "rt' = rt\<lparr>rounds := rounds rt + 1, desync_checks := desync_checks rt + 1\<rparr>" "prop_armed p = (if pending rt = None then 0 else 1)"
    "prop_ready p = 0" "prop_headroom p = 1" "prop_epoch p = epoch rt"
    "prop_vector p = (case pending rt of Some t \<Rightarrow> t | None \<Rightarrow> replicate (rt_size rt) 0)" by blast+
qed

lemma begin_fields:
  assumes "round_begin env rt = Inr (rt', Some p)" "case pending rt of None \<Rightarrow> True | Some t \<Rightarrow> length t = rt_size rt"
  shows "length (prop_vector p) = rt_size rt" "rt_size rt' = rt_size rt" "prop_epoch p = epoch rt"
    "prop_armed p = (if pending rt = None then 0 else 1)" "prop_ready p = (if wants_move env rt then 1 else 0)"
    "pending rt = Some t \<Longrightarrow> prop_vector p = t"
    "wants_move env rt \<Longrightarrow> \<exists>t tr terms. pending rt = Some t \<and> plan_move env t rt = Inr (tr, terms) \<and>
       prop_plan p = Some tr \<and> prop_headroom p = (if affordable env terms rt then 1 else 0)"
    "\<not> wants_move env rt \<Longrightarrow> prop_headroom p = 1"
proof -
  have "length (prop_vector p) = rt_size rt \<and> rt_size rt' = rt_size rt \<and> prop_epoch p = epoch rt \<and>
    prop_armed p = (if pending rt = None then 0 else 1) \<and> prop_ready p = (if wants_move env rt then 1 else 0) \<and>
    (pending rt = Some t \<longrightarrow> prop_vector p = t)"
  proof (cases "wants_move env rt")
    case True
    from begin_moves [OF assms(1) this] obtain t' h where "pending rt = Some t'"
      "rt' = rt\<lparr>rounds := rounds rt + 1, last_headroom := h, desync_checks := desync_checks rt + 1\<rparr>" "prop_armed p = 1" "prop_ready p = 1"
      "prop_epoch p = epoch rt" "prop_vector p = t'" by blast
    then show ?thesis using assms(2) True by simp
  next
    case False
    note S = begin_stays [OF assms(1) False]
    show ?thesis using S assms(2) False by (cases "pending rt") simp_all
  qed
  then show "length (prop_vector p) = rt_size rt" "rt_size rt' = rt_size rt" "prop_epoch p = epoch rt"
    "prop_armed p = (if pending rt = None then 0 else 1)" "prop_ready p = (if wants_move env rt then 1 else 0)"
    "pending rt = Some t \<Longrightarrow> prop_vector p = t" by blast+
  show "\<not> wants_move env rt \<Longrightarrow> prop_headroom p = 1" by (rule begin_stays(4) [OF assms(1)])
  show "wants_move env rt \<Longrightarrow> \<exists>t tr terms. pending rt = Some t \<and> plan_move env t rt = Inr (tr, terms) \<and>
       prop_plan p = Some tr \<and> prop_headroom p = (if affordable env terms rt then 1 else 0)"
    using begin_moves [OF assms(1)] by blast
qed

text \<open>The ranks of a group that have made their proposals in a round.\<close>

definition proposals :: "nat \<Rightarrow> round_env list \<Rightarrow> reshard_runtime list \<Rightarrow> reshard_runtime list \<Rightarrow> proposal list \<Rightarrow> bool" where
  "proposals n envs rts rts' props \<longleftrightarrow> 0 < n \<and> length props = n \<and>
     (\<forall>r<n. rt_size (rts ! r) = n \<and> (case pending (rts ! r) of None \<Rightarrow> True | Some t \<Rightarrow> length t = n) \<and>
        round_begin (envs ! r) (rts ! r) = Inr (rts' ! r, Some (props ! r)))"

definition can_afford :: "round_env \<Rightarrow> reshard_runtime \<Rightarrow> bool" where
  "can_afford env rt \<longleftrightarrow> (\<forall>t tr terms. pending rt = Some t \<and> plan_move env t rt = Inr (tr, terms) \<longrightarrow> affordable env terms rt)"

lemma proposal_fields:
  assumes P: "proposals n envs rts rts' props" and r: "r < n"
  shows "length (prop_vector (props ! r)) = n" "field (props ! r) 0 = (if pending (rts ! r) = None then 0 else 1)"
    "field (props ! r) 1 = (if wants_move (envs ! r) (rts ! r) then 1 else 0)" "field (props ! r) 3 = epoch (rts ! r)"
    "field (props ! r) 2 = (if wants_move (envs ! r) (rts ! r) \<and> \<not> can_afford (envs ! r) (rts ! r) then 0 else 1)"
    "field (props ! r) (4 + i) = prop_vector (props ! r) ! i" "pending (rts ! r) = Some t \<Longrightarrow> prop_vector (props ! r) = t"
proof -
  have b: "round_begin (envs ! r) (rts ! r) = Inr (rts' ! r, Some (props ! r))" "rt_size (rts ! r) = n"
    "case pending (rts ! r) of None \<Rightarrow> True | Some t \<Rightarrow> length t = rt_size (rts ! r)"
    using P r by (simp_all add: proposals_def cong: option.case_cong)
  note F = begin_fields [OF b(1,3)]
  show "length (prop_vector (props ! r)) = n" "field (props ! r) 0 = (if pending (rts ! r) = None then 0 else 1)"
    "field (props ! r) 1 = (if wants_move (envs ! r) (rts ! r) then 1 else 0)" "field (props ! r) 3 = epoch (rts ! r)"
    "field (props ! r) (4 + i) = prop_vector (props ! r) ! i" "pending (rts ! r) = Some t \<Longrightarrow> prop_vector (props ! r) = t"
    using F(1-6) b(2) by (simp_all add: field_def)
  have h: "field (props ! r) 2 = prop_headroom (props ! r)" by (simp add: field_def numeral_2_eq_2)
  show "field (props ! r) 2 = (if wants_move (envs ! r) (rts ! r) \<and> \<not> can_afford (envs ! r) (rts ! r) then 0 else 1)"
  proof (cases "wants_move (envs ! r) (rts ! r)")
    case True
    from F(7) [OF this] obtain t tr terms where "pending (rts ! r) = Some t" "plan_move (envs ! r) t (rts ! r) = Inr (tr, terms)"
      "prop_headroom (props ! r) = (if affordable (envs ! r) terms (rts ! r) then 1 else 0)" by blast
    then show ?thesis using True h by (simp add: can_afford_def)
  next
    case False
    then show ?thesis using F(8) h by simp
  qed
qed

lemma image_same:
  assumes "0 < n"
  shows "(\<forall>x\<in>f ` {..<n}. \<forall>y\<in>f ` {..<n}. x = y) \<longleftrightarrow> (\<forall>q<n. f q = f (0::nat))"
proof (intro iffI ballI allI impI)
  fix x y assume "\<forall>q<n. f q = f 0" "x \<in> f ` {..<n}" "y \<in> f ` {..<n}"
  then have "x = f 0" "y = f 0" by blast+
  then show "x = y" by simp
next
  fix q assume same: "\<forall>x\<in>f ` {..<n}. \<forall>y\<in>f ` {..<n}. x = y" and q: "q < n"
  have "f q \<in> f ` {..<n}" "f 0 \<in> f ` {..<n}" using q assms by simp_all
  then show "f q = f 0" by (rule same [rule_format])
qed

lemma group_fields:
  assumes P: "proposals n envs rts rts' props" and c: "min_channel collective_min"
  defines "reduced \<equiv> collective_min (map payload_of props)"
  shows "length reduced = 2 * (n + 4)"
    "reduced ! 0 = 0 \<longleftrightarrow> (\<exists>q<n. pending (rts ! q) = None)" "reduced ! 0 = 1 \<longleftrightarrow> (\<forall>q<n. pending (rts ! q) \<noteq> None)"
    "reduced ! 2 = 0 \<longleftrightarrow> (\<exists>q<n. \<not> wants_move (envs ! q) (rts ! q))"
    "reduced ! 4 = 0 \<longleftrightarrow> (\<exists>q<n. wants_move (envs ! q) (rts ! q) \<and> \<not> can_afford (envs ! q) (rts ! q))"
    "i < n + 4 \<Longrightarrow> reduced ! (2 * i) = - reduced ! (2 * i + 1) \<longleftrightarrow> (\<forall>q<n. field (props ! q) i = field (props ! 0) i)"
proof -
  have ne: "props \<noteq> []" "length props = n" "0 < n" using P by (auto simp: proposals_def)
  have v: "\<forall>p\<in>set props. length (prop_vector p) = n"
    using proposal_fields(1) [OF P] ne(2) by (auto simp: in_set_conv_nth)
  note R = reduced_fields [OF c ne(1) v, folded reduced_def]
  have set: "(\<lambda>p. field p i) ` set props = (\<lambda>q. field (props ! q) i) ` {..<n}" for i
    using ne(2) by (auto simp: set_conv_nth image_image)
  show "length reduced = 2 * (n + 4)" by (rule R(1) [of 0]) simp
  have lo: "reduced ! (2 * i) = Min ((\<lambda>q. field (props ! q) i) ` {..<n})" if "i < n + 4" for i using R(2) [OF that] set by simp
  have fin: "finite ((\<lambda>q. field (props ! q) i) ` {..<n})" "(\<lambda>q. field (props ! q) i) ` {..<n} \<noteq> {}" for i using ne(3) by auto
  have flag: "(\<lambda>q. field (props ! q) i) ` {..<n} \<subseteq> {0, 1}" if "i < 3" for i
    using proposal_fields(2,3,5) [OF P] that by (auto simp: less_Suc_eq numeral_3_eq_3 numeral_2_eq_2 split: if_splits)
  have zero: "0 \<in> (\<lambda>q. field (props ! q) i) ` {..<n} \<longleftrightarrow> (\<exists>q<n. field (props ! q) i = 0)" for i by (auto simp: image_iff)
  have low: "reduced ! (2 * i) = 0 \<longleftrightarrow> (\<exists>q<n. field (props ! q) i = 0)" "reduced ! (2 * i) = 1 \<longleftrightarrow> \<not> (\<exists>q<n. field (props ! q) i = 0)"
    if "i < 3" for i
    using min_flag [OF fin flag [OF that]] lo [of i] that unfolding zero by simp_all
  have none: "field (props ! q) 0 = 0 \<longleftrightarrow> pending (rts ! q) = None" "field (props ! q) 1 = 0 \<longleftrightarrow> \<not> wants_move (envs ! q) (rts ! q)"
    "field (props ! q) 2 = 0 \<longleftrightarrow> wants_move (envs ! q) (rts ! q) \<and> \<not> can_afford (envs ! q) (rts ! q)" if "q < n" for q
    using proposal_fields(2,3,5) [OF P that] by simp_all
  show "reduced ! 0 = 0 \<longleftrightarrow> (\<exists>q<n. pending (rts ! q) = None)" using low(1) [of 0] none(1) by auto
  show "reduced ! 0 = 1 \<longleftrightarrow> (\<forall>q<n. pending (rts ! q) \<noteq> None)" using low(2) [of 0] none(1) by (metis mult_0_right zero_less_numeral)
  show "reduced ! 2 = 0 \<longleftrightarrow> (\<exists>q<n. \<not> wants_move (envs ! q) (rts ! q))" using low(1) [of 1] none(2) by auto
  show "reduced ! 4 = 0 \<longleftrightarrow> (\<exists>q<n. wants_move (envs ! q) (rts ! q) \<and> \<not> can_afford (envs ! q) (rts ! q))"
    using low(1) [of 2] none(3) by auto
  show "reduced ! (2 * i) = - reduced ! (2 * i + 1) \<longleftrightarrow> (\<forall>q<n. field (props ! q) i = field (props ! 0) i)" if "i < n + 4"
    unfolding R(2,3) [OF that] set min_max_same [OF fin] by (rule image_same [OF ne(3)])
qed

lemma vectors_differ:
  assumes P: "proposals n envs rts rts' props" and armed: "\<forall>q<n. pending (rts ! q) \<noteq> None"
  shows "(\<forall>i<n. \<forall>q<n. field (props ! q) (4 + i) = field (props ! 0) (4 + i)) \<longleftrightarrow> (\<forall>q<n. pending (rts ! q) = pending (rts ! 0))"
proof -
  have n: "0 < n" using P by (simp add: proposals_def)
  have v: "pending (rts ! q) = Some (prop_vector (props ! q))" if "q < n" for q
    using armed proposal_fields(7) [OF P that] that by (metis option.exhaust)
  have "(\<forall>i<n. field (props ! q) (4 + i) = field (props ! 0) (4 + i)) \<longleftrightarrow> prop_vector (props ! q) = prop_vector (props ! 0)" if q: "q < n" for q
    unfolding proposal_fields(6) [OF P q] proposal_fields(6) [OF P n] list_eq_iff_nth_eq
    using proposal_fields(1) [OF P q] proposal_fields(1) [OF P n] by simp
  then show ?thesis using v [OF n] v by (metis option.inject)
qed

lemma begin_keeps:
  assumes "round_begin env rt = Inr (rt', Some p)"
  shows "pool rt' = pool rt \<and> current rt' = current rt \<and> epoch rt' = epoch rt \<and> pending rt' = pending rt \<and> rt_size rt' = rt_size rt"
proof (cases "wants_move env rt")
  case True
  from begin_moves [OF assms True] obtain h where
    "rt' = rt\<lparr>rounds := rounds rt + 1, last_headroom := h, desync_checks := desync_checks rt + 1\<rparr>" by blast
  then show ?thesis by simp
next
  case False
  from begin_stays(1) [OF assms False] show ?thesis by simp
qed

lemma checked_fields: "list_ex P ([3] @ map (\<lambda>i. 4 + i) [0..<n]) \<longleftrightarrow> P 3 \<or> (\<exists>i<n. P (4 + i))"
  by (induction n) (auto simp: less_Suc_eq)

text \<open>The ranks disagree: on the epoch, or, all of them armed, on the target.\<close>

definition desynced :: "nat \<Rightarrow> reshard_runtime list \<Rightarrow> bool" where
  "desynced n rts \<longleftrightarrow> (\<exists>q<n. epoch (rts ! q) \<noteq> epoch (rts ! 0)) \<or>
     (\<forall>q<n. pending (rts ! q) \<noteq> None) \<and> (\<exists>q<n. pending (rts ! q) \<noteq> pending (rts ! 0))"

lemma desync_check:
  assumes P: "proposals n envs rts rts' props" and c: "min_channel collective_min"
  defines "red \<equiv> collective_min (map payload_of props)"
  shows "list_ex (\<lambda>i. red ! (2 * i) \<noteq> - red ! (2 * i + 1)) ([3] @ (if red ! (2 * 0) = 1 then map (\<lambda>i. 4 + i) [0..<n] else [])) \<longleftrightarrow>
    desynced n rts"
proof -
  note G = group_fields [OF P c, folded red_def]
  have n: "0 < n" using P by (simp add: proposals_def)
  have e: "red ! (2 * 3) = - red ! (2 * 3 + 1) \<longleftrightarrow> (\<forall>q<n. epoch (rts ! q) = epoch (rts ! 0))"
    using G(6) [of 3] proposal_fields(4) [OF P] n by simp
  have vi: "red ! (2 * (4 + i)) = - red ! (2 * (4 + i) + 1) \<longleftrightarrow> (\<forall>q<n. field (props ! q) (4 + i) = field (props ! 0) (4 + i))" if "i < n" for i
    by (rule G(6)) (use that in simp)
  have v: "(\<forall>i<n. red ! (2 * (4 + i)) = - red ! (2 * (4 + i) + 1)) \<longleftrightarrow> (\<forall>q<n. pending (rts ! q) = pending (rts ! 0))"
    if "\<forall>q<n. pending (rts ! q) \<noteq> None"
    unfolding vectors_differ [OF P that, symmetric] using vi by blast
  show ?thesis
  proof (cases "\<forall>q<n. pending (rts ! q) \<noteq> None")
    case True
    then have "red ! (2 * 0) = 1" using G(3) by simp
    then have "list_ex (\<lambda>i. red ! (2 * i) \<noteq> - red ! (2 * i + 1)) ([3] @ (if red ! (2 * 0) = 1 then map (\<lambda>i. 4 + i) [0..<n] else [])) \<longleftrightarrow>
        \<not> (red ! (2 * 3) = - red ! (2 * 3 + 1)) \<or> \<not> (\<forall>i<n. red ! (2 * (4 + i)) = - red ! (2 * (4 + i) + 1))"
      by (simp only: checked_fields simp_thms if_True) blast
    then show ?thesis unfolding e v [OF True] desynced_def using True by blast
  next
    case False
    then have "red ! (2 * 0) \<noteq> 1" using G(3) by simp
    then have "list_ex (\<lambda>i. red ! (2 * i) \<noteq> - red ! (2 * i + 1)) ([3] @ (if red ! (2 * 0) = 1 then map (\<lambda>i. 4 + i) [0..<n] else [])) \<longleftrightarrow>
        \<not> (red ! (2 * 3) = - red ! (2 * 3 + 1))" by simp
    then show ?thesis unfolding e desynced_def using False by blast
  qed
qed

lemma hold_keeps [simp]:
  "pool (hold now reason rt) = pool rt" "current (hold now reason rt) = current rt" "pending (hold now reason rt) = pending rt"
  by (simp_all add: hold_def Let_def)

lemma round_end_verdict:
  assumes P: "proposals n envs rts rts' props" and c: "min_channel collective_min" and r: "r < n"
  shows "\<exists>x y. round_end now (collective_min (map payload_of props)) (props ! r) (rts' ! r) =
      (if desynced n rts then Inl (KvReshardError Desync)
       else if \<exists>q<n. pending (rts ! q) = None then Inr (Waits, x)
       else if \<exists>q<n. \<not> wants_move (envs ! q) (rts ! q) then Inr (Waits, y)
       else if \<exists>q<n. wants_move (envs ! q) (rts ! q) \<and> \<not> can_afford (envs ! q) (rts ! q) then Inr (Refuses, refuse_for_headroom (rts' ! r))
       else Inr (Moves, (rts' ! r)\<lparr>last_hold_reason := None\<rparr>)) \<and>
    pool x = pool (rts' ! r) \<and> current x = current (rts' ! r) \<and> pending x = pending (rts' ! r) \<and>
    pool y = pool (rts' ! r) \<and> current y = current (rts' ! r) \<and> pending y = pending (rts' ! r)"
proof -
  let ?red = "collective_min (map payload_of props)"
  note G = group_fields [OF P c]
  have b: "round_begin (envs ! r) (rts ! r) = Inr (rts' ! r, Some (props ! r))" using P r by (simp add: proposals_def)
  have sz: "rt_size (rts' ! r) = n" using begin_keeps [OF b] P r by (simp add: proposals_def)
  have len: "length ?red = length (payload_of (props ! r))" using G(1) proposal_fields(1) [OF P r] by (simp add: payload_of_def)
  have z: "?red ! (2 * 0) = ?red ! 0" "?red ! (2 * 1) = ?red ! 2" "?red ! (2 * 2) = ?red ! 4" by simp_all
  let ?X = "if - ?red ! (2 * 0 + 1) = 1 then hold now Delivery_Skew (rts' ! r) else rts' ! r"
  let ?Y = "if \<not> prop_fit_ok (props ! r) then hold now (Does_Not_Fit (prop_fit_msg (props ! r))) (rts' ! r)
    else hold now (Waiting_For_Idle (prop_ready (props ! r))) (rts' ! r)"
  show ?thesis
    unfolding Let_def round_end_def sz if_not_P [OF not_not [THEN iffD2, OF len]]
    unfolding desync_check [OF P c]
    unfolding z G(2,4,5)
    by (rule exI [of _ ?X], rule exI [of _ ?Y], rule conjI, rule refl) simp
qed

lemma nested_if:
  assumes "out = (if D then e else if N then x else if W then y else if A then z else w)"
  shows "D \<Longrightarrow> out = e" "\<not> D \<Longrightarrow> N \<Longrightarrow> out = x" "\<not> D \<Longrightarrow> \<not> N \<Longrightarrow> W \<Longrightarrow> out = y"
    "\<not> D \<Longrightarrow> \<not> N \<Longrightarrow> \<not> W \<Longrightarrow> A \<Longrightarrow> out = z" "\<not> D \<Longrightarrow> \<not> N \<Longrightarrow> \<not> W \<Longrightarrow> \<not> A \<Longrightarrow> out = w"
  using assms by simp_all

section \<open>Properties\<close>

text \<open>C8: no rank ever moves alone. When the ranks of a group reduce their proposals at a consensus boundary, they
  all reach the same verdict: all raise the desync error when their epochs differ or when all are armed
  for different vectors; otherwise all wait unless every rank is armed, its target fits and it is idle;
  then all move when every rank can afford the transient buffers above the corridor, and all refuse and
  disarm when one cannot. Deciding touches neither the pool nor the current vector.\<close>

theorem ranks_agree_on_the_verdict:
  assumes P: "proposals n envs rts rts' props" and c: "min_channel collective_min" and r: "r < n"
  shows "let outcome = round_end now (collective_min (map payload_of props)) (props ! r) (rts' ! r)
    in if desynced n rts then outcome = Inl (KvReshardError Desync)
       else \<exists>verdict rt'. outcome = Inr (verdict, rt') \<and>
         verdict = (if \<exists>q<n. \<not> wants_move (envs ! q) (rts ! q) then Waits
                    else if \<exists>q<n. \<not> can_afford (envs ! q) (rts ! q) then Refuses else Moves) \<and>
         pool rt' = pool (rts ! r) \<and> current rt' = current (rts ! r) \<and>
         pending rt' = (if verdict = Refuses then None else pending (rts ! r))"
proof -
  have "round_begin (envs ! r) (rts ! r) = Inr (rts' ! r, Some (props ! r))" using P r by (simp add: proposals_def)
  note K = begin_keeps [OF this]
  have wants: "wants_move (envs ! q) (rts ! q) \<Longrightarrow> pending (rts ! q) \<noteq> None" for q by (auto simp: wants_move_def split: option.splits)
  let ?out = "round_end now (collective_min (map payload_of props)) (props ! r) (rts' ! r)"
  let ?N = "\<exists>q<n. pending (rts ! q) = None" and ?W = "\<exists>q<n. \<not> wants_move (envs ! q) (rts ! q)"
  let ?A = "\<exists>q<n. wants_move (envs ! q) (rts ! q) \<and> \<not> can_afford (envs ! q) (rts ! q)"
  from round_end_verdict [OF P c r, of now] obtain x y where o: "?out = (if desynced n rts then Inl (KvReshardError Desync)
       else if ?N then Inr (Waits, x) else if ?W then Inr (Waits, y) else if ?A then Inr (Refuses, refuse_for_headroom (rts' ! r))
       else Inr (Moves, (rts' ! r)\<lparr>last_hold_reason := None\<rparr>))"
    and k: "pool x = pool (rts' ! r)" "current x = current (rts' ! r)" "pending x = pending (rts' ! r)"
      "pool y = pool (rts' ! r)" "current y = current (rts' ! r)" "pending y = pending (rts' ! r)" by blast
  note out = nested_if [OF o]
  consider "desynced n rts" | "\<not> desynced n rts" ?W | "\<not> desynced n rts" "\<not> ?W" ?A | "\<not> desynced n rts" "\<not> ?W" "\<not> ?A" by blast
  then show ?thesis
  proof cases
    case 1
    then show ?thesis using out(1) by simp
  next
    case 2
    then have "?out = Inr (Waits, x) \<or> ?out = Inr (Waits, y)" using out(2,3) by blast
    then show ?thesis unfolding Let_def if_not_P [OF 2(1)] if_P [OF 2(2)] using k K by auto
  next
    case 3
    then have N: "\<not> ?N" and a: "\<exists>q<n. \<not> can_afford (envs ! q) (rts ! q)" using wants by blast+
    show ?thesis unfolding Let_def if_not_P [OF 3(1)] if_not_P [OF 3(2)] if_P [OF a] out(4) [OF 3(1) N 3(2,3)]
      using K by (simp add: refuse_for_headroom_def)
  next
    case 4
    then have N: "\<not> ?N" and a: "\<not> (\<exists>q<n. \<not> can_afford (envs ! q) (rts ! q))" using wants by blast+
    show ?thesis unfolding Let_def if_not_P [OF 4(1)] if_not_P [OF 4(2)] if_not_P [OF a] out(5) [OF 4(1) N 4(2,3)]
      using K by simp
  qed
qed

definition demo_min :: "int list list \<Rightarrow> int list" where
  "demo_min ps = map (\<lambda>i. Min ((\<lambda>p. p ! i) ` set ps)) [0..<length (hd ps)]"

lemma demo_min_channel: "min_channel demo_min"
  unfolding min_channel_def demo_min_def by (metis list.set_sel(1))

definition demo_view :: "byte \<Rightarrow> kv_view" where
  "demo_view b = \<lparr>kv_layers = [\<lparr>k_rows = map (\<lambda>i. [b + of_nat i]) [0..<4], v_rows = map (\<lambda>i. [b, of_nat i]) [0..<4], k_nbytes = 1, v_nbytes = 2\<rparr>],
     tensor_rows = 4, valid_rows = None\<rparr>"

definition demo_rt :: "nat \<Rightarrow> reshard_runtime" where
  "demo_rt r = \<lparr>rt_size = 2, rt_rank = r, allowed = [[1, 2], [2, 1]], current = [1, 2], interval = 1, blocking_guards = [],
     corridor_floor = 0, pool = demo_view (if r = 0 then 16 else 32), rounds = 0, epoch = 0, pending = Some [2, 1], pending_since = Some 0,
     last_hold_reason = None, last_hold_report_at = None, desync_checks = 0, completed = 0, refused_headroom = 0, last_headroom = None\<rparr>"

definition demo_round :: round_env where
  "demo_round = \<lparr>live_slots = [4, 0, 2, 4], is_fully_idle = True, fit_check = None, free_bytes = None, clock_now = 0\<rparr>"

definition demo_begun :: "nat \<Rightarrow> reshard_runtime \<times> proposal" where
  "demo_begun r = (case round_begin demo_round (demo_rt r) of Inr (rt, Some p) \<Rightarrow> (rt, p))"

lemma demo_begun: "r < 2 \<Longrightarrow> round_begin demo_round (demo_rt r) = Inr (fst (demo_begun r), Some (snd (demo_begun r)))"
proof -
  have "case round_begin demo_round (demo_rt 0) of Inr (rt, Some p) \<Rightarrow> True | _ \<Rightarrow> False"
    "case round_begin demo_round (demo_rt 1) of Inr (rt, Some p) \<Rightarrow> True | _ \<Rightarrow> False" by code_simp+
  then show "r < 2 \<Longrightarrow> round_begin demo_round (demo_rt r) = Inr (fst (demo_begun r), Some (snd (demo_begun r)))"
    unfolding demo_begun_def by (auto simp: less_Suc_eq numeral_2_eq_2 split: sum.splits option.splits prod.splits)
qed

theorem ranks_agree_on_the_verdict_witness:
  "\<exists>rt'. round_end 0 (demo_min (map payload_of [snd (demo_begun 0), snd (demo_begun 1)])) (snd (demo_begun 1)) (fst (demo_begun 1)) =
     Inr (Moves, rt') \<and> pending rt' = Some [2, 1]"
proof -
  let ?rts = "[demo_rt 0, demo_rt 1]" and ?envs = "[demo_round, demo_round]"
  have "proposals 2 ?envs ?rts [fst (demo_begun 0), fst (demo_begun 1)] [snd (demo_begun 0), snd (demo_begun 1)]"
    using demo_begun [of 0] demo_begun [of 1] by (simp add: proposals_def numeral_2_eq_2 less_Suc_eq demo_rt_def)
  note V = ranks_agree_on_the_verdict [OF this demo_min_channel, of 1 0]
  have ex2: "(\<exists>q<2. Q q) \<longleftrightarrow> Q 0 \<or> Q (1::nat)" for Q by (auto simp: less_2_cases_iff)
  have "\<not> desynced 2 ?rts" by (simp add: desynced_def ex2 demo_rt_def)
  moreover have "\<not> (\<exists>q<2. \<not> wants_move (?envs ! q) (?rts ! q))" "\<not> (\<exists>q<2. \<not> can_afford (?envs ! q) (?rts ! q))"
    by (auto simp: ex2 wants_move_def can_afford_def affordable_def demo_rt_def demo_round_def)
  ultimately show ?thesis using V by (auto simp: Let_def demo_rt_def)
qed

end
