(* ===== verification/Kv_Reads.thy ===== *)
theory Kv_Reads
  imports Kv_Move Kv_Agreement
begin

text \<open>
  Reads across a reshard. The move and the owner rule are put together: what a read of a live slot returns
  through the bounds of the process is the same before and after a move to a vector that the process
  honours, and the case of the even vector, which the process does not honour.
\<close>

lemma rank_moved_fields:
  assumes "rank_moved slots u v sts tr r st'"
  shows "rt_size (runtime st') = rt_size (runtime (sts ! r))" "rt_rank (runtime st') = rt_rank (runtime (sts ! r))"
    "current (runtime st') = v" "pending (runtime st') = None" "epoch (runtime st') = epoch (runtime (sts ! r)) + 1"
    "process st' = set_cp_token_ratios (Some v) (process (sts ! r))"
proof -
  have R: "runtime st' = (runtime (sts ! r))\<lparr>pool := pool (runtime st'), current := v, pending := None, pending_since := None,
       last_hold_report_at := None, epoch := epoch (runtime (sts ! r)) + 1, completed := completed (runtime (sts ! r)) + 1\<rparr>"
    using assms unfolding rank_moved_def by blast
  show "rt_size (runtime st') = rt_size (runtime (sts ! r))" "rt_rank (runtime st') = rt_rank (runtime (sts ! r))"
    "current (runtime st') = v" "pending (runtime st') = None" "epoch (runtime st') = epoch (runtime (sts ! r)) + 1"
    using arg_cong [OF R, of rt_size] arg_cong [OF R, of rt_rank] arg_cong [OF R, of current] arg_cong [OF R, of pending]
      arg_cong [OF R, of epoch] by simp_all
  show "process st' = set_cp_token_ratios (Some v) (process (sts ! r))" using assms unfolding rank_moved_def by blast
qed

lemma group_plans:
  assumes "group_ready u v c (sort (remdups live)) sts" "r < length sts"
  shows "\<exists>tr. build_transition (sort (remdups live)) u v r = Inr tr \<and>
    (\<forall>env. live_slots env = live \<longrightarrow> plan_move env v (runtime (sts ! r)) = Inr (tr, plan_transient_terms (view_of sts r) tr))"
proof -
  have "slots_ok (sort (remdups live))" "length u = length v" "r < length u" using assms by (auto simp: group_ready_def)
  from build_transition_ok [OF this] show ?thesis using group_rank(2,3) [OF assms] by (simp add: plan_move_def)
qed

lemma moved_reads:
  assumes g: "group_ready u v c slots sts" and t: "\<forall>r<length sts. build_transition slots u v r = Inr (trs ! r)" and f: "faithful_vector v"
    and m: "length sts' = length sts" "\<forall>r<length sts. rank_moved slots u v sts (trs ! r) r (sts' ! r)"
    and l: "l \<in> set slots" and ly: "ly < num_layers (view_of sts 0)"
  shows "group_read sts' ly l = group_read sts ly l" "length (group_read sts ly l) = 1"
proof -
  have w: "weights_ok u" "length u = length sts" "weights_ok v" "length v = length sts" using g by (simp_all add: group_ready_def)
  have n: "0 < length sts" using w(1,2) by (auto simp: weights_ok_def)
  have l31: "0 \<le> l" "l < 2 ^ 31" using g l by (force simp: group_ready_def slots_ok_def list_all_iff)+
  have lyr: "ly < num_layers (view_of sts r)" if "r < length sts" for r using group_widths(2) [OF g that n] ly by simp
  have old: "group_read sts ly l = [slot_row u sts ly l]"
    using group_read_ok [OF w(1,2) l31, of ly] group_rank [OF g] lyr group_rows(4) [OF g l, of u] by simp
  have geo: "view_ok (view_of sts' r)" "tensor_rows (view_of sts' r) = tensor_rows (view_of sts r)" "num_layers (view_of sts' r) = num_layers (view_of sts r)"
    "rt_size (runtime (sts' ! r)) = length sts" "rt_rank (runtime (sts' ! r)) = r" "token_vector (process (sts' ! r)) (length sts) = v"
    if r: "r < length sts" for r
  proof -
    have f': "rank_moved slots u v sts (trs ! r) r (sts' ! r)" using m(2) r by blast
    from rank_moved_fields(1,2) [OF this] show "rt_size (runtime (sts' ! r)) = length sts" "rt_rank (runtime (sts' ! r)) = r" using group_rank(1,2) [OF g r] by simp_all
    show "view_ok (view_of sts' r)" "tensor_rows (view_of sts' r) = tensor_rows (view_of sts r)" "num_layers (view_of sts' r) = num_layers (view_of sts r)"
      using m(2) r by (auto simp: rank_moved_def moved_def same_geometry_def)
    show "token_vector (process (sts' ! r)) (length sts) = v"
      using m(2) r token_vector_installed [OF w(3,4) f] by (simp add: rank_moved_def)
  qed
  let ?q = "the_owner v l"
  have q: "?q < length sts" "row_of v ?q l < int (tensor_rows (view_of sts ?q))" using group_rows [OF g l, of v ?q] by simp_all
  have "group_read sts' ly l = [slot_row v sts' ly l]"
    using group_read_ok [of v sts' l ly] w(3,4) l31 m(1) geo lyr q by simp
  also have "slot_row v sts' ly l = slot_row u sts ly l"
    using moved_content [OF g q(1), of "trs ! ?q" "view_of sts' ?q" ly l] t m(2) q(1) lyr [OF q(1)] l
    by (simp add: rank_moved_def slot_row_def [of v])
  finally show "group_read sts' ly l = group_read sts ly l" using old by simp
  show "length (group_read sts ly l) = 1" using old by simp
qed

text \<open>C2: a reshard moves the cache without changing it. When the ranks of a group agree on the live slots and the two
  vectors, the pools hold the rows the sizing rule reserves and the payloads arrive, then every rank can
  plan its part, the move succeeds on every rank (the ceiling, size, checksum and shape checks all pass), every
  rank ends with the new vector installed and disarmed, and for every live slot and layer exactly one rank
  serves the slot afterwards, with the bytes that were served before.\<close>

theorem reshard_preserves_reads:
  assumes g: "group_ready u v c (sort (remdups live)) sts" and f: "faithful_vector v" and d: "\<forall>p q b. transport p q b = b"
  shows "\<exists>trs sts'. (\<forall>r<length sts. \<forall>env. live_slots env = live \<longrightarrow>
        (\<exists>terms. plan_move env v (runtime (sts ! r)) = Inr (trs ! r, terms))) \<and>
     group_move block chunk transport trs sts = Inr sts' \<and> length sts' = length sts \<and>
     (\<forall>r<length sts. current (runtime (sts' ! r)) = v \<and> pending (runtime (sts' ! r)) = None \<and>
        epoch (runtime (sts' ! r)) = epoch (runtime (sts ! r)) + 1 \<and> cp_token_ratios (process (sts' ! r)) = Some v) \<and>
     (\<forall>l\<in>set live. \<forall>ly<num_layers (view_of sts 0). length (group_read sts ly l) = 1 \<and> group_read sts' ly l = group_read sts ly l)"
proof -
  let ?slots = "sort (remdups live)"
  define trs where "trs = map (\<lambda>r. projr (build_transition ?slots u v r)) [0..<length sts]"
  have t: "\<forall>r<length sts. build_transition ?slots u v r = Inr (trs ! r)"
    using group_plans [OF g] by (fastforce simp: trs_def)
  obtain sts' where m: "group_move block chunk transport trs sts = Inr sts'" "length sts' = length sts"
    "\<forall>r<length sts. rank_moved ?slots u v sts (trs ! r) r (sts' ! r)"
    using group_move_ok [OF g t d f] by blast
  have v: "v \<noteq> []" using g by (simp add: group_ready_def weights_ok_def)
  have plans: "\<forall>r<length sts. \<forall>env. live_slots env = live \<longrightarrow> (\<exists>terms. plan_move env v (runtime (sts ! r)) = Inr (trs ! r, terms))"
    using group_plans [OF g] t by fastforce
  have "current (runtime (sts' ! r)) = v \<and> pending (runtime (sts' ! r)) = None \<and>
      epoch (runtime (sts' ! r)) = epoch (runtime (sts ! r)) + 1 \<and> cp_token_ratios (process (sts' ! r)) = Some v" if r: "r < length sts" for r
    using rank_moved_fields(3-6) [OF m(3) [rule_format, OF r]] v by (simp add: set_cp_token_ratios_def listed_def)
  then have state: "\<forall>r<length sts. current (runtime (sts' ! r)) = v \<and> pending (runtime (sts' ! r)) = None \<and>
      epoch (runtime (sts' ! r)) = epoch (runtime (sts ! r)) + 1 \<and> cp_token_ratios (process (sts' ! r)) = Some v" by blast
  have reads: "\<forall>l\<in>set live. \<forall>ly<num_layers (view_of sts 0). length (group_read sts ly l) = 1 \<and> group_read sts' ly l = group_read sts ly l"
    using moved_reads [OF g t f m(2,3)] by (metis set_remdups set_sort)
  show ?thesis by (intro exI [of _ trs] exI [of _ sts'] conjI) (rule plans m(1,2) state reads)+
qed

definition demo_group :: "rank_state list" where
  "demo_group = map (\<lambda>r. \<lparr>runtime = demo_rt r, process = demo_dcp\<lparr>cp_token_ratios := Some [1, 2]\<rparr>,
     backends = [\<lparr>weighted = True, cached_bounds = (3, 0, 1, 1)\<rparr>]\<rparr>) [0, 1]"

lemma demo_group_ready: "group_ready [1, 2] [2, 1] 5 (sort (remdups [4, 0, 2, 4])) demo_group"
proof -
  have two: "(\<forall>r<2. P r) \<longleftrightarrow> P 0 \<and> P 1" for P :: "nat \<Rightarrow> bool" by (auto simp: less_2_cases_iff)
  have len: "length demo_group = 2" by (simp add: demo_group_def)
  have "weights_ok [1, 2]" "weights_ok [2, 1]" "slots_ok (sort (remdups [4, 0, 2, 4]))" "list_all (\<lambda>l. l \<le> 5) (sort (remdups [4, 0, 2, 4 :: int]))"
    "reshard_ceiling_rows 5 [[1, 2], [2, 1]] 0 = Inr 4" "reshard_ceiling_rows 5 [[1, 2], [2, 1]] 1 = Inr 4"
    "view_ok (demo_view 16)" "view_ok (demo_view 32)" "token_vector (demo_dcp\<lparr>cp_token_ratios := Some [1, 2]\<rparr>) 2 = [1, 2]"
    by code_simp+
  moreover have "same_widths (demo_view b) (demo_view c)" "num_rows (demo_view b) = 4" for b c
    by (auto simp: same_widths_def num_rows_def demo_view_def num_layers_def row_nbytes_def)
  ultimately show ?thesis unfolding group_ready_def len two Let_def
    by (simp add: demo_group_def demo_rt_def del: reshard_ceiling_rows.simps)
qed

theorem reshard_preserves_reads_witness:
  "\<exists>trs sts'. group_move 2 (\<lambda>_. 4) (\<lambda>_ _ b. b) trs demo_group = Inr sts' \<and> group_read sts' 0 4 = [[34, 32, 2]]"
proof -
  have "faithful_vector [2, 1]" by code_simp
  from reshard_preserves_reads [OF demo_group_ready this, of "\<lambda>_ _ b. b" 2 "\<lambda>_. 4"] obtain trs sts' where
    "group_move 2 (\<lambda>_. 4) (\<lambda>_ _ b. b) trs demo_group = Inr sts'"
    "\<forall>l\<in>set [4, 0, 2, 4]. \<forall>ly<num_layers (view_of demo_group 0). group_read sts' ly l = group_read demo_group ly l" by blast
  moreover have "group_read demo_group 0 4 = [[34, 32, 2]]" "0 < num_layers (view_of demo_group 0)" by code_simp+
  ultimately show ?thesis by (intro exI [of _ trs] exI [of _ sts']) simp
qed

text \<open>C23: a reshard to an even vector misroutes reads. The runtime accepts a declared target of equal entries
  \<open>k \<ge> 2\<close>. The move then places slot 1 on rank 0, but the process treats an all-equal vector as the even split of
  one slot per rank, so after the cutover rank 0 no longer claims the slot and rank 1, which does not hold
  it, does.\<close>

theorem even_target_misroutes:
  assumes "2 \<le> n" "2 \<le> k" and rt: "blocking_guards rt = []" "rt_size rt = n" "replicate n k \<in> set (allowed rt)" "current rt \<noteq> replicate n k"
  shows "fst (arm (replicate n k) now rt) \<and> owner_of [1] (replicate n k) = [0] \<and>
    (let s' = set_cp_token_ratios (Some (replicate n k)) s in
     dcp_weighted_owner_bounds s' n 0 = Inr (int n, 0, 1, 1) \<and> snd (dcp_weighted_read_slots [1] (int n) 0 1 1) = [False] \<and>
     dcp_weighted_owner_bounds s' n 1 = Inr (int n, 1, 2, 1) \<and> snd (dcp_weighted_read_slots [1] (int n) 1 2 1) = [True])"
proof -
  have arms: "fst (arm (replicate n k) now rt)" using assms by (auto simp: arm_def Let_def list_ex_iff)
  have "k \<le> sum_list (replicate n k)" using assms(1,2) by (simp add: sum_list_replicate mult_le_cancel_right1)
  then have one: "1 mod sum_list (replicate n k) = 1" using assms(2) by simp
  obtain m where m: "replicate n k = k # replicate m k" using assms(1) by (cases n) auto
  have "owner_of [1] (replicate n k) = [0]"
    using one assms(2) unfolding owner_of_map the_owner_def m by (cases m) (simp_all add: searchsorted_right_def)
  moreover have "length (remdups (replicate n k)) = 1" using assms(1) by (simp add: length_remdups_card_conv set_replicate_conv_if)
  then have tv: "token_vector (set_cp_token_ratios (Some (replicate n k)) s) n = replicate n 1"
    using assms(1) by (simp add: token_vector_def uneven_dcp_active_def set_cp_token_ratios_def listed_def)
  have "dcp_weighted_owner_bounds (set_cp_token_ratios (Some (replicate n k)) s) n r = Inr (int n, int r, int r + 1, 1)" if "r < n" for r
    using bounds_of [of r "set_cp_token_ratios (Some (replicate n k)) s" n] that unfolding tv
    by (simp add: prefix_from_nth sum_list_replicate min_def)
  from this [of 0] this [of 1] have "dcp_weighted_owner_bounds (set_cp_token_ratios (Some (replicate n k)) s) n 0 = Inr (int n, 0, 1, 1)"
    "dcp_weighted_owner_bounds (set_cp_token_ratios (Some (replicate n k)) s) n 1 = Inr (int n, 1, 2, 1)" using assms(1) by simp_all
  moreover have "1 mod int n = 1" using assms(1) by simp
  then have "snd (dcp_weighted_read_slots [1] (int n) 0 1 1) = [False]" "snd (dcp_weighted_read_slots [1] (int n) 1 2 1) = [True]"
    by (simp_all add: dcp_weighted_read_slots_def)
  ultimately show ?thesis using arms by (simp add: Let_def)
qed

theorem even_target_misroutes_witness:
  "reshard_vector_set ''2,2'' 2 [1, 2] = Inr [[1, 2], [2, 2]] \<and>
   fst (arm [2, 2] 0 ((demo_rt 0)\<lparr>allowed := [[1, 2], [2, 2]]\<rparr>)) \<and> owner_of [1] [2, 2] = [0] \<and>
   dcp_weighted_owner_bounds (set_cp_token_ratios (Some [2, 2]) demo_dcp) 2 0 = Inr (2, 0, 1, 1)"
proof -
  have "reshard_vector_set ''2,2'' 2 [1, 2] = Inr [[1, 2], [2, 2]]" by code_simp
  then show ?thesis
    using even_target_misroutes [of 2 2 "(demo_rt 0)\<lparr>allowed := [[1, 2], [2, 2]]\<rparr>" 0 demo_dcp]
    by (simp add: demo_rt_def numeral_2_eq_2 Let_def)
qed

end
