(* ===== verification/Staging_Ring.thy ===== *)
theory Staging_Ring
  imports Prelude "HOL-Library.AList"
begin

text \<open>
  The staging ring of the hierarchical cache (\<open>mem_cache/staging_write_ring.py\<close>): the counted bound on
  write-through pages whose storage write has not drained. \<open>_inflight\<close> is an association list in insertion
  order, the counters are the fields of the class. The lemmas show that the occupancy is the sum of the
  charges, that the clamp of \<open>_pop\<close> is dead code, that \<open>admit\<close> never overcommits and that the counters
  account for every charge.
\<close>

section \<open>The ring\<close>

record 'k ring =
  ring_name :: string
  capacity_tokens :: int
  inflight :: "('k \<times> int) list"
  occupied_tokens :: int
  admitted :: int
  admitted_tokens :: int
  refused :: int
  refused_tokens :: int
  readmitted :: int
  occupied :: int
  aborted :: int
  released :: int
  peak_occupied_tokens :: int

datatype ring_error = RingValueError int

definition StagingWriteRing :: "int \<Rightarrow> string \<Rightarrow> ring_error + 'k ring" where
  "StagingWriteRing cap name =
     (if cap \<le> 0 then Inl (RingValueError cap)
      else Inr \<lparr>ring_name = name, capacity_tokens = cap, inflight = [], occupied_tokens = 0, admitted = 0, admitted_tokens = 0,
             refused = 0, refused_tokens = 0, readmitted = 0, occupied = 0, aborted = 0, released = 0, peak_occupied_tokens = 0\<rparr>)"

definition available_tokens :: "'k ring \<Rightarrow> int" where
  "available_tokens r = max 0 (capacity_tokens r - occupied_tokens r)"

definition charge :: "'k \<Rightarrow> int \<Rightarrow> 'k ring \<Rightarrow> 'k ring" where
  "charge key tokens r = r\<lparr>inflight := AList.update key tokens (inflight r), occupied_tokens := occupied_tokens r + tokens\<rparr>"

definition note_peak :: "'k ring \<Rightarrow> 'k ring" where
  "note_peak r = (if peak_occupied_tokens r < occupied_tokens r then r\<lparr>peak_occupied_tokens := occupied_tokens r\<rparr> else r)"

definition admit :: "'k \<Rightarrow> int \<Rightarrow> 'k ring \<Rightarrow> bool \<times> 'k ring" where
  "admit key tokens r =
     (if tokens \<le> 0 then (True, r)
      else if map_of (inflight r) key \<noteq> None then (True, r\<lparr>readmitted := readmitted r + 1\<rparr>)
      else if occupied_tokens r + tokens > capacity_tokens r then
        (False, r\<lparr>refused := refused r + 1, refused_tokens := refused_tokens r + tokens\<rparr>)
      else (let r1 = charge key tokens r
            in (True, note_peak (r1\<lparr>admitted := admitted r1 + 1, admitted_tokens := admitted_tokens r1 + tokens\<rparr>))))"

definition occupy :: "'k \<Rightarrow> int \<Rightarrow> 'k ring \<Rightarrow> 'k ring" where
  "occupy key tokens r =
     (if tokens \<le> 0 \<or> map_of (inflight r) key \<noteq> None then r
      else (let r1 = charge key tokens r in note_peak (r1\<lparr>occupied := occupied r1 + 1\<rparr>)))"

definition ring_pop :: "'k \<Rightarrow> 'k ring \<Rightarrow> bool \<times> 'k ring" where
  "ring_pop key r =
     (case map_of (inflight r) key of
        None \<Rightarrow> (False, r)
      | Some tokens \<Rightarrow>
          (let r1 = r\<lparr>inflight := AList.delete key (inflight r), occupied_tokens := occupied_tokens r - tokens\<rparr>
           in (True, if occupied_tokens r1 < 0 then r1\<lparr>occupied_tokens := 0\<rparr> else r1)))"

definition abort :: "'k \<Rightarrow> 'k ring \<Rightarrow> 'k ring" where
  "abort key r = (let (found, r1) = ring_pop key r in if found then r1\<lparr>aborted := aborted r1 + 1\<rparr> else r1)"

definition release :: "'k \<Rightarrow> 'k ring \<Rightarrow> 'k ring" where
  "release key r = (let (found, r1) = ring_pop key r in if found then r1\<lparr>released := released r1 + 1\<rparr> else r1)"

definition release_all :: "'k ring \<Rightarrow> 'k ring" where
  "release_all r = r\<lparr>inflight := [], occupied_tokens := 0\<rparr>"

text \<open>\<open>build_staging_write_ring\<close>: the host tier of the controller is its \<open>size\<close> when there is one, and an unset or
  empty number counts as 0.\<close>

record cache_controller =
  mem_pool_host :: "int option option"
  prefetch_capacity_limit :: "int option"

definition build_staging_write_ring :: "string option \<Rightarrow> cache_controller option \<Rightarrow> 'k ring option" where
  "build_staging_write_ring host_role controller =
     (if host_role \<noteq> Some ''staging'' then None
      else case controller of
        None \<Rightarrow> None
      | Some cc \<Rightarrow>
          (case mem_pool_host cc of
             None \<Rightarrow> None
           | Some tier \<Rightarrow>
               (let cap = (case tier of None \<Rightarrow> 0 | Some n \<Rightarrow> n) - (case prefetch_capacity_limit cc of None \<Rightarrow> 0 | Some n \<Rightarrow> n)
                in if cap \<le> 0 then None
                   else (case StagingWriteRing cap ''hicache write-through'' of Inl _ \<Rightarrow> None | Inr r \<Rightarrow> Some r))))"

section \<open>Operations in sequence\<close>

datatype 'k ring_op = Admit 'k int | Occupy 'k int | Abort 'k | Release 'k | ReleaseAll

primrec ring_step :: "'k ring_op \<Rightarrow> 'k ring \<Rightarrow> 'k ring" where
  "ring_step (Admit k t) r = snd (admit k t r)"
| "ring_step (Occupy k t) r = occupy k t r"
| "ring_step (Abort k) r = abort k r"
| "ring_step (Release k) r = release k r"
| "ring_step ReleaseAll r = release_all r"

abbreviation ring_run :: "'k ring_op list \<Rightarrow> 'k ring \<Rightarrow> 'k ring" where
  "ring_run ops r \<equiv> fold ring_step ops r"

section \<open>The invariant\<close>

abbreviation charges :: "'k ring \<Rightarrow> int" where
  "charges r \<equiv> sum_list (map snd (inflight r))"

definition ring_ok :: "'k ring \<Rightarrow> bool" where
  "ring_ok r \<longleftrightarrow> distinct (map fst (inflight r)) \<and> list_all (\<lambda>(k, t). 0 < t) (inflight r) \<and>
     occupied_tokens r = charges r \<and> occupied_tokens r \<le> peak_occupied_tokens r \<and> 0 < capacity_tokens r"

lemma charges_delete:
  "distinct (map fst al) \<Longrightarrow> map_of al k = Some t \<Longrightarrow>
   sum_list (map snd (AList.delete k al)) = sum_list (map snd al) - (t :: int) \<and> Suc (length (AList.delete k al)) = length al"
proof (induction al)
  case (Cons a al)
  then show ?case
  proof (cases "fst a = k")
    case True
    then have "k \<notin> fst ` set al" using Cons.prems(1) by auto
    then have "AList.delete k al = al" by (simp add: AList.delete_idem)
    then show ?thesis using True Cons.prems(2) by (cases a) simp
  qed (use Cons in \<open>auto split: if_splits\<close>)
qed simp

lemma charges_nonneg: "list_all (\<lambda>(k, t). 0 < t) al \<Longrightarrow> 0 \<le> sum_list (map snd (al :: ('k \<times> int) list))"
  by (rule sum_list_nonneg) (auto simp: list_all_iff)

lemma list_all_delete: "list_all P al \<Longrightarrow> list_all P (AList.delete k al)"
  by (auto simp: list_all_iff AList.delete_eq)

lemma update_new: "map_of al k = None \<Longrightarrow> AList.update k t al = al @ [(k, t)]"
  by (induction al) (auto split: if_splits)

lemma StagingWriteRing_ok: "StagingWriteRing cap name = Inr r \<Longrightarrow> ring_ok r \<and> capacity_tokens r = cap \<and> inflight r = []"
  by (auto simp: StagingWriteRing_def ring_ok_def split: if_splits)

lemma StagingWriteRing_zero:
  "StagingWriteRing cap name = Inr r \<Longrightarrow> 0 < cap \<and> admitted r = 0 \<and> occupied r = 0 \<and> aborted r = 0 \<and> released r = 0 \<and> peak_occupied_tokens r = 0"
  by (auto simp: StagingWriteRing_def split: if_splits)

lemma charge_ok:
  assumes "ring_ok r" "0 < t" "map_of (inflight r) k = None"
  shows "distinct (map fst (inflight (charge k t r)))" "list_all (\<lambda>(k, t). 0 < t) (inflight (charge k t r))"
    "occupied_tokens (charge k t r) = charges (charge k t r)"
  using assms by (auto simp: ring_ok_def charge_def update_new map_of_eq_None_iff)

lemma note_peak_simps [simp]:
  "inflight (note_peak r) = inflight r" "occupied_tokens (note_peak r) = occupied_tokens r" "capacity_tokens (note_peak r) = capacity_tokens r"
  "admitted (note_peak r) = admitted r" "occupied (note_peak r) = occupied r" "aborted (note_peak r) = aborted r" "released (note_peak r) = released r"
  "peak_occupied_tokens (note_peak r) = max (peak_occupied_tokens r) (occupied_tokens r)"
  by (auto simp: note_peak_def)

lemma charge_simps [simp]:
  "capacity_tokens (charge k t r) = capacity_tokens r" "occupied_tokens (charge k t r) = occupied_tokens r + t"
  "peak_occupied_tokens (charge k t r) = peak_occupied_tokens r" "admitted (charge k t r) = admitted r"
  "occupied (charge k t r) = occupied r" "aborted (charge k t r) = aborted r" "released (charge k t r) = released r"
  by (auto simp: charge_def)

lemma admit_ok: "ring_ok r \<Longrightarrow> ring_ok (snd (admit k t r))"
  using charge_ok [of r t k] by (auto simp: admit_def Let_def) (auto simp: ring_ok_def)

lemma occupy_ok: "ring_ok r \<Longrightarrow> ring_ok (occupy k t r)"
  using charge_ok [of r t k] by (auto simp: occupy_def Let_def) (auto simp: ring_ok_def)

lemma pop_some:
  assumes "ring_ok r" "map_of (inflight r) k = Some t"
  shows "ring_pop k r = (True, r\<lparr>inflight := AList.delete k (inflight r), occupied_tokens := occupied_tokens r - t\<rparr>)"
    "ring_ok (snd (ring_pop k r))" "Suc (length (AList.delete k (inflight r))) = length (inflight r)"
proof -
  note d = charges_delete [of "inflight r" k t] list_all_delete [of _ "inflight r" k] charges_nonneg [of "AList.delete k (inflight r)"]
  have "0 < t" using assms map_of_SomeD [OF assms(2)] by (auto simp: ring_ok_def list_all_iff)
  then have "0 \<le> occupied_tokens r - t" using assms d by (auto simp: ring_ok_def)
  then show p: "ring_pop k r = (True, r\<lparr>inflight := AList.delete k (inflight r), occupied_tokens := occupied_tokens r - t\<rparr>)"
    using assms(2) by (simp add: ring_pop_def)
  show "ring_ok (snd (ring_pop k r))" unfolding p using assms d \<open>0 < t\<close> by (auto simp: ring_ok_def AList.distinct_delete)
  show "Suc (length (AList.delete k (inflight r))) = length (inflight r)" using assms d(1) by (simp add: ring_ok_def)
qed

lemma release_gives_back:
  assumes "ring_ok r" "map_of (inflight r) k = Some t"
  shows "occupied_tokens (release k r) = occupied_tokens r - t"
  using pop_some(1) [OF assms] by (simp add: release_def)

lemma admit_new:
  assumes "0 < t" "map_of (inflight r) k = None"
  shows "fst (admit k t r) \<longleftrightarrow> t \<le> capacity_tokens r - occupied_tokens r"
    "fst (admit k t r) \<Longrightarrow> occupied_tokens (snd (admit k t r)) = occupied_tokens r + t \<and> map_of (inflight (snd (admit k t r))) k = Some t"
    "\<not> fst (admit k t r) \<Longrightarrow> inflight (snd (admit k t r)) = inflight r \<and> refused (snd (admit k t r)) = refused r + 1"
  using assms by (auto simp: admit_def Let_def charge_def update_new map_add_def split: if_splits)

lemma pop_none: "map_of (inflight r) k = None \<Longrightarrow> ring_pop k r = (False, r)"
  by (simp add: ring_pop_def)

lemma pop_ok: "ring_ok r \<Longrightarrow> ring_ok (snd (ring_pop k r))"
  by (cases "map_of (inflight r) k") (simp_all add: pop_none pop_some(2))

lemma ring_ok_counters:
  "ring_ok (r\<lparr>aborted := n\<rparr>) = ring_ok r" "ring_ok (r\<lparr>released := n\<rparr>) = ring_ok r"
  by (simp_all add: ring_ok_def)

lemma release_all_ok: "ring_ok r \<Longrightarrow> ring_ok (release_all r)"
  using charges_nonneg [of "inflight r"] by (auto simp: release_all_def ring_ok_def)

lemma step_ok: "ring_ok r \<Longrightarrow> ring_ok (ring_step op r)"
  by (cases op) (simp_all add: admit_ok occupy_ok release_all_ok pop_ok abort_def release_def case_prod_unfold Let_def ring_ok_counters)

lemma run_ok: "ring_ok r \<Longrightarrow> ring_ok (ring_run ops r)"
  by (induction ops arbitrary: r) (simp_all add: step_ok)

lemma step_capacity: "capacity_tokens (ring_step op r) = capacity_tokens r"
  by (cases op) (auto simp: admit_def occupy_def abort_def release_def ring_pop_def release_all_def Let_def split: option.splits)

lemma run_capacity: "capacity_tokens (ring_run ops r) = capacity_tokens r"
  by (induction ops arbitrary: r) (simp_all add: step_capacity)

section \<open>What the counters count\<close>

definition outstanding :: "'k ring \<Rightarrow> int" where
  "outstanding r = admitted r + occupied r - aborted r - released r - int (length (inflight r))"

lemma step_outstanding:
  assumes "ring_ok r"
  shows "outstanding (ring_step op r) = outstanding r + (if op = ReleaseAll then int (length (inflight r)) else 0)"
proof (cases op)
  case (Admit k t)
  then show ?thesis by (auto simp: admit_def outstanding_def charge_def update_new Let_def)
next
  case (Occupy k t)
  then show ?thesis by (auto simp: occupy_def outstanding_def charge_def update_new Let_def)
next
  case (Abort k)
  then show ?thesis using pop_some(1,3) [OF assms, of k]
    by (cases "map_of (inflight r) k") (auto simp: abort_def pop_none outstanding_def)
next
  case (Release k)
  then show ?thesis using pop_some(1,3) [OF assms, of k]
    by (cases "map_of (inflight r) k") (auto simp: release_def pop_none outstanding_def)
qed (simp add: release_all_def outstanding_def)

lemma run_outstanding:
  "ring_ok r \<Longrightarrow> outstanding r \<le> outstanding (ring_run ops r) \<and> (ReleaseAll \<notin> set ops \<longrightarrow> outstanding (ring_run ops r) = outstanding r)"
proof (induction ops arbitrary: r)
  case (Cons op ops)
  from Cons.IH [OF step_ok [OF this(2)], of op] step_outstanding [OF this(2), of op] show ?case by (auto split: if_splits)
qed simp

lemma step_peak:
  assumes "ring_ok r" "peak_occupied_tokens r \<le> capacity_tokens r" "\<forall>k t. op \<noteq> Occupy k t"
  shows "peak_occupied_tokens (ring_step op r) \<le> capacity_tokens r"
  using assms by (cases op) (auto simp: admit_def abort_def release_def ring_pop_def release_all_def Let_def split: option.splits)

lemma run_peak:
  "ring_ok r \<Longrightarrow> peak_occupied_tokens r \<le> capacity_tokens r \<Longrightarrow> \<forall>k t. Occupy k t \<notin> set ops \<Longrightarrow>
   peak_occupied_tokens (ring_run ops r) \<le> capacity_tokens r"
proof (induction ops arbitrary: r)
  case (Cons op ops)
  then show ?case using Cons.IH [OF step_ok [OF Cons.prems(1)], of op] step_peak [OF Cons.prems(1,2), of op] step_capacity [of op r] by auto
qed simp

text \<open>C25: the staging ring is a counted bound. After any sequence of operations on a new ring the occupancy is the sum of the
  charges in flight (so the clamp in \<open>_pop\<close> never changes it), each key is charged once and positively, and the counters
  balance: admissions and occupations minus aborts and releases are the pages in flight, up to those dropped by
  \<open>release_all\<close>. An admission that charges never overcommits the capacity and is refused exactly when it
  would; and while no page is charged past \<open>admit\<close> the peak stays within the capacity.\<close>

theorem ring_is_a_counted_bound:
  assumes "StagingWriteRing cap name = Inr r0" and r: "r = ring_run ops r0"
  shows "occupied_tokens r = charges r \<and> 0 \<le> occupied_tokens r \<and> distinct (map fst (inflight r)) \<and> list_all (\<lambda>(k, t). 0 < t) (inflight r) \<and>
    int (length (inflight r)) \<le> admitted r + occupied r - aborted r - released r \<and>
    (ReleaseAll \<notin> set ops \<longrightarrow> int (length (inflight r)) = admitted r + occupied r - aborted r - released r) \<and>
    occupied_tokens r \<le> peak_occupied_tokens r \<and> ((\<forall>k t. Occupy k t \<notin> set ops) \<longrightarrow> peak_occupied_tokens r \<le> cap) \<and>
    (\<forall>k t. 0 < t \<and> map_of (inflight r) k = None \<longrightarrow>
       (fst (admit k t r) \<longleftrightarrow> t \<le> cap - occupied_tokens r) \<and>
       (fst (admit k t r) \<longrightarrow> occupied_tokens (snd (admit k t r)) = occupied_tokens r + t \<and> occupied_tokens (release k (snd (admit k t r))) = occupied_tokens r) \<and>
       (\<not> fst (admit k t r) \<longrightarrow> inflight (snd (admit k t r)) = inflight r \<and> refused (snd (admit k t r)) = refused r + 1))"
proof -
  have r0: "ring_ok r0" "capacity_tokens r0 = cap" "outstanding r0 = 0" "peak_occupied_tokens r0 \<le> cap" "0 < cap"
    using StagingWriteRing_ok [OF assms(1)] StagingWriteRing_zero [OF assms(1)] by (simp_all add: outstanding_def)
  have ok: "ring_ok r" "capacity_tokens r = cap" using run_ok [OF r0(1)] run_capacity [of ops r0] r0(2) r by simp_all
  have adm: "(fst (admit k t r) \<longleftrightarrow> t \<le> cap - occupied_tokens r) \<and>
       (fst (admit k t r) \<longrightarrow> occupied_tokens (snd (admit k t r)) = occupied_tokens r + t \<and> occupied_tokens (release k (snd (admit k t r))) = occupied_tokens r) \<and>
       (\<not> fst (admit k t r) \<longrightarrow> inflight (snd (admit k t r)) = inflight r \<and> refused (snd (admit k t r)) = refused r + 1)"
    if "0 < t" "map_of (inflight r) k = None" for k t
    using admit_new [OF that] release_gives_back [OF admit_ok [OF ok(1)], of k t k t] ok(2) by auto
  have "0 \<le> charges r" using ok(1) charges_nonneg by (auto simp: ring_ok_def)
  moreover have "outstanding r0 \<le> outstanding r" "ReleaseAll \<notin> set ops \<longrightarrow> outstanding r = outstanding r0"
    using run_outstanding [OF r0(1), of ops] r by simp_all
  moreover have "(\<forall>k t. Occupy k t \<notin> set ops) \<longrightarrow> peak_occupied_tokens r \<le> cap" using run_peak [OF r0(1), of ops] r0 r by simp
  ultimately show ?thesis using ok(1) r0(3) adm unfolding ring_ok_def outstanding_def by simp
qed

theorem ring_is_a_counted_bound_witness:
  "\<exists>r0. StagingWriteRing 10 ''w'' = Inr r0 \<and>
     (let r = ring_run [Admit 1 6, Admit (2 :: nat) 5, Release 1, Admit 2 5, Admit 2 5] r0
      in occupied_tokens r = charges r \<and> peak_occupied_tokens r \<le> 10 \<and> fst (admit 3 5 r) \<and> \<not> fst (admit 3 6 r) \<and> inflight r = [(2, 5)])"
proof -
  define r0 :: "nat ring" where "r0 = projr (StagingWriteRing 10 ''w'')"
  have r0: "StagingWriteRing 10 ''w'' = Inr r0" by (simp add: r0_def StagingWriteRing_def)
  define r where "r = ring_run [Admit 1 6, Admit 2 5, Release 1, Admit 2 5, Admit 2 5] r0"
  have "inflight r = [(2, 5)]" "occupied_tokens r = 5" unfolding r_def r0_def by code_simp+
  then have "r = ring_run [Admit 1 6, Admit 2 5, Release 1, Admit 2 5, Admit 2 5] r0 \<and> inflight r = [(2, 5)] \<and> occupied_tokens r = 5"
    by (simp add: r_def)
  then have "occupied_tokens r = charges r \<and> peak_occupied_tokens r \<le> 10 \<and> fst (admit 3 5 r) \<and> \<not> fst (admit 3 6 r) \<and> inflight r = [(2, 5)]"
    using ring_is_a_counted_bound [OF r0 r_def] by auto
  then show ?thesis using r0 unfolding r_def Let_def by blast
qed

end
