(* ===== verification/Spec2Isabelle.thy ===== *)
theory Spec2Isabelle
  imports Partition Cache_System Ledger Kv_Reads Staging_Ring
begin

text \<open>
  Verification library of the host-side core of htsglang.
\<close>

end
